(* ===== verification/Kernel_Prelude.thy ===== *)
theory Kernel_Prelude
  imports Main "HOL-Library.Word"
begin

text \<open>
  What the components share: the machine types of the 32-bit ARM kernel, two collections of facts
  that the component proofs pass to the simplifier, and the generic lemmas on lists, function
  updates and words.

  \<^item> \<open>ulong\<close> is the C type \<^verbatim>\<open>unsigned long\<close> of the 32-bit ARM configuration. Its arithmetic wraps
    around, as the code's does.
  \<^item> \<open>c_simps\<close> collects definitions of one-line C helpers, which proofs always unfold.
  \<^item> \<open>frame_simps\<close> collects facts of the form ``this operation leaves that field as it is''.
\<close>

unbundle bit_operations_syntax

type_synonym ulong = "32 word"
type_synonym addr = "32 word"

named_theorems c_simps
named_theorems frame_simps


section \<open>Lists\<close>

lemma distinct_remove1_filter: "distinct xs \<Longrightarrow> remove1 x xs = filter (\<lambda>y. y \<noteq> x) xs"
  by (simp add: distinct_remove1_removeAll removeAll_filter_not_eq) metis

lemma length_removeAll_distinct:
  assumes "distinct xs"
  shows "length (removeAll x xs) = length xs - (if x \<in> set xs then 1 else 0)"
  using assms by (simp flip: distinct_remove1_removeAll add: length_remove1)

lemma of_nat_length_removeAll:
  assumes "distinct xs" and "x \<in> set xs"
  shows "(of_nat (length (removeAll x xs)) :: 'a::ring_1) = of_nat (length xs) - 1"
proof -
  have "0 < length xs"
    using assms(2) by (cases xs) auto
  then show ?thesis
    using assms by (simp add: length_removeAll_distinct of_nat_diff Suc_le_eq)
qed

lemma butlast_last_set: "xs \<noteq> [] \<Longrightarrow> set xs = insert (last xs) (set (butlast xs))"
  by (induction xs) auto

lemma removeAll_last_distinct:
  assumes "distinct xs" and "xs \<noteq> []"
  shows "removeAll (last xs) xs = butlast xs"
proof -
  obtain ys y where xs: "xs = ys @ [y]"
    using assms(2) by (cases xs rule: rev_cases) auto
  with assms(1) have "y \<notin> set ys" by simp
  with xs show ?thesis by simp
qed


section \<open>Words\<close>

lemma word_less_SucD: "(n :: 'a::len word) < 1 \<Longrightarrow> n = 0"
  by (simp add: word_less_nat_alt unat_eq_0)

lemma unat_of_nat_ulong: "n < 2 ^ 32 \<Longrightarrow> unat (of_nat n :: ulong) = n"
  by (simp add: unat_of_nat take_bit_nat_eq_self)

lemma of_nat_ulong_eq_iff:
  assumes "m < 2 ^ 32" "n < 2 ^ 32"
  shows "(of_nat m :: ulong) = of_nat n \<longleftrightarrow> m = n"
  using unat_of_nat_ulong [OF assms(1)] unat_of_nat_ulong [OF assms(2)] by metis

end
