(* ===== verification/Linux_List.thy ===== *)
theory Linux_List
  imports Kernel_Prelude
begin

text \<open>
  The kernel's doubly linked lists, \<^verbatim>\<open>include/linux/list.h\<close>. Every LRU list of the memory
  management code and every child list of a process is one of them.

  A \<open>list_head\<close> is named by its address; the store \<open>lheap\<close> holds the two pointers of each one.
  The operations are the assignments of the header file, in its order, so that the aliasing of
  \<open>next\<close>, \<open>prev\<close> and the list head is the code's. \<open>is_list h head xs\<close> says that the entries
  \<open>xs\<close> are linked, in this order, on the list with the given head. The refinement lemmas say what
  each operation does to \<open>xs\<close>. The locale \<open>linked_list\<close> is the interface that the rest of the
  development relies on: it lets the components use plain lists for the kernel's linked lists.
\<close>

section \<open>The operations of list.h\<close>

record lheap =
  nxt :: "addr \<Rightarrow> addr"
  prv :: "addr \<Rightarrow> addr"

definition set_nxt :: "addr \<Rightarrow> addr \<Rightarrow> lheap \<Rightarrow> lheap" where
  "set_nxt a v h = h\<lparr>nxt := (nxt h)(a := v)\<rparr>"

definition set_prv :: "addr \<Rightarrow> addr \<Rightarrow> lheap \<Rightarrow> lheap" where
  "set_prv a v h = h\<lparr>prv := (prv h)(a := v)\<rparr>"

definition LIST_POISON1 :: addr where
  "LIST_POISON1 = 0x100"

definition LIST_POISON2 :: addr where
  "LIST_POISON2 = 0x200"

definition INIT_LIST_HEAD :: "addr \<Rightarrow> lheap \<Rightarrow> lheap" where
  "INIT_LIST_HEAD l h = set_prv l l (set_nxt l l h)"

definition list_add_between :: "addr \<Rightarrow> addr \<Rightarrow> addr \<Rightarrow> lheap \<Rightarrow> lheap" where
  "list_add_between new prev next h =
     (let h = set_prv next new h;
          h = set_nxt new next h;
          h = set_prv new prev h
      in set_nxt prev new h)"

definition list_add :: "addr \<Rightarrow> addr \<Rightarrow> lheap \<Rightarrow> lheap" where
  "list_add new head h = list_add_between new head (nxt h head) h"

definition list_add_tail :: "addr \<Rightarrow> addr \<Rightarrow> lheap \<Rightarrow> lheap" where
  "list_add_tail new head h = list_add_between new (prv h head) head h"

definition list_del_between :: "addr \<Rightarrow> addr \<Rightarrow> lheap \<Rightarrow> lheap" where
  "list_del_between prev next h = set_nxt prev next (set_prv next prev h)"

definition list_del_entry :: "addr \<Rightarrow> lheap \<Rightarrow> lheap" where
  "list_del_entry entry h = list_del_between (prv h entry) (nxt h entry) h"

definition list_del :: "addr \<Rightarrow> lheap \<Rightarrow> lheap" where
  "list_del entry h =
     (let h = list_del_between (prv h entry) (nxt h entry) h;
          h = set_nxt entry LIST_POISON1 h
      in set_prv entry LIST_POISON2 h)"

definition list_replace :: "addr \<Rightarrow> addr \<Rightarrow> lheap \<Rightarrow> lheap" where
  "list_replace old new h =
     (let h = set_nxt new (nxt h old) h;
          h = set_prv (nxt h new) new h;
          h = set_prv new (prv h old) h
      in set_nxt (prv h new) new h)"

definition list_replace_init :: "addr \<Rightarrow> addr \<Rightarrow> lheap \<Rightarrow> lheap" where
  "list_replace_init old new h = INIT_LIST_HEAD old (list_replace old new h)"

definition list_del_init :: "addr \<Rightarrow> lheap \<Rightarrow> lheap" where
  "list_del_init entry h = INIT_LIST_HEAD entry (list_del_entry entry h)"

definition list_move :: "addr \<Rightarrow> addr \<Rightarrow> lheap \<Rightarrow> lheap" where
  "list_move l head h = list_add l head (list_del_entry l h)"

definition list_move_tail :: "addr \<Rightarrow> addr \<Rightarrow> lheap \<Rightarrow> lheap" where
  "list_move_tail l head h = list_add_tail l head (list_del_entry l h)"

definition list_is_last :: "addr \<Rightarrow> addr \<Rightarrow> lheap \<Rightarrow> bool" where
  "list_is_last l head h \<longleftrightarrow> nxt h l = head"

definition list_empty :: "addr \<Rightarrow> lheap \<Rightarrow> bool" where
  "list_empty head h \<longleftrightarrow> nxt h head = head"

definition list_empty_careful :: "addr \<Rightarrow> lheap \<Rightarrow> bool" where
  "list_empty_careful head h = (let next = nxt h head in next = head \<and> next = prv h head)"

definition list_rotate_left :: "addr \<Rightarrow> lheap \<Rightarrow> lheap" where
  "list_rotate_left head h =
     (if \<not> list_empty head h then list_move_tail (nxt h head) head h else h)"

definition list_is_singular :: "addr \<Rightarrow> lheap \<Rightarrow> bool" where
  "list_is_singular head h \<longleftrightarrow> \<not> list_empty head h \<and> nxt h head = prv h head"

definition list_cut_position_raw :: "addr \<Rightarrow> addr \<Rightarrow> addr \<Rightarrow> lheap \<Rightarrow> lheap" where
  "list_cut_position_raw l head entry h =
     (let new_first = nxt h entry;
          h = set_nxt l (nxt h head) h;
          h = set_prv (nxt h l) l h;
          h = set_prv l entry h;
          h = set_nxt entry l h;
          h = set_nxt head new_first h
      in set_prv new_first head h)"

definition list_cut_position :: "addr \<Rightarrow> addr \<Rightarrow> addr \<Rightarrow> lheap \<Rightarrow> lheap" where
  "list_cut_position l head entry h =
     (if list_empty head h then h
      else if list_is_singular head h \<and> nxt h head \<noteq> entry \<and> head \<noteq> entry then h
      else if entry = head then INIT_LIST_HEAD l h
      else list_cut_position_raw l head entry h)"

definition list_splice_between :: "addr \<Rightarrow> addr \<Rightarrow> addr \<Rightarrow> lheap \<Rightarrow> lheap" where
  "list_splice_between l prev next h =
     (let first = nxt h l;
          last = prv h l;
          h = set_prv first prev h;
          h = set_nxt prev first h;
          h = set_nxt last next h
      in set_prv next last h)"

definition list_splice :: "addr \<Rightarrow> addr \<Rightarrow> lheap \<Rightarrow> lheap" where
  "list_splice l head h =
     (if \<not> list_empty l h then list_splice_between l head (nxt h head) h else h)"

definition list_splice_tail :: "addr \<Rightarrow> addr \<Rightarrow> lheap \<Rightarrow> lheap" where
  "list_splice_tail l head h =
     (if \<not> list_empty l h then list_splice_between l (prv h head) head h else h)"

definition list_splice_init :: "addr \<Rightarrow> addr \<Rightarrow> lheap \<Rightarrow> lheap" where
  "list_splice_init l head h =
     (if \<not> list_empty l h
      then INIT_LIST_HEAD l (list_splice_between l head (nxt h head) h) else h)"

definition list_splice_tail_init :: "addr \<Rightarrow> addr \<Rightarrow> lheap \<Rightarrow> lheap" where
  "list_splice_tail_init l head h =
     (if \<not> list_empty l h
      then INIT_LIST_HEAD l (list_splice_between l (prv h head) head h) else h)"

lemmas list_h_defs =
  set_nxt_def set_prv_def INIT_LIST_HEAD_def list_add_between_def list_add_def list_add_tail_def
  list_del_between_def list_del_entry_def list_del_def Let_def


section \<open>The list a head represents\<close>

fun lseg :: "(addr \<Rightarrow> addr) \<Rightarrow> (addr \<Rightarrow> addr) \<Rightarrow> addr \<Rightarrow> addr list \<Rightarrow> addr \<Rightarrow> bool" where
  "lseg n p a [] b \<longleftrightarrow> n a = b \<and> p b = a"
| "lseg n p a (x # xs) b \<longleftrightarrow> n a = x \<and> p x = a \<and> lseg n p x xs b"

definition is_list :: "lheap \<Rightarrow> addr \<Rightarrow> addr list \<Rightarrow> bool" where
  "is_list h head xs \<longleftrightarrow> lseg (nxt h) (prv h) head xs head \<and> distinct (head # xs)"

lemma lseg_append [simp]: "lseg n p a (xs @ y # ys) b \<longleftrightarrow> lseg n p a xs y \<and> lseg n p y ys b"
  by (induction xs arbitrary: a) auto

lemma lseg_nxt_upd [simp]: "v \<notin> set (a # xs) \<Longrightarrow> lseg (n(v := w)) p a xs b \<longleftrightarrow> lseg n p a xs b"
  by (induction xs arbitrary: a) auto

lemma lseg_prv_upd [simp]: "v \<notin> set (xs @ [b]) \<Longrightarrow> lseg n (p(v := w)) a xs b \<longleftrightarrow> lseg n p a xs b"
  by (induction xs arbitrary: a) auto

lemma lseg_nxt: "lseg n p a xs b \<Longrightarrow> n a = hd (xs @ [b])"
  by (cases xs) auto

lemma lseg_prv: "lseg n p a xs b \<Longrightarrow> p b = last (a # xs)"
  by (induction xs arbitrary: a) auto

lemma is_list_first: "is_list h head xs \<Longrightarrow> nxt h head = hd (xs @ [head])"
  by (auto simp: is_list_def dest: lseg_nxt)

lemma is_list_last: "is_list h head xs \<Longrightarrow> prv h head = last (head # xs)"
  by (auto simp: is_list_def dest: lseg_prv)

lemma is_list_entry:
  assumes "is_list h head (xs @ x # ys)"
  shows "prv h x = last (head # xs)" and "nxt h x = hd (ys @ [head])"
  using assms by (auto simp: is_list_def dest: lseg_nxt lseg_prv)

lemma is_list_unique:
  assumes "is_list h head xs" and "is_list h head ys"
  shows "xs = ys"
proof -
  have "lseg n p a xs head \<Longrightarrow> lseg n p a ys head \<Longrightarrow> head \<notin> set xs \<Longrightarrow> head \<notin> set ys \<Longrightarrow> xs = ys"
    for n p a
  proof (induction xs arbitrary: a ys)
    case Nil
    then show ?case by (cases ys) auto
  next
    case (Cons x xs)
    then show ?case by (cases ys) auto
  qed
  with assms show ?thesis by (auto simp: is_list_def)
qed


section \<open>What each operation does to the list\<close>

lemma is_list_INIT: "is_list (INIT_LIST_HEAD l h) l []"
  by (simp add: is_list_def list_h_defs)

lemma list_add_between_spec:
  assumes "is_list h head (xs @ ys)" and "new \<notin> set (head # xs @ ys)"
  shows "is_list (list_add_between new (last (head # xs)) (hd (ys @ [head])) h) head (xs @ new # ys)"
  using assms
  by (cases xs rule: rev_cases; cases ys) (auto simp: is_list_def list_h_defs)

lemma list_del_between_spec:
  assumes "is_list h head (xs @ x # ys)"
  shows "is_list (list_del_between (last (head # xs)) (hd (ys @ [head])) h) head (xs @ ys)"
  using assms
  by (cases xs rule: rev_cases; cases ys) (auto simp: is_list_def list_h_defs)

lemma list_add_spec:
  assumes "is_list h head xs" and "new \<notin> set (head # xs)"
  shows "is_list (list_add new head h) head (new # xs)"
  using list_add_between_spec [of h head "[]" xs new] assms
  by (simp add: list_add_def is_list_first)

lemma list_add_tail_spec:
  assumes "is_list h head xs" and "new \<notin> set (head # xs)"
  shows "is_list (list_add_tail new head h) head (xs @ [new])"
  using list_add_between_spec [of h head xs "[]" new] assms
  by (simp add: list_add_tail_def is_list_last)

lemma list_del_entry_spec:
  assumes "is_list h head (xs @ x # ys)"
  shows "is_list (list_del_entry x h) head (xs @ ys)"
  using list_del_between_spec [OF assms] by (simp add: list_del_entry_def is_list_entry [OF assms])

lemma lseg_cong:
  "(\<And>a. a \<in> set (a0 # xs @ [b]) \<Longrightarrow> n' a = n a \<and> p' a = p a) \<Longrightarrow>
     lseg n' p' a0 xs b \<longleftrightarrow> lseg n p a0 xs b"
  by (induction xs arbitrary: a0) auto

lemma is_list_cong:
  assumes "is_list h head xs"
    and "\<And>a. a \<in> set (head # xs) \<Longrightarrow> nxt h' a = nxt h a \<and> prv h' a = prv h a"
  shows "is_list h' head xs"
proof -
  have "lseg (nxt h') (prv h') head xs head \<longleftrightarrow> lseg (nxt h) (prv h) head xs head"
    by (rule lseg_cong) (use assms(2) in auto)
  with assms(1) show ?thesis by (simp add: is_list_def)
qed

lemma list_del_spec:
  assumes "is_list h head (xs @ x # ys)"
  shows "is_list (list_del x h) head (xs @ ys)"
    and "nxt (list_del x h) x = LIST_POISON1" and "prv (list_del x h) x = LIST_POISON2"
proof -
  have "x \<notin> set (head # xs @ ys)"
    using assms by (auto simp: is_list_def)
  then show "is_list (list_del x h) head (xs @ ys)"
    by (intro is_list_cong [OF list_del_entry_spec [OF assms]])
      (auto simp: list_del_def list_del_entry_def set_nxt_def set_prv_def Let_def)
qed (simp_all add: list_del_def set_nxt_def set_prv_def Let_def)

lemma list_empty_spec: "is_list h head xs \<Longrightarrow> list_empty head h \<longleftrightarrow> xs = []"
  by (cases xs) (auto simp: is_list_def list_empty_def)

lemma list_is_singular_spec:
  assumes "is_list h head xs"
  shows "list_is_singular head h \<longleftrightarrow> length xs = 1"
proof -
  have "hd (xs @ [head]) = last (head # xs) \<longleftrightarrow> length xs = 1" if ne: "xs \<noteq> []"
  proof -
    obtain y ys where xs: "xs = y # ys"
      using ne by (cases xs) auto
    moreover have "y \<notin> set ys"
      using assms xs by (simp add: is_list_def)
    ultimately show ?thesis
      by (cases ys rule: rev_cases) auto
  qed
  then show ?thesis
    using assms
    by (cases "xs = []")
      (simp_all add: list_is_singular_def list_empty_spec is_list_first is_list_last)
qed

lemma list_is_last_spec:
  assumes "is_list h head (xs @ x # ys)"
  shows "list_is_last x head h \<longleftrightarrow> ys = []"
  using assms is_list_entry(2) [OF assms] by (cases ys) (auto simp: list_is_last_def is_list_def)

lemma list_replace_spec:
  assumes "is_list h head (xs @ old # ys)" and "new \<notin> set (head # xs @ old # ys)"
  shows "is_list (list_replace old new h) head (xs @ new # ys)"
proof -
  let ?n = "hd (ys @ [head])" and ?p = "last (head # xs)"
  have "?n \<noteq> old"
    using assms(1) by (cases ys) (auto simp: is_list_def)
  then have "list_replace old new h =
      h\<lparr>nxt := (nxt h)(new := ?n, ?p := new), prv := (prv h)(?n := new, new := ?p)\<rparr>"
    using assms(2)
    by (simp add: list_replace_def set_nxt_def set_prv_def Let_def is_list_entry [OF assms(1)])
  with assms show ?thesis
    by (cases xs rule: rev_cases; cases ys) (auto simp: is_list_def)
qed

lemma list_rotate_left_spec:
  assumes "is_list h head (x # xs)"
  shows "is_list (list_rotate_left head h) head (xs @ [x])"
proof -
  have "is_list (list_del_entry x h) head xs"
    using list_del_entry_spec [of h head "[]" x xs] assms by simp
  then have "is_list (list_add_tail x head (list_del_entry x h)) head (xs @ [x])"
    using assms by (intro list_add_tail_spec) (auto simp: is_list_def)
  then show ?thesis
    using assms is_list_first [OF assms]
    by (simp add: list_rotate_left_def list_move_tail_def list_empty_spec)
qed

text \<open>\<open>list_splice\<close> puts the entries of one list in front of those of another.\<close>

lemma list_splice_spec:
  assumes "is_list h l xs" and "is_list h head ys"
    and "set (l # xs) \<inter> set (head # ys) = {}"
  shows "is_list (list_splice l head h) head (xs @ ys)"
proof (cases xs rule: rev_cases)
  case Nil
  then show ?thesis using assms by (simp add: list_splice_def list_empty_spec)
next
  case (snoc zs z)
  note first = is_list_first [OF assms(1)] and last = is_list_last [OF assms(1)]
    and hfirst = is_list_first [OF assms(2)]
  have ne: "\<not> list_empty l h"
    using snoc assms(1) by (simp add: list_empty_spec)
  show ?thesis
    using assms snoc
    by (cases zs; cases ys)
      (auto simp: list_splice_def ne first last hfirst is_list_def list_splice_between_def
        set_nxt_def set_prv_def Let_def)
qed


section \<open>The interface the components rely on\<close>

text \<open>
  \<open>linked_list\<close> states what a client of the kernel's lists may assume: adding at the head,
  unlinking an entry, reading the tail, and that lists with other entries keep their contents. The
  lemmas about moving entries, which the LRU code does all the time, are proved from these laws.
\<close>

locale linked_list =
  fixes rep :: "'h \<Rightarrow> addr \<Rightarrow> addr list \<Rightarrow> bool"
    and add :: "addr \<Rightarrow> addr \<Rightarrow> 'h \<Rightarrow> 'h"
    and unlink :: "addr \<Rightarrow> 'h \<Rightarrow> 'h"
    and is_empty :: "addr \<Rightarrow> 'h \<Rightarrow> bool"
    and tail_of :: "'h \<Rightarrow> addr \<Rightarrow> addr"
  assumes rep_distinct: "rep h head xs \<Longrightarrow> distinct (head # xs)"
    and rep_empty: "rep h head xs \<Longrightarrow> is_empty head h \<longleftrightarrow> xs = []"
    and rep_tail: "rep h head xs \<Longrightarrow> xs \<noteq> [] \<Longrightarrow> tail_of h head = last xs"
    and rep_add: "rep h head xs \<Longrightarrow> x \<notin> set (head # xs) \<Longrightarrow> rep (add x head h) head (x # xs)"
    and rep_unlink: "rep h head (xs @ x # ys) \<Longrightarrow> rep (unlink x h) head (xs @ ys)"
    and add_frame: "rep h head xs \<Longrightarrow> rep h head' ys \<Longrightarrow>
      set (x # head # xs) \<inter> set (head' # ys) = {} \<Longrightarrow> rep (add x head h) head' ys"
    and unlink_frame: "rep h head (xs @ x # zs) \<Longrightarrow> rep h head' ys \<Longrightarrow>
      set (head # xs @ x # zs) \<inter> set (head' # ys) = {} \<Longrightarrow> rep (unlink x h) head' ys"
begin

lemma move_to_other:
  assumes src: "rep h src (xs @ x # zs)" and dst: "rep h dst ys"
    and disj: "set (src # xs @ x # zs) \<inter> set (dst # ys) = {}"
  shows "rep (add x dst (unlink x h)) src (xs @ zs)" and "rep (add x dst (unlink x h)) dst (x # ys)"
proof -
  have src': "rep (unlink x h) src (xs @ zs)"
    by (rule rep_unlink [OF src])
  have dst': "rep (unlink x h) dst ys"
    by (rule unlink_frame [OF src dst disj])
  show "rep (add x dst (unlink x h)) dst (x # ys)"
    using disj by (intro rep_add [OF dst']) auto
  show "rep (add x dst (unlink x h)) src (xs @ zs)"
    using disj rep_distinct [OF src] by (intro add_frame [OF dst' src']) auto
qed

lemma rotate_to_head:
  assumes "rep h head (xs @ x # zs)"
  shows "rep (add x head (unlink x h)) head (x # xs @ zs)"
  using rep_distinct [OF assms] by (intro rep_add [OF rep_unlink [OF assms]]) auto

text \<open>
  The scan loop of the LRU code, \<^verbatim>\<open>while (!list_empty(src)) { page = lru_to_page(src);
  list_move(&page->lru, dst); }\<close>: it takes the entries from the tail and puts each at the head of
  the other list, so the order of the entries is kept.
\<close>

fun drain :: "nat \<Rightarrow> addr \<Rightarrow> addr \<Rightarrow> 'h \<Rightarrow> 'h" where
  "drain 0 src dst h = h"
| "drain (Suc n) src dst h =
     (if is_empty src h then h
      else let x = tail_of h src in drain n src dst (add x dst (unlink x h)))"

lemma drain_keeps_order:
  assumes "rep h src xs" and "rep h dst ys" and "set (src # xs) \<inter> set (dst # ys) = {}"
    and "length xs \<le> n"
  shows "rep (drain n src dst h) src [] \<and> rep (drain n src dst h) dst (xs @ ys)"
  using assms
proof (induction n arbitrary: h xs ys)
  case 0
  then show ?case by simp
next
  case (Suc n)
  show ?case
  proof (cases xs rule: rev_cases)
    case Nil
    with Suc.prems show ?thesis by (simp add: rep_empty)
  next
    case (snoc zs z)
    with Suc.prems have src: "rep h src (zs @ z # [])" by simp
    let ?h = "add z dst (unlink z h)"
    have "rep ?h src zs" and "rep ?h dst (z # ys)"
      using move_to_other [OF src Suc.prems(2)] Suc.prems(3) snoc by auto
    then have "rep (drain n src dst ?h) src [] \<and> rep (drain n src dst ?h) dst (zs @ z # ys)"
      using Suc.prems(3,4) snoc rep_distinct [OF src] by (intro Suc.IH) auto
    then show ?thesis
      using Suc.prems snoc by (simp add: rep_empty rep_tail)
  qed
qed

end

lemma list_add_frame:
  assumes "is_list h head xs" and "is_list h head' ys"
    and "set (x # head # xs) \<inter> set (head' # ys) = {}"
  shows "is_list (list_add x head h) head' ys"
proof (rule is_list_cong [OF assms(2)])
  fix a
  assume a: "a \<in> set (head' # ys)"
  have "nxt h head \<in> set (head # xs)"
    using is_list_first [OF assms(1)] by (cases xs) auto
  with a assms(3) show "nxt (list_add x head h) a = nxt h a \<and> prv (list_add x head h) a = prv h a"
    by (auto simp: list_h_defs)
qed

lemma list_del_entry_frame:
  assumes "is_list h head (xs @ x # zs)" and "is_list h head' ys"
    and "set (head # xs @ x # zs) \<inter> set (head' # ys) = {}"
  shows "is_list (list_del_entry x h) head' ys"
proof (rule is_list_cong [OF assms(2)])
  fix a
  assume a: "a \<in> set (head' # ys)"
  have "prv h x \<in> set (head # xs)"
    by (simp only: is_list_entry(1) [OF assms(1)]) (rule last_in_set, simp)
  moreover have "nxt h x \<in> set (zs @ [head])"
    by (simp only: is_list_entry(2) [OF assms(1)]) (rule hd_in_set, simp)
  ultimately show "nxt (list_del_entry x h) a = nxt h a \<and> prv (list_del_entry x h) a = prv h a"
    using a assms(3) by (auto simp: list_h_defs)
qed

interpretation klist: linked_list is_list list_add list_del_entry list_empty prv
proof
  show "is_list h head xs \<Longrightarrow> distinct (head # xs)" for h head xs
    by (simp add: is_list_def)
  show "is_list h head xs \<Longrightarrow> xs \<noteq> [] \<Longrightarrow> prv h head = last xs" for h head xs
    by (simp add: is_list_last)
qed (fact list_empty_spec list_add_spec list_del_entry_spec list_add_frame list_del_entry_frame)+

end
