(* ===== verification/Linux_List_Spec.thy ===== *)
theory Linux_List_Spec
  imports Linux_List
begin

text \<open>Cutting, splicing and moving: properties of \<^verbatim>\<open>list.h\<close> that involve two lists.\<close>

lemma list_cut_position_spec:
  assumes list: "is_list h head (xs @ entry # ys)" and l: "l \<notin> set (head # xs @ entry # ys)"
  shows "is_list (list_cut_position l head entry h) l (xs @ [entry])"
    and "is_list (list_cut_position l head entry h) head ys"
proof -
  have ne: "\<not> list_empty head h" using list by (simp add: list_empty_spec)
  have ent: "entry \<noteq> head" using list by (auto simp: is_list_def)
  have sing: "list_is_singular head h \<Longrightarrow> nxt h head = entry"
    using list is_list_first [OF list] by (cases xs) (auto simp: list_is_singular_spec)
  have cut: "list_cut_position l head entry h = list_cut_position_raw l head entry h"
    using ne ent sing by (auto simp: list_cut_position_def)
  note first = is_list_first [OF list] and next_e = is_list_entry(2) [OF list]
  show "is_list (list_cut_position l head entry h) l (xs @ [entry])"
    using list l unfolding cut
    by (cases xs; cases ys)
      (auto simp: list_cut_position_raw_def is_list_def set_nxt_def set_prv_def Let_def first next_e)
  show "is_list (list_cut_position l head entry h) head ys"
    using list l unfolding cut
    by (cases xs; cases ys)
      (auto simp: list_cut_position_raw_def is_list_def set_nxt_def set_prv_def Let_def first next_e)
qed

text \<open>
  C40. \<^verbatim>\<open>list_cut_position\<close> moves the entries up to and including the given one to the other list and leaves the
  rest, in order, and \<^verbatim>\<open>list_splice\<close> undoes it.
\<close>

theorem cut_splice_roundtrip:
  assumes "is_list h head (xs @ entry # ys)" and "l \<notin> set (head # xs @ entry # ys)"
  shows "is_list (list_cut_position l head entry h) l (xs @ [entry]) \<and>
    is_list (list_cut_position l head entry h) head ys \<and>
    is_list (list_splice l head (list_cut_position l head entry h)) head (xs @ entry # ys)"
proof -
  note cut = list_cut_position_spec [OF assms]
  have "set (l # xs @ [entry]) \<inter> set (head # ys) = {}" using assms by (auto simp: is_list_def)
  from list_splice_spec [OF cut this] show ?thesis using cut by simp
qed

text \<open>A list of three entries behind the head 0.\<close>

definition three_entries :: lheap where
  "three_entries = list_add_tail 3 0 (list_add_tail 2 0 (list_add_tail 1 0 (INIT_LIST_HEAD 0 \<lparr>nxt = id, prv = id\<rparr>)))"

theorem cut_splice_roundtrip_witness:
  "is_list (list_cut_position 9 0 2 three_entries) 9 [1, 2] \<and> is_list (list_cut_position 9 0 2 three_entries) 0 [3] \<and>
   is_list (list_splice 9 0 (list_cut_position 9 0 2 three_entries)) 0 [1, 2, 3]"
proof -
  have "is_list three_entries 0 ([1] @ 2 # [3])"
    by (simp add: three_entries_def is_list_def list_h_defs)
  from cut_splice_roundtrip [OF this, of 9] show ?thesis by simp
qed

end
