(* ===== verification/Mm_Types.thy ===== *)
theory Mm_Types
  imports Kernel_Prelude
begin

text \<open>
  The data of the memory management code: \<^verbatim>\<open>struct page\<close> with its flags, \<^verbatim>\<open>struct zone\<close> with its LRU
  lists and counters, the pagevecs, and the state that the operations of \<^verbatim>\<open>mm/swap.c\<close> and
  \<^verbatim>\<open>mm/vmscan.c\<close> pass along.

  The configuration is the repository's \<^verbatim>\<open>.config\<close>: one processor (no \<^verbatim>\<open>CONFIG_SMP\<close>), no memory
  control groups, no compaction, no transparent huge pages, no \<^verbatim>\<open>CONFIG_DEBUG_VM\<close> (so \<^verbatim>\<open>VM_BUG_ON\<close> is
  empty), \<^verbatim>\<open>CONFIG_SWAP\<close> and \<^verbatim>\<open>CONFIG_HIGHMEM\<close> set, one node with the zones Normal, HighMem and
  Movable. A pointer to a \<^verbatim>\<open>struct page\<close> is its page frame number; a pointer to a zone is its index
  in \<^verbatim>\<open>node_zones\<close>; a \<^verbatim>\<open>list_head\<close> of pages is the list of the pages on it, first entry first, which
  \<open>Linux_List\<close> justifies.
\<close>

section \<open>Pages\<close>

datatype pageflags =
    PG_locked | PG_error | PG_referenced | PG_uptodate | PG_dirty | PG_lru | PG_active | PG_slab
  | PG_owner_priv_1 | PG_arch_1 | PG_reserved | PG_private | PG_private_2 | PG_writeback
  | PG_head | PG_tail | PG_swapcache | PG_mappedtodisk | PG_reclaim | PG_swapbacked
  | PG_unevictable | PG_mlocked

text \<open>
  The two kinds of address space that \<^verbatim>\<open>page_mapping\<close> tells apart, and the values of
  \<^verbatim>\<open>page->mapping\<close>: null, a pointer to an \<^verbatim>\<open>anon_vma\<close> (low bit set), or an address space.
\<close>

datatype address_space = swapper_space | Inode_space nat

datatype page_mapping_ptr = Map_NULL | Map_anon nat | Map_as address_space

text \<open>
  The fields of \<^verbatim>\<open>struct page\<close> that the code reads or writes. \<open>pg_zonenum\<close> is the zone number that
  the code keeps in the upper bits of \<^verbatim>\<open>flags\<close>. \<open>pg_referenced\<close> is the counter
  \<^verbatim>\<open>unsigned long PG_referenced\<close> that this kernel adds at the end of the structure. In the first tail
  page of a compound page \<^verbatim>\<open>lru.next\<close> holds the destructor and \<^verbatim>\<open>lru.prev\<close> the order; no other use of
  the two fields is kept here, since lists of pages are fields of their own.
\<close>

datatype compound_page_dtor = Dtor_free_compound_page

record page =
  pg_flags :: "pageflags \<Rightarrow> bool"
  pg_zonenum :: nat
  pg_mapping :: page_mapping_ptr
  pg_index :: ulong
  pg_mapcount :: int
  pg_count :: int
  pg_private :: ulong
  pg_first_page :: nat
  pg_lru_next :: "compound_page_dtor option"
  pg_lru_prev :: nat
  pg_referenced :: ulong

definition set_flag :: "pageflags \<Rightarrow> page \<Rightarrow> page" where
  "set_flag f pg = pg\<lparr>pg_flags := (pg_flags pg)(f := True)\<rparr>"

definition clear_flag :: "pageflags \<Rightarrow> page \<Rightarrow> page" where
  "clear_flag f pg = pg\<lparr>pg_flags := (pg_flags pg)(f := False)\<rparr>"


section \<open>LRU lists\<close>

datatype lru_list =
  LRU_INACTIVE_ANON | LRU_ACTIVE_ANON | LRU_INACTIVE_FILE | LRU_ACTIVE_FILE | LRU_UNEVICTABLE

definition LRU_BASE :: nat where "LRU_BASE = 0"
definition LRU_ACTIVE :: nat where "LRU_ACTIVE = 1"
definition LRU_FILE :: nat where "LRU_FILE = 2"

primrec nat_of_lru :: "lru_list \<Rightarrow> nat" where
  "nat_of_lru LRU_INACTIVE_ANON = 0"
| "nat_of_lru LRU_ACTIVE_ANON = 1"
| "nat_of_lru LRU_INACTIVE_FILE = 2"
| "nat_of_lru LRU_ACTIVE_FILE = 3"
| "nat_of_lru LRU_UNEVICTABLE = 4"

definition lru_of_nat :: "nat \<Rightarrow> lru_list" where
  "lru_of_nat n =
     (if n = 0 then LRU_INACTIVE_ANON else if n = 1 then LRU_ACTIVE_ANON
      else if n = 2 then LRU_INACTIVE_FILE else if n = 3 then LRU_ACTIVE_FILE
      else LRU_UNEVICTABLE)"

text \<open>The index arithmetic \<^verbatim>\<open>lru + LRU_ACTIVE\<close> that the code does on the enumeration.\<close>

definition lru_plus :: "lru_list \<Rightarrow> nat \<Rightarrow> lru_list" where
  "lru_plus l n = lru_of_nat (nat_of_lru l + n)"

lemma lru_of_nat_of_lru [simp]: "lru_of_nat (nat_of_lru l) = l"
  by (cases l) (simp_all add: lru_of_nat_def)

lemma lru_plus_0 [simp]: "lru_plus l 0 = l"
  by (simp add: lru_plus_def)

lemma lru_plus_active [simp]:
  "lru_plus LRU_INACTIVE_ANON LRU_ACTIVE = LRU_ACTIVE_ANON"
  "lru_plus LRU_INACTIVE_FILE LRU_ACTIVE = LRU_ACTIVE_FILE"
  by (simp_all add: lru_plus_def lru_of_nat_def LRU_ACTIVE_def)

text \<open>The enumeration is ordered by its C values, which the loops over it rely on.\<close>

instantiation lru_list :: linorder
begin

definition less_eq_lru_list :: "lru_list \<Rightarrow> lru_list \<Rightarrow> bool" where
  "less_eq_lru_list a b \<longleftrightarrow> nat_of_lru a \<le> nat_of_lru b"

definition less_lru_list :: "lru_list \<Rightarrow> lru_list \<Rightarrow> bool" where
  "less_lru_list a b \<longleftrightarrow> nat_of_lru a < nat_of_lru b"

instance
proof
  fix x y :: lru_list
  assume "x \<le> y" and "y \<le> x"
  then have "lru_of_nat (nat_of_lru x) = lru_of_nat (nat_of_lru y)"
    by (simp add: less_eq_lru_list_def)
  then show "x = y" by simp
qed (auto simp: less_eq_lru_list_def less_lru_list_def)

end

definition all_lrus :: "lru_list list" where
  "all_lrus =
     [LRU_INACTIVE_ANON, LRU_ACTIVE_ANON, LRU_INACTIVE_FILE, LRU_ACTIVE_FILE, LRU_UNEVICTABLE]"

definition evictable_lrus :: "lru_list list" where
  "evictable_lrus = [LRU_INACTIVE_ANON, LRU_ACTIVE_ANON, LRU_INACTIVE_FILE, LRU_ACTIVE_FILE]"

lemma set_all_lrus [simp]: "set all_lrus = UNIV"
proof -
  have "l \<in> set all_lrus" for l
    by (cases l) (simp_all add: all_lrus_def)
  then show ?thesis by auto
qed

lemma evictable_lrus_le: "set evictable_lrus = {l. l \<le> LRU_ACTIVE_FILE}"
proof -
  have "l \<in> set evictable_lrus \<longleftrightarrow> l \<le> LRU_ACTIVE_FILE" for l
    by (cases l) (simp_all add: evictable_lrus_def less_eq_lru_list_def)
  then show ?thesis by auto
qed

definition is_file_lru :: "lru_list \<Rightarrow> bool" where
  [c_simps]: "is_file_lru l \<longleftrightarrow> l = LRU_INACTIVE_FILE \<or> l = LRU_ACTIVE_FILE"

definition is_active_lru :: "lru_list \<Rightarrow> bool" where
  [c_simps]: "is_active_lru l \<longleftrightarrow> l = LRU_ACTIVE_ANON \<or> l = LRU_ACTIVE_FILE"

definition is_unevictable_lru :: "lru_list \<Rightarrow> bool" where
  [c_simps]: "is_unevictable_lru l \<longleftrightarrow> l = LRU_UNEVICTABLE"


section \<open>Zones\<close>

datatype zone_stat_item =
    NR_FREE_PAGES | NR_INACTIVE_ANON | NR_ACTIVE_ANON | NR_INACTIVE_FILE | NR_ACTIVE_FILE
  | NR_UNEVICTABLE | NR_MLOCK | NR_ANON_PAGES | NR_FILE_MAPPED | NR_FILE_PAGES | NR_FILE_DIRTY
  | NR_WRITEBACK | NR_SLAB_RECLAIMABLE | NR_SLAB_UNRECLAIMABLE | NR_PAGETABLE | NR_KERNEL_STACK
  | NR_UNSTABLE_NFS | NR_BOUNCE | NR_VMSCAN_WRITE | NR_VMSCAN_IMMEDIATE | NR_WRITEBACK_TEMP
  | NR_ISOLATED_ANON | NR_ISOLATED_FILE | NR_SHMEM | NR_DIRTIED | NR_WRITTEN
  | NR_ANON_TRANSPARENT_HUGEPAGES

text \<open>\<^verbatim>\<open>NR_LRU_BASE + lru\<close> and \<^verbatim>\<open>NR_ISOLATED_ANON + file\<close>.\<close>

primrec nr_lru :: "lru_list \<Rightarrow> zone_stat_item" where
  "nr_lru LRU_INACTIVE_ANON = NR_INACTIVE_ANON"
| "nr_lru LRU_ACTIVE_ANON = NR_ACTIVE_ANON"
| "nr_lru LRU_INACTIVE_FILE = NR_INACTIVE_FILE"
| "nr_lru LRU_ACTIVE_FILE = NR_ACTIVE_FILE"
| "nr_lru LRU_UNEVICTABLE = NR_UNEVICTABLE"

definition nr_isolated :: "bool \<Rightarrow> zone_stat_item" where
  "nr_isolated file = (if file then NR_ISOLATED_FILE else NR_ISOLATED_ANON)"

lemma nr_lru_inj [simp]: "nr_lru a = nr_lru b \<longleftrightarrow> a = b"
  by (cases a; cases b) simp_all

lemma nr_lru_neq_isolated [simp]:
  "nr_lru l \<noteq> NR_ISOLATED_ANON" "nr_lru l \<noteq> NR_ISOLATED_FILE" "nr_lru l \<noteq> nr_isolated file"
  by (cases l; simp add: nr_isolated_def)+

datatype zone_watermarks = WMARK_MIN | WMARK_LOW | WMARK_HIGH

datatype zone_flags_t = ZONE_RECLAIM_LOCKED | ZONE_OOM_LOCKED | ZONE_CONGESTED

definition ZONE_NORMAL :: nat where "ZONE_NORMAL = 0"
definition ZONE_HIGHMEM :: nat where "ZONE_HIGHMEM = 1"
definition ZONE_MOVABLE :: nat where "ZONE_MOVABLE = 2"

text \<open>
  \<open>recent_rotated\<close> and \<open>recent_scanned\<close> are the two arrays of \<^verbatim>\<open>struct zone_reclaim_stat\<close>, indexed by
  whether the pages are file pages. \<open>nr_free\<close> is \<^verbatim>\<open>free_area[order].nr_free\<close>, \<open>free_list\<close> is
  \<^verbatim>\<open>free_area[order].free_list[migratetype]\<close>, and \<open>pageblock_flags\<close> is the bitmap with the migrate types.
  With one processor \<^verbatim>\<open>pageset\<close> is a single \<^verbatim>\<open>struct per_cpu_pages\<close>.
\<close>

record per_cpu_pages =
  pcp_count :: int
  pcp_high :: int
  pcp_batch :: int
  pcp_lists :: "nat \<Rightarrow> nat list"

record zone =
  watermark :: "zone_watermarks \<Rightarrow> ulong"
  lowmem_reserve :: "nat \<Rightarrow> ulong"
  pageset :: per_cpu_pages
  all_unreclaimable :: bool
  free_list :: "nat \<Rightarrow> nat \<Rightarrow> nat list"
  nr_free :: "nat \<Rightarrow> ulong"
  pageblock_flags :: "nat \<Rightarrow> bool"
  lists :: "lru_list \<Rightarrow> nat list"
  recent_rotated :: "bool \<Rightarrow> ulong"
  recent_scanned :: "bool \<Rightarrow> ulong"
  pages_scanned :: ulong
  zone_flags :: "zone_flags_t \<Rightarrow> bool"
  vm_stat :: "zone_stat_item \<Rightarrow> ulong"
  inactive_ratio :: ulong
  zone_start_pfn :: nat
  spanned_pages :: nat
  present_pages :: ulong


section \<open>Pagevecs\<close>

text \<open>The first \<^verbatim>\<open>nr\<close> entries of \<^verbatim>\<open>pages\<close>; \<^verbatim>\<open>PAGEVEC_SIZE\<close> is 14.\<close>

record pagevec =
  pv_cold :: bool
  pv_pages :: "nat list"

definition PAGEVEC_SIZE :: ulong where "PAGEVEC_SIZE = 14"

definition pagevec_init :: "bool \<Rightarrow> pagevec" where
  "pagevec_init cold = \<lparr>pv_cold = cold, pv_pages = []\<rparr>"

definition pagevec_reinit :: "pagevec \<Rightarrow> pagevec" where
  "pagevec_reinit pv = pv\<lparr>pv_pages := []\<rparr>"

definition pagevec_count :: "pagevec \<Rightarrow> ulong" where
  "pagevec_count pv = of_nat (length (pv_pages pv))"

definition pagevec_space :: "pagevec \<Rightarrow> ulong" where
  "pagevec_space pv = PAGEVEC_SIZE - pagevec_count pv"

text \<open>\<^verbatim>\<open>pagevec_add\<close> stores the page and returns the number of slots still available.\<close>

definition pagevec_add :: "pagevec \<Rightarrow> nat \<Rightarrow> ulong \<times> pagevec" where
  "pagevec_add pv p = (let pv = pv\<lparr>pv_pages := pv_pages pv @ [p]\<rparr> in (pagevec_space pv, pv))"


section \<open>The state\<close>

text \<open>\<^verbatim>\<open>FOR_ALL_ZONES(xx)\<close> of the event names is a constructor with the zone index.\<close>

datatype vm_event_item =
    PGPGIN | PGPGOUT | PSWPIN | PSWPOUT | PGALLOC nat | PGFREE | PGACTIVATE | PGDEACTIVATE
  | PGFAULT | PGMAJFAULT | PGREFILL nat | PGSTEAL_KSWAPD nat | PGSTEAL_DIRECT nat
  | PGSCAN_KSWAPD nat | PGSCAN_DIRECT nat | PGINODESTEAL | SLABS_SCANNED | KSWAPD_INODESTEAL
  | KSWAPD_LOW_WMARK_HIT_QUICKLY | KSWAPD_HIGH_WMARK_HIT_QUICKLY | KSWAPD_SKIP_CONGESTION_WAIT
  | PAGEOUTRUN | ALLOCSTALL | PGROTATED | UNEVICTABLE_PGCULLED | UNEVICTABLE_PGSCANNED
  | UNEVICTABLE_PGRESCUED | UNEVICTABLE_PGMLOCKED | UNEVICTABLE_PGMUNLOCKED | UNEVICTABLE_PGCLEARED
  | UNEVICTABLE_PGSTRANDED | UNEVICTABLE_MLOCKFREED

text \<open>
  Calls that leave the modelled code and return nothing are recorded, in order, in the field
  \<open>calls\<close> of the state: pages given back to the page allocator, destructors of compound pages, reports
  of bad pages, naps and wake-ups.
\<close>

datatype kcall =
    Free_hot_cold_page nat bool
  | Compound_page_dtor nat
  | Bad_page nat
  | Wait_iff_congested nat
  | Wakeup_flusher_threads ulong
  | Disable_swap_token
  | Wake_up_kswapd
  | Kswapd_short_sleep
  | Kswapd_long_sleep

text \<open>
  The properties of an address space that reclaim looks at: its \<^verbatim>\<open>AS_UNEVICTABLE\<close>, \<^verbatim>\<open>AS_EIO\<close> and
  \<^verbatim>\<open>AS_ENOSPC\<close> flags, and whether its \<^verbatim>\<open>a_ops\<close> has the optional operations.
\<close>

record as_info =
  AS_UNEVICTABLE :: bool
  AS_EIO :: bool
  AS_ENOSPC :: bool
  has_writepage :: bool
  has_migratepage :: bool
  has_freepage :: bool

text \<open>
  \<open>world\<close> is everything outside: page tables, disks, file systems. Only the functions that stand for
  code outside the model look into it, so its type is a parameter.
\<close>

record 'w mm_state =
  mem_map :: "nat \<Rightarrow> page"
  node_zones :: "nat \<Rightarrow> zone"
  nr_zones :: nat
  vm_stat_global :: "zone_stat_item \<Rightarrow> ulong"
  vm_event_states :: "vm_event_item \<Rightarrow> ulong"
  lru_add_pvecs :: "lru_list \<Rightarrow> pagevec"
  lru_rotate_pvecs :: pagevec
  lru_deactivate_pvecs :: pagevec
  as_infos :: "address_space \<Rightarrow> as_info"
  nr_swap_pages :: int
  total_swap_pages :: int
  page_group_by_mobility_disabled :: bool
  calls :: "kcall list"
  world :: 'w

definition upd_page :: "nat \<Rightarrow> (page \<Rightarrow> page) \<Rightarrow> 'w mm_state \<Rightarrow> 'w mm_state" where
  "upd_page p f s = s\<lparr>mem_map := (mem_map s)(p := f (mem_map s p))\<rparr>"

definition upd_zone :: "nat \<Rightarrow> (zone \<Rightarrow> zone) \<Rightarrow> 'w mm_state \<Rightarrow> 'w mm_state" where
  "upd_zone z f s = s\<lparr>node_zones := (node_zones s)(z := f (node_zones s z))\<rparr>"

definition kcall :: "kcall \<Rightarrow> 'w mm_state \<Rightarrow> 'w mm_state" where
  "kcall c s = s\<lparr>calls := calls s @ [c]\<rparr>"

abbreviation zone_lists :: "'w mm_state \<Rightarrow> nat \<Rightarrow> lru_list \<Rightarrow> nat list" where
  "zone_lists s z \<equiv> lists (node_zones s z)"

text \<open>The flag tests \<^verbatim>\<open>PageLRU(page)\<close> and so on, and the operations that set and clear a flag.\<close>

definition PageFlag :: "pageflags \<Rightarrow> 'w mm_state \<Rightarrow> nat \<Rightarrow> bool" where
  [c_simps]: "PageFlag f s p = pg_flags (mem_map s p) f"

abbreviation "PageLocked \<equiv> PageFlag PG_locked"
abbreviation "PageLRU \<equiv> PageFlag PG_lru"
abbreviation "PageActive \<equiv> PageFlag PG_active"
abbreviation "PageUnevictable \<equiv> PageFlag PG_unevictable"
abbreviation "PageSwapBacked \<equiv> PageFlag PG_swapbacked"
abbreviation "PageSwapCache \<equiv> PageFlag PG_swapcache"
abbreviation "PageDirty \<equiv> PageFlag PG_dirty"
abbreviation "PageWriteback \<equiv> PageFlag PG_writeback"
abbreviation "PageMlocked \<equiv> PageFlag PG_mlocked"
abbreviation "PageHead \<equiv> PageFlag PG_head"
abbreviation "PageTail \<equiv> PageFlag PG_tail"

definition SetPage :: "pageflags \<Rightarrow> nat \<Rightarrow> 'w mm_state \<Rightarrow> 'w mm_state" where
  [c_simps]: "SetPage f p = upd_page p (set_flag f)"

definition ClearPage :: "pageflags \<Rightarrow> nat \<Rightarrow> 'w mm_state \<Rightarrow> 'w mm_state" where
  [c_simps]: "ClearPage f p = upd_page p (clear_flag f)"

definition PageCompound :: "'w mm_state \<Rightarrow> nat \<Rightarrow> bool" where
  "PageCompound s p \<longleftrightarrow> PageHead s p \<or> PageTail s p"

definition page_has_private :: "'w mm_state \<Rightarrow> nat \<Rightarrow> bool" where
  "page_has_private s p \<longleftrightarrow> PageFlag PG_private s p \<or> PageFlag PG_private_2 s p"

definition page_zone :: "'w mm_state \<Rightarrow> nat \<Rightarrow> nat" where
  [c_simps]: "page_zone s p = pg_zonenum (mem_map s p)"

definition compound_head :: "'w mm_state \<Rightarrow> nat \<Rightarrow> nat" where
  "compound_head s p = (if PageTail s p then pg_first_page (mem_map s p) else p)"

definition page_count :: "'w mm_state \<Rightarrow> nat \<Rightarrow> int" where
  "page_count s p = pg_count (mem_map s (compound_head s p))"

definition page_mapped :: "'w mm_state \<Rightarrow> nat \<Rightarrow> bool" where
  "page_mapped s p \<longleftrightarrow> pg_mapcount (mem_map s p) \<ge> 0"

definition page_mapping :: "'w mm_state \<Rightarrow> nat \<Rightarrow> address_space option" where
  "page_mapping s p =
     (if PageSwapCache s p then Some swapper_space
      else case pg_mapping (mem_map s p) of
          Map_NULL \<Rightarrow> None | Map_anon _ \<Rightarrow> None | Map_as m \<Rightarrow> Some m)"

definition PageAnon :: "'w mm_state \<Rightarrow> nat \<Rightarrow> bool" where
  "PageAnon s p = (case pg_mapping (mem_map s p) of Map_anon _ \<Rightarrow> True | _ \<Rightarrow> False)"

definition mapping_unevictable :: "'w mm_state \<Rightarrow> address_space option \<Rightarrow> bool" where
  "mapping_unevictable s m = (case m of Some a \<Rightarrow> AS_UNEVICTABLE (as_infos s a) | None \<Rightarrow> False)"

text \<open>Reference counts: \<^verbatim>\<open>atomic_dec_and_test\<close> and \<^verbatim>\<open>atomic_inc_not_zero\<close> on \<^verbatim>\<open>page->_count\<close>.\<close>

definition add_count :: "int \<Rightarrow> nat \<Rightarrow> 'w mm_state \<Rightarrow> 'w mm_state" where
  "add_count d p = upd_page p (\<lambda>pg. pg\<lparr>pg_count := pg_count pg + d\<rparr>)"

definition put_page_testzero :: "nat \<Rightarrow> 'w mm_state \<Rightarrow> bool \<times> 'w mm_state" where
  "put_page_testzero p s =
     (let s = add_count (-1) p s in (pg_count (mem_map s p) = 0, s))"

definition get_page_unless_zero :: "nat \<Rightarrow> 'w mm_state \<Rightarrow> bool \<times> 'w mm_state" where
  "get_page_unless_zero p s =
     (if pg_count (mem_map s p) \<noteq> 0 then (True, add_count 1 p s) else (False, s))"

definition page_freeze_refs :: "nat \<Rightarrow> int \<Rightarrow> 'w mm_state \<Rightarrow> bool \<times> 'w mm_state" where
  "page_freeze_refs p n s =
     (if pg_count (mem_map s p) = n then (True, upd_page p (\<lambda>pg. pg\<lparr>pg_count := 0\<rparr>) s)
      else (False, s))"

definition page_unfreeze_refs :: "nat \<Rightarrow> int \<Rightarrow> 'w mm_state \<Rightarrow> 'w mm_state" where
  "page_unfreeze_refs p n = upd_page p (\<lambda>pg. pg\<lparr>pg_count := n\<rparr>)"

definition trylock_page :: "nat \<Rightarrow> 'w mm_state \<Rightarrow> bool \<times> 'w mm_state" where
  "trylock_page p s = (\<not> PageLocked s p, SetPage PG_locked p s)"

definition unlock_page :: "nat \<Rightarrow> 'w mm_state \<Rightarrow> 'w mm_state" where
  "unlock_page = ClearPage PG_locked"

text \<open>Counters. On one processor the zone's and the global counter change together.\<close>

definition mod_zone_page_state :: "nat \<Rightarrow> zone_stat_item \<Rightarrow> ulong \<Rightarrow> 'w mm_state \<Rightarrow> 'w mm_state" where
  "mod_zone_page_state z i d s =
     (upd_zone z (\<lambda>zn. zn\<lparr>vm_stat := (vm_stat zn)(i := vm_stat zn i + d)\<rparr>) s)
       \<lparr>vm_stat_global := (vm_stat_global s)(i := vm_stat_global s i + d)\<rparr>"

definition zone_page_state :: "'w mm_state \<Rightarrow> nat \<Rightarrow> zone_stat_item \<Rightarrow> ulong" where
  [c_simps]: "zone_page_state s z i = vm_stat (node_zones s z) i"

definition populated_zone :: "'w mm_state \<Rightarrow> nat \<Rightarrow> bool" where
  "populated_zone s z \<longleftrightarrow> present_pages (node_zones s z) \<noteq> 0"

definition count_vm_events :: "vm_event_item \<Rightarrow> ulong \<Rightarrow> 'w mm_state \<Rightarrow> 'w mm_state" where
  "count_vm_events e n s =
     s\<lparr>vm_event_states := (vm_event_states s)(e := vm_event_states s e + n)\<rparr>"

end
