(* ===== verification/Mm_Lru.thy ===== *)
theory Mm_Lru
  imports Mm_Types
begin

text \<open>
  The LRU lists: the operations of \<^verbatim>\<open>include/linux/mm_inline.h\<close> on them, and the invariant that ties
  the lists of every zone to the flags of the pages and to the zone counters. The invariant is stated
  on a view of the state (which list a page says it is on, the lists, the counters), and every
  operation of the reclaim code is later reduced to the three moves on that view.
\<close>

section \<open>Operations\<close>

definition page_is_file_cache :: "page \<Rightarrow> bool" where
  "page_is_file_cache pg \<longleftrightarrow> \<not> pg_flags pg PG_swapbacked"

definition page_lru_base_type :: "page \<Rightarrow> lru_list" where
  "page_lru_base_type pg = (if page_is_file_cache pg then LRU_INACTIVE_FILE else LRU_INACTIVE_ANON)"

definition page_lru :: "page \<Rightarrow> lru_list" where
  "page_lru pg =
     (if pg_flags pg PG_unevictable then LRU_UNEVICTABLE
      else let lru = page_lru_base_type pg
           in if pg_flags pg PG_active then lru_plus lru LRU_ACTIVE else lru)"

definition page_off_lru :: "nat \<Rightarrow> 'w mm_state \<Rightarrow> lru_list \<times> 'w mm_state" where
  "page_off_lru p s =
     (if PageUnevictable s p then (LRU_UNEVICTABLE, ClearPage PG_unevictable p s)
      else let lru = page_lru_base_type (mem_map s p)
           in if PageActive s p then (lru_plus lru LRU_ACTIVE, ClearPage PG_active p s)
              else (lru, s))"

text \<open>
  \<^verbatim>\<open>list_del(&page->lru)\<close> takes the page off the list it is on, \<^verbatim>\<open>list_add\<close> and \<^verbatim>\<open>list_add_tail\<close> put it
  at the two ends of a list, and \<^verbatim>\<open>list_move\<close>, \<^verbatim>\<open>list_move_tail\<close> do both.
\<close>

definition lru_unlink :: "nat \<Rightarrow> 'w mm_state \<Rightarrow> 'w mm_state" where
  "lru_unlink p s =
     s\<lparr>node_zones := \<lambda>z. (node_zones s z)\<lparr>lists := \<lambda>l. removeAll p (zone_lists s z l)\<rparr>\<rparr>"

definition lru_link :: "nat \<Rightarrow> nat \<Rightarrow> lru_list \<Rightarrow> 'w mm_state \<Rightarrow> 'w mm_state" where
  "lru_link z p l = upd_zone z (\<lambda>zn. zn\<lparr>lists := (lists zn)(l := p # lists zn l)\<rparr>)"

definition lru_link_tail :: "nat \<Rightarrow> nat \<Rightarrow> lru_list \<Rightarrow> 'w mm_state \<Rightarrow> 'w mm_state" where
  "lru_link_tail z p l = upd_zone z (\<lambda>zn. zn\<lparr>lists := (lists zn)(l := lists zn l @ [p])\<rparr>)"

definition lru_move :: "nat \<Rightarrow> nat \<Rightarrow> lru_list \<Rightarrow> 'w mm_state \<Rightarrow> 'w mm_state" where
  "lru_move z p l s = lru_link z p l (lru_unlink p s)"

definition lru_move_tail :: "nat \<Rightarrow> nat \<Rightarrow> lru_list \<Rightarrow> 'w mm_state \<Rightarrow> 'w mm_state" where
  "lru_move_tail z p l s = lru_link_tail z p l (lru_unlink p s)"

definition add_page_to_lru_list :: "nat \<Rightarrow> nat \<Rightarrow> lru_list \<Rightarrow> 'w mm_state \<Rightarrow> 'w mm_state" where
  "add_page_to_lru_list z p l s = mod_zone_page_state z (nr_lru l) 1 (lru_link z p l s)"

definition del_page_from_lru_list :: "nat \<Rightarrow> nat \<Rightarrow> lru_list \<Rightarrow> 'w mm_state \<Rightarrow> 'w mm_state" where
  "del_page_from_lru_list z p l s = mod_zone_page_state z (nr_lru l) (-1) (lru_unlink p s)"


section \<open>The view\<close>

text \<open>
  \<open>lru_place pg\<close> is the zone and the list that the flags of a page put it on, \<open>lru_key s p\<close> that of
  page \<open>p\<close>, and \<open>lru_count s z l\<close> the counter \<^verbatim>\<open>NR_LRU_BASE + l\<close> of zone \<open>z\<close>.
\<close>

definition lru_place :: "page \<Rightarrow> (nat \<times> lru_list) option" where
  "lru_place pg = (if pg_flags pg PG_lru then Some (pg_zonenum pg, page_lru pg) else None)"

definition lru_key :: "'w mm_state \<Rightarrow> nat \<Rightarrow> (nat \<times> lru_list) option" where
  "lru_key s p = lru_place (mem_map s p)"

definition lru_count :: "'w mm_state \<Rightarrow> nat \<Rightarrow> lru_list \<Rightarrow> ulong" where
  "lru_count s z l = zone_page_state s z (nr_lru l)"

text \<open>
  \<open>lru_rep key L C D\<close>: page \<open>p\<close> is on list \<open>L z l\<close>, once, exactly when \<open>key\<close> says so, and each counter
  is the length of its list, up to \<open>D\<close>: the reclaim loops move a batch of pages between lists first
  and correct the counter afterwards.
\<close>

definition lru_rep ::
    "(nat \<Rightarrow> (nat \<times> lru_list) option) \<Rightarrow> (nat \<Rightarrow> lru_list \<Rightarrow> nat list) \<Rightarrow>
     (nat \<Rightarrow> lru_list \<Rightarrow> ulong) \<Rightarrow> (nat \<Rightarrow> lru_list \<Rightarrow> ulong) \<Rightarrow> bool" where
  "lru_rep key L C D \<longleftrightarrow>
     (\<forall>z l. distinct (L z l)) \<and>
     (\<forall>p z l. p \<in> set (L z l) \<longleftrightarrow> key p = Some (z, l)) \<and>
     (\<forall>z l. C z l = of_nat (length (L z l)) + D z l)"

definition lru_inv_upto :: "(nat \<Rightarrow> lru_list \<Rightarrow> ulong) \<Rightarrow> 'w mm_state \<Rightarrow> bool" where
  "lru_inv_upto D s \<longleftrightarrow> lru_rep (lru_key s) (zone_lists s) (lru_count s) D"

abbreviation no_debt :: "nat \<Rightarrow> lru_list \<Rightarrow> ulong" where
  "no_debt \<equiv> \<lambda>z l. 0"

abbreviation lru_inv :: "'w mm_state \<Rightarrow> bool" where
  "lru_inv \<equiv> lru_inv_upto no_debt"

abbreviation add2 :: "('a \<Rightarrow> 'b \<Rightarrow> 'c::plus) \<Rightarrow> 'a \<Rightarrow> 'b \<Rightarrow> 'c \<Rightarrow> 'a \<Rightarrow> 'b \<Rightarrow> 'c" where
  "add2 C z l d \<equiv> C(z := (C z)(l := C z l + d))"

lemma lru_rep_mem: "lru_rep key L C D \<Longrightarrow> p \<in> set (L z l) \<longleftrightarrow> key p = Some (z, l)"
  by (simp add: lru_rep_def)

lemma lru_rep_distinct: "lru_rep key L C D \<Longrightarrow> distinct (L z l)"
  by (simp add: lru_rep_def)

lemma lru_rep_count: "lru_rep key L C D \<Longrightarrow> C z l = of_nat (length (L z l)) + D z l"
  by (simp add: lru_rep_def)

text \<open>The three moves: a page leaves its list, a page joins a list, a counter is corrected.\<close>

lemma lru_rep_unlink:
  assumes rep: "lru_rep key L C D" and key: "key p = Some (z, l)"
  shows "lru_rep (key(p := None)) (\<lambda>z l. removeAll p (L z l)) C (add2 D z l 1)"
proof -
  have mem: "p \<in> set (L z' l') \<longleftrightarrow> z' = z \<and> l' = l" for z' l'
    using lru_rep_mem [OF rep, of p z' l'] key by auto
  have len: "length (L z l) = Suc (length (removeAll p (L z l)))"
    using length_removeAll_distinct [OF lru_rep_distinct [OF rep, of z l], of p]
      mem [of z l] length_pos_if_in_set [of p "L z l"] by simp
  have count: "C z' l' = of_nat (length (removeAll p (L z' l'))) + add2 D z l 1 z' l'" for z' l'
  proof (cases "z' = z \<and> l' = l")
    case True
    then show ?thesis using lru_rep_count [OF rep, of z l] len by (simp add: add.commute)
  next
    case False
    then have "p \<notin> set (L z' l')" using mem by simp
    then show ?thesis using lru_rep_count [OF rep, of z' l'] False by auto
  qed
  show ?thesis
    unfolding lru_rep_def
    using count lru_rep_distinct [OF rep] lru_rep_mem [OF rep] by (auto simp: distinct_removeAll)
qed

lemma lru_rep_link:
  assumes rep: "lru_rep key L C D" and key: "key p = None"
    and L': "L' = L(z := (L z)(l := xs))"
    and xs: "set xs = insert p (set (L z l))" "distinct xs" "length xs = Suc (length (L z l))"
  shows "lru_rep (key(p := Some (z, l))) L' C (add2 D z l (-1))"
proof -
  have off: "p \<notin> set (L z' l')" for z' l'
    using lru_rep_mem [OF rep, of p z' l'] key by simp
  show ?thesis
    unfolding lru_rep_def L'
    using xs off lru_rep_distinct [OF rep] lru_rep_mem [OF rep] lru_rep_count [OF rep]
    by auto
qed

lemma lru_rep_count_add:
  assumes "lru_rep key L C D"
  shows "lru_rep key L (add2 C z l d) (add2 D z l d)"
  using assms by (auto simp: lru_rep_def)

lemma lru_rep_del:
  assumes "lru_rep key L C D" and "key p = Some (z, l)"
  shows "lru_rep (key(p := None)) (\<lambda>z l. removeAll p (L z l)) (add2 C z l (-1)) D"
  using lru_rep_count_add [OF lru_rep_unlink [OF assms], of z l "-1"]
  by simp

lemma lru_rep_add:
  assumes "lru_rep key L C D" and "key p = None"
  shows "lru_rep (key(p := Some (z, l))) (L(z := (L z)(l := p # L z l))) (add2 C z l 1) D"
proof -
  have "p \<notin> set (L z l)" using assms by (simp add: lru_rep_mem)
  then have "lru_rep (key(p := Some (z, l))) (L(z := (L z)(l := p # L z l))) C (add2 D z l (-1))"
    using assms by (intro lru_rep_link [OF assms refl]) (auto simp: lru_rep_distinct)
  from lru_rep_count_add [OF this, of z l 1] show ?thesis
    by simp
qed


text \<open>What the elementary updates do to each part of the view.\<close>

lemma upd_page_fields [simp]:
  "mem_map (upd_page p f s) = (mem_map s)(p := f (mem_map s p))"
  "node_zones (upd_page p f s) = node_zones s"
  "upd_page p g (upd_page p f s) = upd_page p (\<lambda>pg. g (f pg)) s"
  by (simp_all add: upd_page_def)

lemma upd_zone_fields [simp]:
  "mem_map (upd_zone z g s) = mem_map s"
  "node_zones (upd_zone z g s) = (node_zones s)(z := g (node_zones s z))"
  by (simp_all add: upd_zone_def)

lemma set_flag_fields [simp]:
  "pg_flags (set_flag f pg) = (pg_flags pg)(f := True)"
  "pg_flags (clear_flag f pg) = (pg_flags pg)(f := False)"
  "pg_zonenum (set_flag f pg) = pg_zonenum pg" "pg_zonenum (clear_flag f pg) = pg_zonenum pg"
  "pg_referenced (set_flag f pg) = pg_referenced pg"
  "pg_referenced (clear_flag f pg) = pg_referenced pg"
  "pg_count (set_flag f pg) = pg_count pg" "pg_count (clear_flag f pg) = pg_count pg"
  "pg_mapcount (set_flag f pg) = pg_mapcount pg" "pg_mapcount (clear_flag f pg) = pg_mapcount pg"
  "pg_mapping (set_flag f pg) = pg_mapping pg" "pg_mapping (clear_flag f pg) = pg_mapping pg"
  by (simp_all add: set_flag_def clear_flag_def)

lemma mod_zone_page_state_fields [simp]:
  "mem_map (mod_zone_page_state z i d s) = mem_map s"
  "lists (node_zones (mod_zone_page_state z i d s) z') = zone_lists s z'"
  "vm_stat (node_zones (mod_zone_page_state z i d s) z') j =
     vm_stat (node_zones s z') j + (if z' = z \<and> j = i then d else 0)"
  by (simp_all add: mod_zone_page_state_def upd_zone_def)

lemma count_vm_events_fields [simp]:
  "mem_map (count_vm_events e n s) = mem_map s" "node_zones (count_vm_events e n s) = node_zones s"
  by (simp_all add: count_vm_events_def)

lemma kcall_fields [simp]:
  "mem_map (kcall c s) = mem_map s" "node_zones (kcall c s) = node_zones s"
  by (simp_all add: kcall_def)

lemma lru_link_fields [simp]:
  "mem_map (lru_unlink p s) = mem_map s" "mem_map (lru_link z p l s) = mem_map s"
  "mem_map (lru_link_tail z p l s) = mem_map s"
  "vm_stat (node_zones (lru_unlink p s) z') = vm_stat (node_zones s z')"
  "vm_stat (node_zones (lru_link z p l s) z') = vm_stat (node_zones s z')"
  "vm_stat (node_zones (lru_link_tail z p l s) z') = vm_stat (node_zones s z')"
  "zone_lists (lru_unlink p s) z' = (\<lambda>l. removeAll p (zone_lists s z' l))"
  "zone_lists (lru_link z p l s) z' =
     (if z' = z then (zone_lists s z)(l := p # zone_lists s z l) else zone_lists s z')"
  "zone_lists (lru_link_tail z p l s) z' =
     (if z' = z then (zone_lists s z)(l := zone_lists s z l @ [p]) else zone_lists s z')"
  by (simp_all add: lru_unlink_def lru_link_def lru_link_tail_def upd_zone_def)

lemma add_del_mem_map [simp]:
  "mem_map (add_page_to_lru_list z p l s) = mem_map s"
  "mem_map (del_page_from_lru_list z p l s) = mem_map s"
  "mem_map (lru_move z p l s) = mem_map s"
  "mem_map (lru_move_tail z p l s) = mem_map s"
  by (simp_all add: add_page_to_lru_list_def del_page_from_lru_list_def lru_move_def lru_move_tail_def)

text \<open>The invariant reads the view only.\<close>

lemma lru_inv_cong:
  assumes "\<And>q. lru_place (mem_map s' q) = lru_place (mem_map s q)"
    and "\<And>z. lists (node_zones s' z) = lists (node_zones s z)"
    and "\<And>z l. vm_stat (node_zones s' z) (nr_lru l) = vm_stat (node_zones s z) (nr_lru l)"
  shows "lru_inv_upto D s' \<longleftrightarrow> lru_inv_upto D s"
proof -
  have "lru_key s' = lru_key s" "zone_lists s' = zone_lists s" "lru_count s' = lru_count s"
    using assms by (simp_all add: lru_key_def lru_count_def zone_page_state_def fun_eq_iff)
  then show ?thesis by (simp add: lru_inv_upto_def)
qed

lemma lru_inv_frame [simp]:
  "lru_inv_upto D (count_vm_events e n s) = lru_inv_upto D s"
  "lru_inv_upto D (kcall c s) = lru_inv_upto D s"
  "lru_inv_upto D (mod_zone_page_state z (nr_isolated file) d s) = lru_inv_upto D s"
  by (rule lru_inv_cong; simp)+

lemma lru_inv_upd_page:
  assumes "lru_place (f (mem_map s p)) = lru_place (mem_map s p)"
  shows "lru_inv_upto D (upd_page p f s) = lru_inv_upto D s"
  by (rule lru_inv_cong) (simp_all add: assms)

lemma lru_inv_upd_zone:
  assumes "\<And>zn. lists (g zn) = lists zn" "\<And>zn. vm_stat (g zn) = vm_stat zn"
  shows "lru_inv_upto D (upd_zone z g s) = lru_inv_upto D s"
  by (rule lru_inv_cong) (simp_all add: assms)

lemma lru_inv_memD:
  "lru_inv_upto D s \<Longrightarrow> p \<in> set (zone_lists s z l) \<longleftrightarrow> lru_place (mem_map s p) = Some (z, l)"
  by (simp add: lru_inv_upto_def lru_rep_def lru_key_def)

lemma lru_inv_distinctD: "lru_inv_upto D s \<Longrightarrow> distinct (zone_lists s z l)"
  by (simp add: lru_inv_upto_def lru_rep_def)

lemma lru_inv_countD:
  "lru_inv_upto D s \<Longrightarrow>
     vm_stat (node_zones s z) (nr_lru l) = of_nat (length (zone_lists s z l)) + D z l"
  by (simp add: lru_inv_upto_def lru_rep_def lru_count_def zone_page_state_def)

text \<open>The moves on states: a page leaves the LRU, joins it, or changes its place on it.\<close>

lemma lru_inv_unlink:
  assumes inv: "lru_inv_upto D s" and place: "lru_place (mem_map s p) = Some (z, l)"
    and f: "lru_place (f (mem_map s p)) = None"
  shows "lru_inv_upto (add2 D z l 1) (lru_unlink p (upd_page p f s))"
proof -
  have "lru_key (lru_unlink p (upd_page p f s)) = (lru_key s)(p := None)"
    and "zone_lists (lru_unlink p (upd_page p f s)) = (\<lambda>z l. removeAll p (zone_lists s z l))"
    and "lru_count (lru_unlink p (upd_page p f s)) = lru_count s"
    by (auto simp: lru_key_def f lru_count_def zone_page_state_def fun_eq_iff)
  then show ?thesis
    using lru_rep_unlink [of "lru_key s" "zone_lists s" "lru_count s" D p z l] inv place
    by (simp add: lru_inv_upto_def lru_key_def)
qed

lemma lru_inv_count:
  assumes "lru_inv_upto D s"
  shows "lru_inv_upto (add2 D z l d) (mod_zone_page_state z (nr_lru l) d s)"
proof -
  have "lru_key (mod_zone_page_state z (nr_lru l) d s) = lru_key s"
    and "zone_lists (mod_zone_page_state z (nr_lru l) d s) = zone_lists s"
    and "lru_count (mod_zone_page_state z (nr_lru l) d s) = add2 (lru_count s) z l d"
    by (auto simp: lru_key_def lru_count_def zone_page_state_def fun_eq_iff)
  then show ?thesis
    using lru_rep_count_add assms by (simp add: lru_inv_upto_def)
qed

lemma lru_inv_link:
  assumes inv: "lru_inv_upto D s" and place: "lru_place (mem_map s p) = None"
    and f: "lru_place (f (mem_map s p)) = Some (z, l)"
  shows "lru_inv_upto (add2 D z l (-1)) (lru_link z p l (upd_page p f s))" (is ?head)
    and "lru_inv_upto (add2 D z l (-1)) (lru_link_tail z p l (upd_page p f s))" (is ?tail)
proof -
  have key: "lru_key (lru_link z p l (upd_page p f s)) = (lru_key s)(p := Some (z, l))"
    "lru_key (lru_link_tail z p l (upd_page p f s)) = (lru_key s)(p := Some (z, l))"
    and ls: "zone_lists (lru_link z p l (upd_page p f s)) =
      (zone_lists s)(z := (zone_lists s z)(l := p # zone_lists s z l))"
    "zone_lists (lru_link_tail z p l (upd_page p f s)) =
      (zone_lists s)(z := (zone_lists s z)(l := zone_lists s z l @ [p]))"
    and cnt: "lru_count (lru_link z p l (upd_page p f s)) = lru_count s"
    "lru_count (lru_link_tail z p l (upd_page p f s)) = lru_count s"
    by (auto simp: lru_key_def f lru_count_def zone_page_state_def fun_eq_iff)
  have p: "p \<notin> set (zone_lists s z l)" "distinct (zone_lists s z l)"
    using inv place by (simp_all add: lru_inv_memD lru_inv_distinctD)
  have rep: "lru_rep (lru_key s) (zone_lists s) (lru_count s) D" "lru_key s p = None"
    using inv place by (simp_all add: lru_inv_upto_def lru_key_def)
  show ?head ?tail
    unfolding lru_inv_upto_def key ls cnt
    by (rule lru_rep_link [OF rep refl]; use p in simp)+
qed

lemma add2_cancel [simp]: "add2 (add2 D z l a) z l b = add2 D z l (a + b :: ulong)"
  by (simp add: add.assoc)

lemma lru_inv_relink:
  assumes inv: "lru_inv_upto D s" and place: "lru_place (mem_map s p) = Some (z, l)"
    and f: "lru_place (f (mem_map s p)) = Some (z', l')"
  shows "lru_inv_upto (add2 (add2 D z l 1) z' l' (-1)) (lru_link z' p l' (upd_page p f (lru_unlink p s)))"
      (is ?head)
    and "lru_inv_upto (add2 (add2 D z l 1) z' l' (-1))
           (lru_link_tail z' p l' (upd_page p f (lru_unlink p s)))" (is ?tail)
proof -
  let ?s = "lru_unlink p (upd_page p (clear_flag PG_lru) s)"
  have eq: "upd_page p f (lru_unlink p s) = upd_page p (\<lambda>_. f (mem_map s p)) ?s"
    by (simp add: upd_page_def lru_unlink_def)
  have "lru_inv_upto (add2 D z l 1) ?s"
    by (rule lru_inv_unlink [OF inv place]) (simp add: lru_place_def)
  moreover have "lru_place (mem_map ?s p) = None"
    by (simp add: lru_place_def)
  ultimately show ?head ?tail
    unfolding eq by (rule lru_inv_link; simp add: f)+
qed

lemma lru_inv_del:
  assumes "lru_inv_upto D s" and "lru_place (mem_map s p) = Some (z, l)"
    and "lru_place (f (mem_map s p)) = None"
  shows "lru_inv_upto D (del_page_from_lru_list z p l (upd_page p f s))"
  using lru_inv_count [OF lru_inv_unlink [where f = f, OF assms], of z l "-1"]
  by (simp add: del_page_from_lru_list_def)

lemma lru_inv_add:
  assumes "lru_inv_upto D s" and "lru_place (mem_map s p) = None"
    and "lru_place (f (mem_map s p)) = Some (z, l)"
  shows "lru_inv_upto D (add_page_to_lru_list z p l (upd_page p f s))"
  using lru_inv_count [OF lru_inv_link(1) [where f = f, OF assms], of z l 1]
  by (simp add: add_page_to_lru_list_def)

lemma lru_inv_relist:
  assumes inv: "lru_inv_upto D s" and place: "lru_place (mem_map s p) = Some (z, l)"
    and f: "lru_place (f (mem_map s p)) = Some (z', l')"
  shows "lru_inv_upto D
           (add_page_to_lru_list z' p l' (upd_page p f (del_page_from_lru_list z p l s)))"
proof -
  let ?s = "del_page_from_lru_list z p l (upd_page p (clear_flag PG_lru) s)"
  have "upd_page p f (del_page_from_lru_list z p l s) = upd_page p (\<lambda>_. f (mem_map s p)) ?s"
    by (simp add: upd_page_def del_page_from_lru_list_def lru_unlink_def mod_zone_page_state_def
        upd_zone_def)
  moreover have "lru_inv_upto D ?s"
    by (rule lru_inv_del [OF inv place]) (simp add: lru_place_def)
  moreover have "lru_place (mem_map ?s p) = None"
    by (simp add: lru_place_def)
  ultimately show ?thesis
    by (simp add: lru_inv_add f)
qed

lemma upd_page_id [simp]: "upd_page p (\<lambda>pg. pg) s = s"
  by (simp add: upd_page_def)

lemma lru_inv_move:
  assumes "lru_inv_upto D s" and "lru_place (mem_map s p) = Some (z, l)"
  shows "lru_inv_upto D (lru_move z p l s)" "lru_inv_upto D (lru_move_tail z p l s)"
  using lru_inv_relink [OF assms, of "\<lambda>pg. pg" z l] assms(2)
  by (simp_all add: lru_move_def lru_move_tail_def)


section \<open>Safe steps\<close>

text \<open>
  Most operations only ever move or free pages that are on the LRU. \<open>lru_safe s s'\<close> collects what their
  callers rely on: the invariant is kept, pages off the LRU keep their flags (so a page isolated on a
  private list, or waiting in a pagevec, stays as it is), no page changes zones, and the pagevecs are
  not touched. \<open>lru_safe_but A\<close> exempts the pages of \<open>A\<close>. Safe steps compose.
\<close>

definition pvecs_kept :: "'w mm_state \<Rightarrow> 'w mm_state \<Rightarrow> bool" where
  "pvecs_kept s s' \<longleftrightarrow>
     lru_add_pvecs s' = lru_add_pvecs s \<and> lru_rotate_pvecs s' = lru_rotate_pvecs s \<and>
     lru_deactivate_pvecs s' = lru_deactivate_pvecs s"

definition lru_safe_but :: "nat set \<Rightarrow> 'w mm_state \<Rightarrow> 'w mm_state \<Rightarrow> bool" where
  "lru_safe_but A s s' \<longleftrightarrow>
     (\<forall>D. lru_inv_upto D s \<longrightarrow> lru_inv_upto D s') \<and>
     (\<forall>q. q \<notin> A \<longrightarrow> \<not> PageLRU s q \<longrightarrow> pg_flags (mem_map s' q) = pg_flags (mem_map s q)) \<and>
     (\<forall>q. pg_zonenum (mem_map s' q) = pg_zonenum (mem_map s q)) \<and>
     pvecs_kept s s'"

abbreviation lru_safe :: "'w mm_state \<Rightarrow> 'w mm_state \<Rightarrow> bool" where
  "lru_safe \<equiv> lru_safe_but {}"

lemma lru_safe_refl [simp, intro]: "lru_safe_but A s s"
  by (simp add: lru_safe_but_def pvecs_kept_def)

lemma lru_safe_but_trans:
  assumes "lru_safe_but A s s'" "lru_safe_but B s' s''"
  shows "lru_safe_but (A \<union> B) s s''"
  unfolding lru_safe_but_def
proof (intro conjI allI impI)
  show "lru_inv_upto D s''" if "lru_inv_upto D s" for D
    using assms that unfolding lru_safe_but_def by blast
  show "pg_flags (mem_map s'' q) = pg_flags (mem_map s q)" if "q \<notin> A \<union> B" "\<not> PageLRU s q" for q
    using assms that unfolding lru_safe_but_def PageFlag_def by (metis UnCI)
qed (use assms in \<open>simp_all add: lru_safe_but_def pvecs_kept_def\<close>)

lemma lru_safe_trans [trans]: "lru_safe s s' \<Longrightarrow> lru_safe s' s'' \<Longrightarrow> lru_safe s s''"
  using lru_safe_but_trans [of "{}" s s' "{}" s''] by simp

lemma lru_safe_but_mono: "lru_safe_but A s s' \<Longrightarrow> A \<subseteq> B \<Longrightarrow> lru_safe_but B s s'"
  unfolding lru_safe_but_def by blast

lemma lru_safe_inv: "lru_safe_but A s s' \<Longrightarrow> lru_inv_upto D s \<Longrightarrow> lru_inv_upto D s'"
  by (simp add: lru_safe_but_def)

lemma lru_safe_flags:
  "lru_safe_but A s s' \<Longrightarrow> q \<notin> A \<Longrightarrow> \<not> pg_flags (mem_map s q) PG_lru \<Longrightarrow>
     pg_flags (mem_map s' q) = pg_flags (mem_map s q)"
  by (simp add: lru_safe_but_def PageFlag_def)

lemma lru_safe_zonenum:
  "lru_safe_but A s s' \<Longrightarrow> pg_zonenum (mem_map s' q) = pg_zonenum (mem_map s q)"
  by (simp add: lru_safe_but_def)

lemma lru_safe_fold:
  assumes "\<And>x s. lru_safe s (f x s)"
  shows "lru_safe s (fold f xs s)"
proof (induction xs arbitrary: s)
  case (Cons x xs)
  show ?case using lru_safe_trans [OF assms Cons.IH] by simp
qed simp

text \<open>Elementary safe steps: bookkeeping, and updates of a page that leave its flags alone.\<close>

lemma pvecs_kept_elementary [simp]:
  "pvecs_kept s (upd_page p f s)" "pvecs_kept s (upd_zone z g s)"
  "pvecs_kept s (count_vm_events e n s)" "pvecs_kept s (kcall c s)"
  "pvecs_kept s (mod_zone_page_state z i d s)" "pvecs_kept s (lru_unlink p s)"
  by (simp_all add: pvecs_kept_def upd_page_def upd_zone_def count_vm_events_def kcall_def
      mod_zone_page_state_def lru_unlink_def)

lemma lru_safe_bookkeeping [intro]:
  "lru_safe s (count_vm_events e n s)" "lru_safe s (kcall c s)"
  "lru_safe s (mod_zone_page_state z (nr_isolated file) d s)"
  by (simp_all add: lru_safe_but_def)

lemma page_lru_cong:
  "pg_flags pg' = pg_flags pg \<Longrightarrow> page_lru pg' = page_lru pg"
  by (simp add: page_lru_def page_lru_base_type_def page_is_file_cache_def)

lemma lru_safe_upd_zone:
  assumes "\<And>zn. lists (g zn) = lists zn" "\<And>zn. vm_stat (g zn) = vm_stat zn"
  shows "lru_safe s (upd_zone z g s)"
  unfolding lru_safe_but_def
  by (simp add: lru_inv_upd_zone assms)

lemma lru_safe_upd_page:
  assumes "pg_flags (f (mem_map s p)) = pg_flags (mem_map s p)"
    and "pg_zonenum (f (mem_map s p)) = pg_zonenum (mem_map s p)"
  shows "lru_safe s (upd_page p f s)"
proof -
  have "lru_place (f (mem_map s p)) = lru_place (mem_map s p)"
    using assms page_lru_cong [OF assms(1)] by (simp add: lru_place_def)
  then show ?thesis
    unfolding lru_safe_but_def
    by (simp add: lru_inv_upd_page assms)
qed

lemma lru_safe_add_count [intro]: "lru_safe s (add_count d p s)"
  unfolding add_count_def by (rule lru_safe_upd_page) simp_all
end
