(* ===== verification/Mm_Swap.thy ===== *)
theory Mm_Swap
  imports Mm_Lru
begin

text \<open>
  \<^verbatim>\<open>mm/swap.c\<close>: releasing pages, and adding, activating, deactivating and rotating pages on the LRU
  lists, most of it through the per-processor pagevecs. A leading \<^verbatim>\<open>__\<close> of a C name is written
  \<open>raw_\<close>. The pagevec argument of a C function that empties it is returned by the definition.
\<close>

section \<open>Dropping references\<close>

definition log_free_hot_cold_page_list :: "nat list \<Rightarrow> bool \<Rightarrow> 'w mm_state \<Rightarrow> 'w mm_state" where
  "log_free_hot_cold_page_list ps cold s = fold (\<lambda>p. kcall (Free_hot_cold_page p cold)) ps s"

definition lru_release :: "nat \<Rightarrow> 'w mm_state \<Rightarrow> 'w mm_state" where
  "lru_release p s =
     (let z = page_zone s p;
          s = ClearPage PG_lru p s;
          (lru, s) = page_off_lru p s
      in del_page_from_lru_list z p lru s)"

definition raw_page_cache_release :: "nat \<Rightarrow> 'w mm_state \<Rightarrow> 'w mm_state" where
  "raw_page_cache_release p s = (if PageLRU s p then lru_release p s else s)"

definition raw_put_single_page :: "nat \<Rightarrow> 'w mm_state \<Rightarrow> 'w mm_state" where
  "raw_put_single_page p s = kcall (Free_hot_cold_page p False) (raw_page_cache_release p s)"

definition raw_put_compound_page :: "nat \<Rightarrow> 'w mm_state \<Rightarrow> 'w mm_state" where
  "raw_put_compound_page p s = kcall (Compound_page_dtor p) (raw_page_cache_release p s)"

definition out_put_single :: "nat \<Rightarrow> 'w mm_state \<Rightarrow> 'w mm_state" where
  "out_put_single p s =
     (let (zero, s) = put_page_testzero p s in if zero then raw_put_single_page p s else s)"

definition put_head_page :: "nat \<Rightarrow> 'w mm_state \<Rightarrow> 'w mm_state" where
  "put_head_page p s =
     (let (zero, s) = put_page_testzero p s
      in if zero then (if PageHead s p then raw_put_compound_page p s else raw_put_single_page p s)
         else s)"

definition add_mapcount :: "int \<Rightarrow> nat \<Rightarrow> 'w mm_state \<Rightarrow> 'w mm_state" where
  "add_mapcount d p = upd_page p (\<lambda>pg. pg\<lparr>pg_mapcount := pg_mapcount pg + d\<rparr>)"

definition put_compound_page :: "nat \<Rightarrow> 'w mm_state \<Rightarrow> 'w mm_state" where
  "put_compound_page p s =
     (if PageTail s p then
        let page_head = compound_head s p;
            (got, s) = (if p \<noteq> page_head then get_page_unless_zero page_head s else (False, s))
        in if got then
             if \<not> PageTail s p then
               let (zero, s) = put_page_testzero page_head s;
                   s = (if zero then raw_put_single_page page_head s else s)
               in out_put_single p s
             else
               let (_, s) = put_page_testzero page_head s;
                   s = add_mapcount (-1) p s
               in put_head_page page_head s
           else out_put_single p s
      else put_head_page p s)"

definition put_page :: "nat \<Rightarrow> 'w mm_state \<Rightarrow> 'w mm_state" where
  "put_page p s = (if PageCompound s p then put_compound_page p s else out_put_single p s)"

definition raw_get_page_tail :: "nat \<Rightarrow> 'w mm_state \<Rightarrow> bool \<times> 'w mm_state" where
  "raw_get_page_tail p s =
     (let page_head = compound_head s p;
          (ref, s) = (if p \<noteq> page_head then get_page_unless_zero page_head s else (False, s))
      in if ref then
           if PageTail s p then (True, add_mapcount 1 p s) else (False, put_page page_head s)
         else (False, s))"

definition get_page :: "nat \<Rightarrow> 'w mm_state \<Rightarrow> 'w mm_state" where
  "get_page p s =
     (let (got, s) = (if PageTail s p then raw_get_page_tail p s else (False, s))
      in if got then s else add_count 1 p s)"

text \<open>The list is taken from its tail, as \<^verbatim>\<open>list_entry(pages->prev, ...)\<close> does.\<close>

definition put_pages_list :: "nat list \<Rightarrow> 'w mm_state \<Rightarrow> 'w mm_state" where
  "put_pages_list pages s = fold put_page (rev pages) s"

primrec release_pages_loop ::
    "nat list \<Rightarrow> nat list \<Rightarrow> 'w mm_state \<Rightarrow> nat list \<times> 'w mm_state" where
  "release_pages_loop [] pages_to_free s = (pages_to_free, s)"
| "release_pages_loop (p # ps) pages_to_free s =
     (if PageCompound s p then release_pages_loop ps pages_to_free (put_compound_page p s)
      else let (zero, s) = put_page_testzero p s
           in if \<not> zero then release_pages_loop ps pages_to_free s
              else let s = (if PageLRU s p then lru_release p s else s)
                   in release_pages_loop ps (p # pages_to_free) s)"

definition release_pages :: "nat list \<Rightarrow> bool \<Rightarrow> 'w mm_state \<Rightarrow> 'w mm_state" where
  "release_pages pages cold s =
     (let (pages_to_free, s) = release_pages_loop pages [] s
      in log_free_hot_cold_page_list pages_to_free cold s)"


section \<open>Pagevecs of pages to move\<close>

primrec pagevec_move_loop ::
    "(nat \<Rightarrow> 'a \<Rightarrow> 'w mm_state \<Rightarrow> 'a \<times> 'w mm_state) \<Rightarrow> nat list \<Rightarrow> 'a \<Rightarrow> 'w mm_state \<Rightarrow>
     'a \<times> 'w mm_state" where
  "pagevec_move_loop move_fn [] arg s = (arg, s)"
| "pagevec_move_loop move_fn (p # ps) arg s =
     (let (arg, s) = move_fn p arg s in pagevec_move_loop move_fn ps arg s)"

definition pagevec_lru_move_fn ::
    "pagevec \<Rightarrow> (nat \<Rightarrow> 'a \<Rightarrow> 'w mm_state \<Rightarrow> 'a \<times> 'w mm_state) \<Rightarrow> 'a \<Rightarrow> 'w mm_state \<Rightarrow>
     pagevec \<times> 'a \<times> 'w mm_state" where
  "pagevec_lru_move_fn pvec move_fn arg s =
     (let (arg, s) = pagevec_move_loop move_fn (pv_pages pvec) arg s;
          s = release_pages (pv_pages pvec) (pv_cold pvec) s
      in (pagevec_reinit pvec, arg, s))"

definition pagevec_move_tail_fn :: "nat \<Rightarrow> ulong \<Rightarrow> 'w mm_state \<Rightarrow> ulong \<times> 'w mm_state" where
  "pagevec_move_tail_fn p pgmoved s =
     (if PageLRU s p \<and> \<not> PageActive s p \<and> \<not> PageUnevictable s p then
        let lru = page_lru_base_type (mem_map s p)
        in (pgmoved + 1, lru_move_tail (page_zone s p) p lru s)
      else (pgmoved, s))"

definition pagevec_move_tail :: "pagevec \<Rightarrow> 'w mm_state \<Rightarrow> pagevec \<times> 'w mm_state" where
  "pagevec_move_tail pvec s =
     (let (pvec, pgmoved, s) = pagevec_lru_move_fn pvec pagevec_move_tail_fn 0 s
      in (pvec, count_vm_events PGROTATED pgmoved s))"

definition rotate_reclaimable_page :: "nat \<Rightarrow> 'w mm_state \<Rightarrow> 'w mm_state" where
  "rotate_reclaimable_page p s =
     (if \<not> PageLocked s p \<and> \<not> PageDirty s p \<and> \<not> PageActive s p \<and> \<not> PageUnevictable s p \<and>
         PageLRU s p then
        let s = get_page p s;
            (space, pvec) = pagevec_add (lru_rotate_pvecs s) p;
            (pvec, s) = (if space = 0 then pagevec_move_tail pvec s else (pvec, s))
        in s\<lparr>lru_rotate_pvecs := pvec\<rparr>
      else s)"

definition update_page_reclaim_stat :: "nat \<Rightarrow> bool \<Rightarrow> bool \<Rightarrow> 'w mm_state \<Rightarrow> 'w mm_state" where
  "update_page_reclaim_stat z file rotated =
     upd_zone z (\<lambda>zn. zn\<lparr>
       recent_scanned := (recent_scanned zn)(file := recent_scanned zn file + 1),
       recent_rotated := (if rotated
                          then (recent_rotated zn)(file := recent_rotated zn file + 1)
                          else recent_rotated zn)\<rparr>)"

definition raw_activate_page :: "nat \<Rightarrow> 'w mm_state \<Rightarrow> 'w mm_state" where
  "raw_activate_page p s =
     (let z = page_zone s p
      in if PageLRU s p \<and> \<not> PageActive s p \<and> \<not> PageUnevictable s p then
           let file = page_is_file_cache (mem_map s p);
               lru = page_lru_base_type (mem_map s p);
               s = del_page_from_lru_list z p lru s;
               s = SetPage PG_active p s;
               s = add_page_to_lru_list z p (lru_plus lru LRU_ACTIVE) s;
               s = count_vm_events PGACTIVATE 1 s
           in update_page_reclaim_stat z file True s
         else s)"

definition activate_page :: "nat \<Rightarrow> 'w mm_state \<Rightarrow> 'w mm_state" where
  "activate_page p s = raw_activate_page p s"

definition mark_page_accessed :: "nat \<Rightarrow> 'w mm_state \<Rightarrow> 'w mm_state" where
  "mark_page_accessed p s =
     (let s = (if \<not> PageActive s p \<and> \<not> PageUnevictable s p \<and> PageLRU s p
               then activate_page p s else s)
      in upd_page p (\<lambda>pg. pg\<lparr>pg_referenced := 0\<rparr>) s)"

definition lru_deactivate_fn :: "nat \<Rightarrow> unit \<Rightarrow> 'w mm_state \<Rightarrow> unit \<times> 'w mm_state" where
  "lru_deactivate_fn p arg s =
     (let z = page_zone s p
      in if \<not> PageLRU s p then (arg, s)
         else if PageUnevictable s p then (arg, s)
         else if page_mapped s p then (arg, s)
         else
           let active = PageActive s p;
               file = page_is_file_cache (mem_map s p);
               lru = page_lru_base_type (mem_map s p);
               s = del_page_from_lru_list z p (lru_plus lru (of_bool active)) s;
               s = ClearPage PG_active p s;
               s = add_page_to_lru_list z p lru s;
               s = (if PageWriteback s p \<or> PageDirty s p then SetPage PG_reclaim p s
                    else count_vm_events PGROTATED 1 (lru_move_tail z p lru s));
               s = (if active then count_vm_events PGDEACTIVATE 1 s else s)
           in (arg, update_page_reclaim_stat z file False s))"


section \<open>Adding pages\<close>

definition raw_pagevec_lru_add_fn :: "nat \<Rightarrow> lru_list \<Rightarrow> 'w mm_state \<Rightarrow> lru_list \<times> 'w mm_state" where
  "raw_pagevec_lru_add_fn p lru s =
     (let z = page_zone s p;
          file = is_file_lru lru;
          active = is_active_lru lru;
          s = SetPage PG_lru p s;
          s = (if active then SetPage PG_active p s else s);
          s = add_page_to_lru_list z p lru s
      in (lru, update_page_reclaim_stat z file active s))"

definition raw_pagevec_lru_add :: "pagevec \<Rightarrow> lru_list \<Rightarrow> 'w mm_state \<Rightarrow> pagevec \<times> 'w mm_state" where
  "raw_pagevec_lru_add pvec lru s =
     (let (pvec, _, s) = pagevec_lru_move_fn pvec raw_pagevec_lru_add_fn lru s in (pvec, s))"

definition raw_lru_cache_add :: "nat \<Rightarrow> lru_list \<Rightarrow> 'w mm_state \<Rightarrow> 'w mm_state" where
  "raw_lru_cache_add p lru s =
     (let s = get_page p s;
          (space, pvec) = pagevec_add (lru_add_pvecs s lru) p;
          (pvec, s) = (if space = 0 then raw_pagevec_lru_add pvec lru s else (pvec, s))
      in s\<lparr>lru_add_pvecs := (lru_add_pvecs s)(lru := pvec)\<rparr>)"

definition lru_cache_add_lru :: "nat \<Rightarrow> lru_list \<Rightarrow> 'w mm_state \<Rightarrow> 'w mm_state" where
  "lru_cache_add_lru p lru s =
     (let s = (if PageActive s p then ClearPage PG_active p s
               else if PageUnevictable s p then ClearPage PG_unevictable p s else s)
      in raw_lru_cache_add p lru s)"

definition add_page_to_unevictable_list :: "nat \<Rightarrow> 'w mm_state \<Rightarrow> 'w mm_state" where
  "add_page_to_unevictable_list p s =
     (let z = page_zone s p;
          s = SetPage PG_unevictable p s;
          s = SetPage PG_lru p s
      in add_page_to_lru_list z p LRU_UNEVICTABLE s)"


section \<open>Draining\<close>

definition lru_add_drain_one :: "lru_list \<Rightarrow> 'w mm_state \<Rightarrow> 'w mm_state" where
  "lru_add_drain_one lru s =
     (if pagevec_count (lru_add_pvecs s lru) \<noteq> 0 then
        let (pvec, s) = raw_pagevec_lru_add (lru_add_pvecs s lru) lru s
        in s\<lparr>lru_add_pvecs := (lru_add_pvecs s)(lru := pvec)\<rparr>
      else s)"

definition lru_add_drain_cpu :: "'w mm_state \<Rightarrow> 'w mm_state" where
  "lru_add_drain_cpu s =
     (let s = fold lru_add_drain_one all_lrus s;
          s = (if pagevec_count (lru_rotate_pvecs s) \<noteq> 0 then
                 let (pvec, s) = pagevec_move_tail (lru_rotate_pvecs s) s
                 in s\<lparr>lru_rotate_pvecs := pvec\<rparr>
               else s)
      in if pagevec_count (lru_deactivate_pvecs s) \<noteq> 0 then
           let (pvec, _, s) = pagevec_lru_move_fn (lru_deactivate_pvecs s) lru_deactivate_fn () s
           in s\<lparr>lru_deactivate_pvecs := pvec\<rparr>
         else s)"

definition lru_add_drain :: "'w mm_state \<Rightarrow> 'w mm_state" where
  "lru_add_drain s = lru_add_drain_cpu s"

definition lru_add_drain_all :: "'w mm_state \<Rightarrow> 'w mm_state" where
  "lru_add_drain_all s = lru_add_drain s"

definition deactivate_page :: "nat \<Rightarrow> 'w mm_state \<Rightarrow> 'w mm_state" where
  "deactivate_page p s =
     (if PageUnevictable s p then s
      else let (got, s) = get_page_unless_zero p s
           in if got then
                let (space, pvec) = pagevec_add (lru_deactivate_pvecs s) p;
                    (pvec, s) = (if space = 0 then
                                   let (pvec, _, s) = pagevec_lru_move_fn pvec lru_deactivate_fn () s
                                   in (pvec, s)
                                 else (pvec, s))
                in s\<lparr>lru_deactivate_pvecs := pvec\<rparr>
              else s)"

definition raw_pagevec_release :: "pagevec \<Rightarrow> 'w mm_state \<Rightarrow> pagevec \<times> 'w mm_state" where
  "raw_pagevec_release pvec s =
     (let s = lru_add_drain s;
          s = release_pages (pv_pages pvec) (pv_cold pvec) s
      in (pagevec_reinit pvec, s))"

definition pagevec_release :: "pagevec \<Rightarrow> 'w mm_state \<Rightarrow> pagevec \<times> 'w mm_state" where
  "pagevec_release pvec s =
     (if pagevec_count pvec \<noteq> 0 then raw_pagevec_release pvec s else (pvec, s))"

text \<open>
  \<^verbatim>\<open>swap_setup\<close> chooses the cluster size from \<^verbatim>\<open>totalram_pages\<close>; \<^verbatim>\<open>PAGE_SHIFT\<close> is 12.
\<close>

definition swap_setup :: "ulong \<Rightarrow> int" where
  "swap_setup totalram_pages = (let megs = drop_bit (20 - 12) totalram_pages in if megs < 16 then 2 else 3)"


section \<open>Releasing pages is safe\<close>

lemma pvecs_kept_lru [simp]:
  "pvecs_kept s (add_page_to_lru_list z p l t) = pvecs_kept s t"
  "pvecs_kept s (del_page_from_lru_list z p l t) = pvecs_kept s t"
  "pvecs_kept s (lru_move z p l t) = pvecs_kept s t"
  "pvecs_kept s (lru_move_tail z p l t) = pvecs_kept s t"
  "pvecs_kept s (upd_page p f t) = pvecs_kept s t"
  by (simp_all add: pvecs_kept_def add_page_to_lru_list_def del_page_from_lru_list_def lru_move_def
      lru_move_tail_def lru_link_def lru_link_tail_def lru_unlink_def mod_zone_page_state_def
      upd_zone_def upd_page_def)

lemma pvecs_kept_refl [simp]: "pvecs_kept s s"
  by (simp add: pvecs_kept_def)

definition off_lru_flags :: "page \<Rightarrow> page" where
  "off_lru_flags pg =
     (if pg_flags pg PG_unevictable then clear_flag PG_unevictable pg
      else if pg_flags pg PG_active then clear_flag PG_active pg else pg)"

lemma page_off_lru_eq:
  "page_off_lru p s = (page_lru (mem_map s p), upd_page p off_lru_flags s)"
  by (simp add: page_off_lru_def page_lru_def off_lru_flags_def Let_def PageFlag_def ClearPage_def
      upd_page_def)

lemma page_lru_clear_lru [simp]: "page_lru (clear_flag PG_lru pg) = page_lru pg"
  by (simp add: page_lru_def page_lru_base_type_def page_is_file_cache_def)

lemma off_lru_flags_fields [simp]:
  "pg_zonenum (off_lru_flags pg) = pg_zonenum pg" "pg_count (off_lru_flags pg) = pg_count pg"
  "pg_flags (off_lru_flags pg) PG_lru = pg_flags pg PG_lru"
  by (simp_all add: off_lru_flags_def)

lemma lru_release_eq:
  "lru_release p s =
     del_page_from_lru_list (pg_zonenum (mem_map s p)) p (page_lru (mem_map s p))
       (upd_page p (\<lambda>pg. off_lru_flags (clear_flag PG_lru pg)) s)"
  by (simp add: lru_release_def page_off_lru_eq ClearPage_def page_zone_def)

lemma lru_safe_on_lru:
  assumes p: "PageLRU s p" and zn: "\<And>q. pg_zonenum (mem_map s' q) = pg_zonenum (mem_map s q)"
    and frame: "\<And>q. q \<noteq> p \<Longrightarrow> pg_flags (mem_map s' q) = pg_flags (mem_map s q)"
    and pv: "pvecs_kept s s'"
    and inv: "\<And>D. lru_inv_upto D s \<Longrightarrow> lru_inv_upto D s'"
  shows "lru_safe s s'"
  unfolding lru_safe_but_def
proof (intro conjI allI impI)
  show "pg_flags (mem_map s' q) = pg_flags (mem_map s q)" if "\<not> PageLRU s q" for q
    using frame [of q] p that by blast
qed (use zn pv inv in simp_all)

lemma lru_safe_lru_release: "PageLRU s p \<Longrightarrow> lru_safe s (lru_release p s)"
  unfolding lru_release_eq
  by (rule lru_safe_on_lru, assumption)
     (auto intro!: lru_inv_del simp: lru_place_def PageFlag_def)

lemma lru_safe_raw_page_cache_release [intro]: "lru_safe s (raw_page_cache_release p s)"
  by (simp add: raw_page_cache_release_def lru_safe_lru_release)

lemma lru_safe_put [intro]:
  "lru_safe s (raw_put_single_page p s)" "lru_safe s (raw_put_compound_page p s)"
  unfolding raw_put_single_page_def raw_put_compound_page_def
  by (blast intro: lru_safe_trans)+

lemma lru_safe_counts [intro]:
  "lru_safe s (snd (put_page_testzero p s))" "lru_safe s (snd (get_page_unless_zero p s))"
  "lru_safe s (add_mapcount d p s)"
  by (auto simp: put_page_testzero_def get_page_unless_zero_def add_mapcount_def Let_def
      intro!: lru_safe_upd_page)

lemma lru_safe_out_put_single [intro]: "lru_safe s (out_put_single p s)"
  using lru_safe_counts(1) [of s p] lru_safe_trans [OF lru_safe_counts(1) lru_safe_put(1)]
  by (auto simp: out_put_single_def split_beta Let_def)

lemma lru_safe_put_head_page [intro]: "lru_safe s (put_head_page p s)"
  using lru_safe_counts(1) [of s p] lru_safe_trans [OF lru_safe_counts(1) lru_safe_put(1)]
    lru_safe_trans [OF lru_safe_counts(1) lru_safe_put(2)]
  by (auto simp: put_head_page_def split_beta Let_def)

lemma lru_safe_put_compound_page [intro]: "lru_safe s (put_compound_page p s)"
proof -
  let ?h = "compound_head s p"
  define t where "t = snd (get_page_unless_zero ?h s)"
  have t: "lru_safe s t" and r: "lru_safe s (out_put_single p s)" "lru_safe s (put_head_page p s)"
    unfolding t_def by (rule lru_safe_counts lru_safe_out_put_single lru_safe_put_head_page)+
  have u: "lru_safe t (snd (put_page_testzero ?h t))"
    by (rule lru_safe_counts)
  note 1 = lru_safe_trans [OF t lru_safe_out_put_single [of t p]]
  note 2 = lru_safe_trans [OF lru_safe_trans [OF t u] lru_safe_out_put_single [of _ p]]
  note 3 = lru_safe_trans [OF lru_safe_trans [OF lru_safe_trans [OF t u] lru_safe_put(1) [of _ ?h]]
      lru_safe_out_put_single [of _ p]]
  note 4 = lru_safe_trans [OF lru_safe_trans [OF lru_safe_trans [OF t u]
      lru_safe_counts(3) [of _ "-1" p]] lru_safe_put_head_page [of _ ?h]]
  show ?thesis
    using r 1 2 3 4 by (simp add: put_compound_page_def t_def split_beta Let_def)
qed

lemma lru_safe_put_page [intro]: "lru_safe s (put_page p s)"
  by (simp add: put_page_def lru_safe_put_compound_page lru_safe_out_put_single)

lemma lru_safe_get_page_tail [intro]: "lru_safe s (snd (raw_get_page_tail p s))"
proof -
  have t: "lru_safe s (snd (get_page_unless_zero (compound_head s p) s))"
    by (rule lru_safe_counts)
  note 1 = t lru_safe_trans [OF t lru_safe_counts(3) [of _ 1 p]]
    lru_safe_trans [OF t lru_safe_put_page [of _ "compound_head s p"]]
  show ?thesis
    using 1 by (simp add: raw_get_page_tail_def split_beta Let_def)
qed

lemma lru_safe_get_page [intro]: "lru_safe s (get_page p s)"
proof -
  have t: "lru_safe s (snd (raw_get_page_tail p s))" by (rule lru_safe_get_page_tail)
  note 1 = t lru_safe_trans [OF t lru_safe_add_count [of _ 1 p]] lru_safe_add_count [of s 1 p]
  show ?thesis
    using 1 by (simp add: get_page_def split_beta Let_def)
qed

lemma lru_safe_put_pages_list [intro]: "lru_safe s (put_pages_list pages s)"
  unfolding put_pages_list_def by (rule lru_safe_fold) (rule lru_safe_put_page)

lemma lru_safe_free_list [intro]: "lru_safe s (log_free_hot_cold_page_list ps cold s)"
  unfolding log_free_hot_cold_page_list_def by (rule lru_safe_fold) (rule lru_safe_bookkeeping)

lemma lru_safe_release_pages_loop: "lru_safe s (snd (release_pages_loop ps acc s))"
proof (induction ps arbitrary: acc s)
  case (Cons p ps)
  have t: "lru_safe s (snd (put_page_testzero p s))" by (rule lru_safe_counts)
  let ?t = "snd (put_page_testzero p s)"
  have "lru_safe ?t (if PageLRU ?t p then lru_release p ?t else ?t)"
    using lru_safe_raw_page_cache_release [of ?t p] by (simp add: raw_page_cache_release_def)
  note u = lru_safe_trans [OF lru_safe_trans [OF t this] Cons.IH]
  note v = lru_safe_trans [OF t Cons.IH] lru_safe_trans [OF lru_safe_put_compound_page Cons.IH]
  show ?case
    using u v by (simp add: split_beta Let_def)
qed simp

lemma lru_safe_release_pages [intro]: "lru_safe s (release_pages pages cold s)"
  using lru_safe_trans [OF lru_safe_release_pages_loop lru_safe_free_list]
  by (simp add: release_pages_def split_beta)


section \<open>Moving pages on the LRU is safe\<close>

lemmas lru_place_defs =
  lru_place_def page_lru_def page_lru_base_type_def page_is_file_cache_def

lemma lru_safe_reclaim_stat [intro]: "lru_safe s (update_page_reclaim_stat z file rotated s)"
  unfolding update_page_reclaim_stat_def by (rule lru_safe_upd_zone) simp_all

lemma lru_safe_relist:
  assumes place: "lru_place (mem_map s p) = Some (z, l)"
    and f: "lru_place (f (mem_map s p)) = Some (z, l')"
  shows "lru_safe s (add_page_to_lru_list z p l' (upd_page p f (del_page_from_lru_list z p l s)))"
proof (rule lru_safe_on_lru)
  show "PageLRU s p"
    using place by (simp add: lru_place_def PageFlag_def split: if_splits)
  show "pg_zonenum (mem_map (add_page_to_lru_list z p l'
      (upd_page p f (del_page_from_lru_list z p l s))) q) = pg_zonenum (mem_map s q)" for q
    using place f by (auto simp: lru_place_def split: if_splits)
  show "pvecs_kept s (add_page_to_lru_list z p l' (upd_page p f (del_page_from_lru_list z p l s)))"
    by simp
  show "lru_inv_upto D (add_page_to_lru_list z p l' (upd_page p f (del_page_from_lru_list z p l s)))"
    if "lru_inv_upto D s" for D
    using lru_inv_relist [where f = f, OF that place f] .
qed simp

lemma lru_safe_move_tail:
  assumes "lru_place (mem_map s p) = Some (z, l)"
  shows "lru_safe s (lru_move_tail z p l s)"
proof (rule lru_safe_on_lru [of s p])
  show "PageLRU s p"
    using assms by (simp add: lru_place_def PageFlag_def split: if_splits)
qed (simp_all add: lru_inv_move assms)

lemma lru_safe_set_flag:
  assumes "PageLRU s p" and "f \<notin> {PG_lru, PG_active, PG_unevictable, PG_swapbacked}"
  shows "lru_safe s (SetPage f p s)"
proof (rule lru_safe_on_lru [OF assms(1)])
  have "lru_place (set_flag f pg) = lru_place pg" for pg
    using assms(2) by (auto simp: lru_place_defs)
  then show "lru_inv_upto D (SetPage f p s)" if "lru_inv_upto D s" for D
    using that by (simp add: SetPage_def lru_inv_upd_page)
qed (simp_all add: SetPage_def)

lemma lru_safe_raw_activate_page [intro]: "lru_safe s (raw_activate_page p s)"
proof -
  let ?pg = "mem_map s p" and ?z = "pg_zonenum (mem_map s p)"
  let ?l = "page_lru_base_type ?pg"
  have "lru_safe s (add_page_to_lru_list ?z p (lru_plus ?l LRU_ACTIVE)
      (upd_page p (set_flag PG_active) (del_page_from_lru_list ?z p ?l s)))"
    if "PageLRU s p" "\<not> PageActive s p" "\<not> PageUnevictable s p"
    by (rule lru_safe_relist) (use that in \<open>simp_all add: lru_place_defs PageFlag_def\<close>)
  from lru_safe_trans [OF lru_safe_trans [OF this lru_safe_bookkeeping(1) [of _ PGACTIVATE 1]]
      lru_safe_reclaim_stat]
  show ?thesis
    by (simp add: raw_activate_page_def Let_def page_zone_def SetPage_def)
qed

lemma lru_safe_activate_page [intro]: "lru_safe s (activate_page p s)"
  unfolding activate_page_def by blast

lemma lru_safe_mark_page_accessed [intro]: "lru_safe s (mark_page_accessed p s)"
proof -
  have r: "lru_safe t (upd_page p (\<lambda>pg. pg\<lparr>pg_referenced := 0\<rparr>) t)" for t :: "'a mm_state"
    by (rule lru_safe_upd_page) simp_all
  from r lru_safe_trans [OF lru_safe_activate_page r]
  show ?thesis by (simp add: mark_page_accessed_def Let_def)
qed

lemma lru_safe_pagevec_move_tail_fn [intro]: "lru_safe s (snd (pagevec_move_tail_fn p n s))"
  by (auto simp: pagevec_move_tail_fn_def Let_def page_zone_def PageFlag_def lru_place_defs
      intro!: lru_safe_move_tail)

lemma page_lru_base_active:
  "\<not> pg_flags pg PG_unevictable \<Longrightarrow>
     page_lru pg = lru_plus (page_lru_base_type pg) (of_bool (pg_flags pg PG_active))"
  by (simp add: page_lru_def Let_def LRU_ACTIVE_def)

lemma lru_safe_deactivate_fn [intro]: "lru_safe s (snd (lru_deactivate_fn p u s))"
proof (cases "PageLRU s p \<and> \<not> PageUnevictable s p \<and> \<not> page_mapped s p")
  case True
  let ?pg = "mem_map s p" and ?z = "pg_zonenum (mem_map s p)"
  let ?l = "page_lru_base_type ?pg"
  define t where "t = add_page_to_lru_list ?z p ?l (ClearPage PG_active p
    (del_page_from_lru_list ?z p (lru_plus ?l (of_bool (PageActive s p))) s))"
  have tp: "mem_map t p = clear_flag PG_active ?pg"
    by (simp add: t_def ClearPage_def)
  have st: "lru_safe s t"
    unfolding t_def ClearPage_def
    by (rule lru_safe_relist)
       (use True in \<open>simp_all add: lru_place_def PageFlag_def page_lru_base_active
          page_lru_base_type_def page_is_file_cache_def\<close>)
  have "lru_place (mem_map t p) = Some (?z, ?l)" "PageLRU t p"
    using True by (simp_all add: tp lru_place_defs PageFlag_def)
  note moved = lru_safe_trans [OF lru_safe_move_tail [OF this(1)] lru_safe_bookkeeping(1) [of _ PGROTATED 1]]
    lru_safe_set_flag [OF this(2), of PG_reclaim]
  define t' where "t' = (if PageWriteback t p \<or> PageDirty t p then SetPage PG_reclaim p t
    else count_vm_events PGROTATED 1 (lru_move_tail ?z p ?l t))"
  have st': "lru_safe s t'"
    unfolding t'_def using moved lru_safe_trans [OF st] by auto
  have eq: "snd (lru_deactivate_fn p u s) = update_page_reclaim_stat ?z (page_is_file_cache ?pg) False
      (if PageActive s p then count_vm_events PGDEACTIVATE 1 t' else t')"
    using True unfolding t'_def t_def by (simp add: lru_deactivate_fn_def Let_def page_zone_def)
  have "lru_safe s (if PageActive s p then count_vm_events PGDEACTIVATE 1 t' else t')"
    using st' lru_safe_trans [OF st' lru_safe_bookkeeping(1)] by simp
  from lru_safe_trans [OF this lru_safe_reclaim_stat] show ?thesis
    unfolding eq .
qed (auto simp: lru_deactivate_fn_def Let_def)

lemma lru_safe_pagevec_move_loop:
  assumes "\<And>p a s. lru_safe s (snd (move_fn p a s))"
  shows "lru_safe s (snd (pagevec_move_loop move_fn ps arg s))"
proof (induction ps arbitrary: arg s)
  case (Cons p ps)
  show ?case
    using lru_safe_trans [OF assms Cons.IH] by (simp add: split_beta)
qed simp

lemma lru_safe_pagevec_lru_move_fn:
  assumes "\<And>p a s. lru_safe s (snd (move_fn p a s))"
  shows "lru_safe s (snd (snd (pagevec_lru_move_fn pvec move_fn arg s)))"
  using lru_safe_trans [OF lru_safe_pagevec_move_loop [OF assms] lru_safe_release_pages]
  by (simp add: pagevec_lru_move_fn_def split_beta)

lemma pagevec_lru_move_fn_empties [simp]:
  "pv_pages (fst (pagevec_lru_move_fn pvec move_fn arg s)) = []"
  by (simp add: pagevec_lru_move_fn_def split_beta pagevec_reinit_def)

lemma lru_safe_pagevec_move_tail: "lru_safe s (snd (pagevec_move_tail pvec s))"
  using lru_safe_trans [OF lru_safe_pagevec_lru_move_fn [OF lru_safe_pagevec_move_tail_fn]
      lru_safe_bookkeeping(1) [of _ PGROTATED]]
  by (simp add: pagevec_move_tail_def split_beta)

lemma pagevec_move_tail_empties [simp]: "pv_pages (fst (pagevec_move_tail pvec s)) = []"
  by (simp add: pagevec_move_tail_def split_beta)


section \<open>The pagevecs\<close>

text \<open>
  A page in the pagevec of list \<open>l\<close> is off the LRU, carries neither \<^verbatim>\<open>PG_active\<close> nor
  \<^verbatim>\<open>PG_unevictable\<close> and is a file page exactly when \<open>l\<close> is a file list: the conditions of the
  \<^verbatim>\<open>VM_BUG_ON\<close>s in \<^verbatim>\<open>__pagevec_lru_add_fn\<close>. \<open>pvecs_ok\<close> adds that no page waits twice, that every
  pagevec has a free slot between operations and that none waits for the unevictable list.
\<close>

definition pvec_page_ok :: "'w mm_state \<Rightarrow> lru_list \<Rightarrow> nat \<Rightarrow> bool" where
  "pvec_page_ok s l p \<longleftrightarrow>
     \<not> PageLRU s p \<and> \<not> PageActive s p \<and> \<not> PageUnevictable s p \<and>
     page_is_file_cache (mem_map s p) = is_file_lru l"

abbreviation add_pvec :: "'w mm_state \<Rightarrow> lru_list \<Rightarrow> nat list" where
  "add_pvec s l \<equiv> pv_pages (lru_add_pvecs s l)"

definition pvecs_ok :: "'w mm_state \<Rightarrow> bool" where
  "pvecs_ok s \<longleftrightarrow>
     (\<forall>l. distinct (add_pvec s l) \<and> length (add_pvec s l) < 14) \<and>
     (\<forall>l. \<forall>p \<in> set (add_pvec s l). pvec_page_ok s l p) \<and>
     (\<forall>l l'. l \<noteq> l' \<longrightarrow> set (add_pvec s l) \<inter> set (add_pvec s l') = {}) \<and>
     add_pvec s LRU_UNEVICTABLE = [] \<and>
     length (pv_pages (lru_rotate_pvecs s)) < 14 \<and>
     length (pv_pages (lru_deactivate_pvecs s)) < 14"

text \<open>The invariant of the LRU code as a whole.\<close>

definition mm_inv :: "'w mm_state \<Rightarrow> bool" where
  "mm_inv s \<longleftrightarrow> lru_inv s \<and> pvecs_ok s"

lemma pvec_page_ok_safe:
  assumes "lru_safe_but A s s'" "p \<notin> A" "pvec_page_ok s l p"
  shows "pvec_page_ok s' l p"
proof -
  have "pg_flags (mem_map s' p) = pg_flags (mem_map s p)"
    using assms by (intro lru_safe_flags) (simp_all add: pvec_page_ok_def PageFlag_def)
  then show ?thesis
    using assms(3) by (simp add: pvec_page_ok_def PageFlag_def page_is_file_cache_def)
qed

lemma pvecs_ok_safe:
  assumes safe: "lru_safe_but A s s'" and ok: "pvecs_ok s"
    and A: "\<And>l. A \<inter> set (add_pvec s l) = {}"
  shows "pvecs_ok s'"
proof -
  have "pvecs_kept s s'" using safe by (simp add: lru_safe_but_def)
  moreover have "pvec_page_ok s' l p" if "p \<in> set (add_pvec s l)" for l p
    using that A [of l] ok by (intro pvec_page_ok_safe [OF safe]) (auto simp: pvecs_ok_def)
  ultimately show ?thesis
    using ok by (simp add: pvecs_ok_def pvecs_kept_def)
qed

lemma mm_inv_safe_but:
  "lru_safe_but A s s' \<Longrightarrow> (\<And>l. A \<inter> set (add_pvec s l) = {}) \<Longrightarrow> mm_inv s \<Longrightarrow> mm_inv s'"
  by (simp add: mm_inv_def pvecs_ok_safe lru_safe_inv)

lemma mm_inv_safe: "lru_safe s s' \<Longrightarrow> mm_inv s \<Longrightarrow> mm_inv s'"
  by (rule mm_inv_safe_but) auto

lemma pvecs_ok_emptied:
  assumes ok: "pvecs_ok s" and safe: "lru_safe_but A s s'" and pv: "pv_pages pv = []"
    and A: "\<And>l'. l' \<noteq> l \<Longrightarrow> A \<inter> set (add_pvec s l') = {}"
  shows "pvecs_ok (s'\<lparr>lru_add_pvecs := (lru_add_pvecs s')(l := pv)\<rparr>)"
proof -
  have kept: "pvecs_kept s s'" using safe by (simp add: lru_safe_but_def)
  have "pvec_page_ok s' l' p" if "l' \<noteq> l" "p \<in> set (add_pvec s l')" for l' p
    using that A [OF that(1)] ok by (intro pvec_page_ok_safe [OF safe]) (auto simp: pvecs_ok_def)
  then show ?thesis
    using ok kept pv by (auto simp: pvecs_ok_def pvecs_kept_def pvec_page_ok_def PageFlag_def)
qed

lemma lru_inv_pvecs [simp]:
  "lru_inv_upto D (s\<lparr>lru_add_pvecs := a\<rparr>) = lru_inv_upto D s"
  "lru_inv_upto D (s\<lparr>lru_rotate_pvecs := r\<rparr>) = lru_inv_upto D s"
  "lru_inv_upto D (s\<lparr>lru_deactivate_pvecs := r\<rparr>) = lru_inv_upto D s"
  by (rule lru_inv_cong; simp)+

lemma lru_safe_add_fn:
  assumes "pvec_page_ok s l p" "l \<noteq> LRU_UNEVICTABLE"
  shows "lru_safe_but {p} s (snd (raw_pagevec_lru_add_fn p l s))"
proof -
  let ?z = "pg_zonenum (mem_map s p)"
  define f where "f = (\<lambda>pg. if is_active_lru l then set_flag PG_active (set_flag PG_lru pg)
    else set_flag PG_lru pg)"
  have place: "lru_place (mem_map s p) = None" "lru_place (f (mem_map s p)) = Some (?z, l)"
    using assms by (cases l; simp add: f_def pvec_page_ok_def lru_place_defs PageFlag_def c_simps)+
  have "lru_safe_but {p} s (add_page_to_lru_list ?z p l (upd_page p f s))"
    unfolding lru_safe_but_def using lru_inv_add [where f = f, OF _ place]
    by (simp add: f_def)
  from lru_safe_but_trans [OF this lru_safe_reclaim_stat]
  show ?thesis
    by (cases "is_active_lru l")
       (simp_all add: raw_pagevec_lru_add_fn_def Let_def SetPage_def page_zone_def f_def)
qed

lemma raw_pagevec_lru_add_fn_arg [simp]: "fst (raw_pagevec_lru_add_fn p l s) = l"
  by (simp add: raw_pagevec_lru_add_fn_def Let_def)

lemma lru_safe_add_loop:
  assumes "distinct ps" "\<And>p. p \<in> set ps \<Longrightarrow> pvec_page_ok s l p" "l \<noteq> LRU_UNEVICTABLE"
  shows "lru_safe_but (set ps) s (snd (pagevec_move_loop raw_pagevec_lru_add_fn ps l s))"
  using assms
proof (induction ps arbitrary: s)
  case (Cons p ps)
  let ?t = "snd (raw_pagevec_lru_add_fn p l s)"
  have t: "lru_safe_but {p} s ?t" using Cons.prems by (intro lru_safe_add_fn) auto
  have "lru_safe_but (set ps) ?t (snd (pagevec_move_loop raw_pagevec_lru_add_fn ps l ?t))"
    using Cons.prems by (intro Cons.IH) (auto intro: pvec_page_ok_safe [OF t])
  from lru_safe_but_trans [OF t this] show ?case
    by (simp add: split_beta)
qed simp

lemma lru_safe_pagevec_lru_add:
  assumes "distinct (pv_pages pv)" "\<And>p. p \<in> set (pv_pages pv) \<Longrightarrow> pvec_page_ok s l p"
    "l \<noteq> LRU_UNEVICTABLE"
  shows "lru_safe_but (set (pv_pages pv)) s (snd (raw_pagevec_lru_add pv l s))"
  using lru_safe_but_trans [OF lru_safe_add_loop [OF assms] lru_safe_release_pages]
  by (simp add: raw_pagevec_lru_add_def pagevec_lru_move_fn_def split_beta)

lemma pagevec_lru_add_empties [simp]: "pv_pages (fst (raw_pagevec_lru_add pv l s)) = []"
  by (simp add: raw_pagevec_lru_add_def split_beta)


section \<open>Every operation keeps the invariant\<close>

lemma pagevec_space_add:
  assumes "length (pv_pages pv) < 14"
  shows "fst (pagevec_add pv p) = 0 \<longleftrightarrow> length (pv_pages pv) = 13"
    and "pv_pages (snd (pagevec_add pv p)) = pv_pages pv @ [p]"
proof -
  let ?n = "length (pv_pages pv)"
  have "fst (pagevec_add pv p) = 0 \<longleftrightarrow> (of_nat (Suc ?n) :: ulong) = of_nat 14"
    by (simp add: pagevec_add_def pagevec_space_def pagevec_count_def PAGEVEC_SIZE_def Let_def)
  also have "\<dots> \<longleftrightarrow> Suc ?n = 14"
    using assms by (intro of_nat_ulong_eq_iff) simp_all
  finally show "fst (pagevec_add pv p) = 0 \<longleftrightarrow> ?n = 13" by simp
qed (simp add: pagevec_add_def Let_def)

lemma pagevec_count_zero:
  assumes "length (pv_pages pv) < 14"
  shows "pagevec_count pv = 0 \<longleftrightarrow> pv_pages pv = []"
  using of_nat_ulong_eq_iff [of "length (pv_pages pv)" 0] assms by (simp add: pagevec_count_def)

lemma mm_inv_rotate_drained:
  "mm_inv s \<Longrightarrow> lru_safe s s' \<Longrightarrow> length (pv_pages pv) < 14 \<Longrightarrow> mm_inv (s'\<lparr>lru_rotate_pvecs := pv\<rparr>)"
  using mm_inv_safe [of s s'] by (simp add: mm_inv_def pvecs_ok_def pvec_page_ok_def PageFlag_def)

lemma mm_inv_deactivate_drained:
  "mm_inv s \<Longrightarrow> lru_safe s s' \<Longrightarrow> length (pv_pages pv) < 14 \<Longrightarrow>
     mm_inv (s'\<lparr>lru_deactivate_pvecs := pv\<rparr>)"
  using mm_inv_safe [of s s'] by (simp add: mm_inv_def pvecs_ok_def pvec_page_ok_def PageFlag_def)

lemma mm_inv_rotate_reclaimable_page:
  assumes inv: "mm_inv s"
  shows "mm_inv (rotate_reclaimable_page p s)"
proof -
  let ?s = "get_page p s"
  let ?pv = "snd (pagevec_add (lru_rotate_pvecs ?s) p)"
  have s1: "mm_inv ?s" by (rule mm_inv_safe [OF lru_safe_get_page inv])
  then have len: "length (pv_pages (lru_rotate_pvecs ?s)) < 14"
    by (simp add: mm_inv_def pvecs_ok_def)
  note add = pagevec_space_add [OF len, of p]
  have full: "mm_inv ((snd (pagevec_move_tail ?pv ?s))\<lparr>lru_rotate_pvecs := fst (pagevec_move_tail ?pv ?s)\<rparr>)"
    by (rule mm_inv_rotate_drained [OF s1 lru_safe_pagevec_move_tail]) simp
  have "mm_inv (?s\<lparr>lru_rotate_pvecs := ?pv\<rparr>)" if "fst (pagevec_add (lru_rotate_pvecs ?s) p) \<noteq> 0"
    by (rule mm_inv_rotate_drained [OF s1 lru_safe_refl]) (use add that len in simp)
  then show ?thesis
    using full inv by (simp add: rotate_reclaimable_page_def split_beta Let_def)
qed

lemma mm_inv_deactivate_page:
  assumes inv: "mm_inv s"
  shows "mm_inv (deactivate_page p s)"
proof -
  let ?s = "snd (get_page_unless_zero p s)"
  let ?pv = "snd (pagevec_add (lru_deactivate_pvecs ?s) p)"
  let ?r = "pagevec_lru_move_fn ?pv lru_deactivate_fn () ?s"
  have s1: "mm_inv ?s" by (rule mm_inv_safe [OF lru_safe_counts(2) inv])
  then have len: "length (pv_pages (lru_deactivate_pvecs ?s)) < 14"
    by (simp add: mm_inv_def pvecs_ok_def)
  note add = pagevec_space_add [OF len, of p]
  have full: "mm_inv ((snd (snd ?r))\<lparr>lru_deactivate_pvecs := fst ?r\<rparr>)"
    by (rule mm_inv_deactivate_drained [OF s1 lru_safe_pagevec_lru_move_fn [OF lru_safe_deactivate_fn]])
       simp
  have "mm_inv (?s\<lparr>lru_deactivate_pvecs := ?pv\<rparr>)"
    if "fst (pagevec_add (lru_deactivate_pvecs ?s) p) \<noteq> 0"
    by (rule mm_inv_deactivate_drained [OF s1 lru_safe_refl]) (use add that len in simp)
  then show ?thesis
    using full inv s1 by (simp add: deactivate_page_def split_beta Let_def)
qed

lemma mm_inv_pagevec_lru_add:
  assumes inv: "mm_inv s" and l: "l \<noteq> LRU_UNEVICTABLE" and d: "distinct (pv_pages pv)"
    and ok: "\<And>p. p \<in> set (pv_pages pv) \<Longrightarrow> pvec_page_ok s l p"
    and others: "\<And>l'. l' \<noteq> l \<Longrightarrow> set (pv_pages pv) \<inter> set (add_pvec s l') = {}"
  shows "mm_inv ((snd (raw_pagevec_lru_add pv l s))
           \<lparr>lru_add_pvecs := (lru_add_pvecs (snd (raw_pagevec_lru_add pv l s)))
              (l := fst (raw_pagevec_lru_add pv l s))\<rparr>)"
proof -
  note safe = lru_safe_pagevec_lru_add [OF d ok l]
  have "pvecs_ok s" "lru_inv s" using inv by (simp_all add: mm_inv_def)
  then show ?thesis
    using pvecs_ok_emptied [OF _ safe pagevec_lru_add_empties others] lru_safe_inv [OF safe]
    by (simp add: mm_inv_def)
qed

lemma mm_inv_drain_one:
  assumes inv: "mm_inv s"
  shows "mm_inv (lru_add_drain_one l s)"
proof (cases "add_pvec s l = []")
  case True
  then show ?thesis using inv by (simp add: lru_add_drain_one_def pagevec_count_def)
next
  case False
  have ok: "pvecs_ok s" using inv by (simp add: mm_inv_def)
  then have l: "l \<noteq> LRU_UNEVICTABLE" using False by (auto simp: pvecs_ok_def)
  have "mm_inv ((snd (raw_pagevec_lru_add (lru_add_pvecs s l) l s))
           \<lparr>lru_add_pvecs := (lru_add_pvecs (snd (raw_pagevec_lru_add (lru_add_pvecs s l) l s)))
              (l := fst (raw_pagevec_lru_add (lru_add_pvecs s l) l s))\<rparr>)"
    using ok by (intro mm_inv_pagevec_lru_add [OF inv l]) (auto simp: pvecs_ok_def)
  then show ?thesis
    using inv by (simp add: lru_add_drain_one_def split_beta Let_def)
qed

lemma mm_inv_fold:
  assumes "\<And>x s. mm_inv s \<Longrightarrow> mm_inv (f x s)" "mm_inv s"
  shows "mm_inv (fold f xs s)"
  using assms(2) by (induction xs arbitrary: s) (simp_all add: assms(1))

lemma mm_inv_lru_add_drain:
  assumes "mm_inv s"
  shows "mm_inv (lru_add_drain s)"
proof -
  define t where "t = fold lru_add_drain_one all_lrus s"
  have t: "mm_inv t" unfolding t_def by (intro mm_inv_fold mm_inv_drain_one assms)
  define u where "u = (if pagevec_count (lru_rotate_pvecs t) \<noteq> 0 then
    (snd (pagevec_move_tail (lru_rotate_pvecs t) t))
      \<lparr>lru_rotate_pvecs := fst (pagevec_move_tail (lru_rotate_pvecs t) t)\<rparr> else t)"
  have u: "mm_inv u"
    unfolding u_def using t mm_inv_rotate_drained [OF t lru_safe_pagevec_move_tail] by simp
  let ?r = "pagevec_lru_move_fn (lru_deactivate_pvecs u) lru_deactivate_fn () u"
  have "mm_inv ((snd (snd ?r))\<lparr>lru_deactivate_pvecs := fst ?r\<rparr>)"
    by (rule mm_inv_deactivate_drained [OF u lru_safe_pagevec_lru_move_fn [OF lru_safe_deactivate_fn]])
       simp
  with u show ?thesis
    unfolding lru_add_drain_def lru_add_drain_cpu_def t_def [symmetric] Let_def
    by (simp add: split_beta u_def split: if_splits)
qed

lemma mm_inv_raw_lru_cache_add:
  assumes inv: "mm_inv s" and l: "l \<noteq> LRU_UNEVICTABLE" and p: "pvec_page_ok s l p"
    and new: "\<And>l'. p \<notin> set (add_pvec s l')"
  shows "mm_inv (raw_lru_cache_add p l s)"
proof -
  let ?s = "get_page p s"
  let ?pv = "snd (pagevec_add (lru_add_pvecs ?s l) p)"
  have s1: "mm_inv ?s" by (rule mm_inv_safe [OF lru_safe_get_page inv])
  then have ok: "pvecs_ok ?s" by (simp add: mm_inv_def)
  have p1: "pvec_page_ok ?s l p" by (rule pvec_page_ok_safe [OF lru_safe_get_page _ p]) simp
  have new1: "p \<notin> set (add_pvec ?s l')" for l'
    using new [of l'] lru_safe_get_page [of s p] by (simp add: lru_safe_but_def pvecs_kept_def)
  have len: "length (add_pvec ?s l) < 14" using ok by (simp add: pvecs_ok_def)
  note add = pagevec_space_add [OF len, of p]
  have full: "mm_inv ((snd (raw_pagevec_lru_add ?pv l ?s))
           \<lparr>lru_add_pvecs := (lru_add_pvecs (snd (raw_pagevec_lru_add ?pv l ?s)))
              (l := fst (raw_pagevec_lru_add ?pv l ?s))\<rparr>)"
    using ok p1 new1 by (intro mm_inv_pagevec_lru_add [OF s1 l]) (auto simp: pvecs_ok_def add)
  have "pvecs_ok (?s\<lparr>lru_add_pvecs := (lru_add_pvecs ?s)(l := ?pv)\<rparr>)"
    if "fst (pagevec_add (lru_add_pvecs ?s l) p) \<noteq> 0"
  proof -
    have "length (add_pvec ?s l) < 13" using len add(1) that by simp
    then show ?thesis
      using ok p1 new1 l add(2) by (auto simp: pvecs_ok_def pvec_page_ok_def PageFlag_def)
  qed
  then show ?thesis
    using full s1 by (simp add: raw_lru_cache_add_def split_beta Let_def mm_inv_def)
qed

lemma lru_safe_but_off:
  assumes "\<not> PageLRU s p" "\<not> pg_flags (f (mem_map s p)) PG_lru"
    "pg_zonenum (f (mem_map s p)) = pg_zonenum (mem_map s p)"
  shows "lru_safe_but {p} s (upd_page p f s)"
  using assms by (simp add: lru_safe_but_def lru_inv_upd_page lru_place_def PageFlag_def)

lemma mm_inv_lru_cache_add_lru:
  assumes inv: "mm_inv s" and l: "l \<noteq> LRU_UNEVICTABLE"
    and off: "\<not> PageLRU s p" "\<not> (PageActive s p \<and> PageUnevictable s p)"
    and ft: "page_is_file_cache (mem_map s p) = is_file_lru l"
    and new: "\<And>l'. p \<notin> set (add_pvec s l')"
  shows "mm_inv (lru_cache_add_lru p l s)"
proof -
  let ?t = "if PageActive s p then ClearPage PG_active p s
    else if PageUnevictable s p then ClearPage PG_unevictable p s else s"
  have safe: "lru_safe_but {p} s ?t"
    using off lru_safe_but_off [of s p] by (simp add: ClearPage_def PageFlag_def)
  have "mm_inv ?t"
    by (rule mm_inv_safe_but [OF safe _ inv]) (use new in auto)
  moreover have "pvec_page_ok ?t l p"
    using off ft by (simp add: pvec_page_ok_def PageFlag_def ClearPage_def page_is_file_cache_def)
  moreover have "p \<notin> set (add_pvec ?t l')" for l'
    using new [of l'] safe by (simp add: lru_safe_but_def pvecs_kept_def)
  ultimately have "mm_inv (raw_lru_cache_add p l ?t)"
    using l by (intro mm_inv_raw_lru_cache_add) auto
  then show ?thesis unfolding lru_cache_add_lru_def Let_def .
qed

lemma mm_inv_add_page_to_unevictable_list:
  assumes inv: "mm_inv s" and off: "\<not> PageLRU s p" and new: "\<And>l. p \<notin> set (add_pvec s l)"
  shows "mm_inv (add_page_to_unevictable_list p s)"
proof -
  let ?z = "pg_zonenum (mem_map s p)"
  define f where "f = (\<lambda>pg. set_flag PG_lru (set_flag PG_unevictable pg))"
  have place: "lru_place (mem_map s p) = None" "lru_place (f (mem_map s p)) = Some (?z, LRU_UNEVICTABLE)"
    using off by (simp_all add: f_def lru_place_defs PageFlag_def)
  have "lru_safe_but {p} s (add_page_to_lru_list ?z p LRU_UNEVICTABLE (upd_page p f s))"
    unfolding lru_safe_but_def using lru_inv_add [where f = f, OF _ place] by (simp add: f_def)
  from mm_inv_safe_but [OF this _ inv] new show ?thesis
    by (simp add: add_page_to_unevictable_list_def Let_def SetPage_def page_zone_def f_def)
qed

lemma mm_inv_raw_pagevec_release: "mm_inv s \<Longrightarrow> mm_inv (snd (raw_pagevec_release pvec s))"
  using mm_inv_safe [OF lru_safe_release_pages mm_inv_lru_add_drain]
  by (simp add: raw_pagevec_release_def Let_def)

end
