(* ===== verification/Swap_Spec.thy ===== *)
theory Swap_Spec
  imports Mm_Swap
begin

text \<open>
  What \<^verbatim>\<open>mm/swap.c\<close> promises: the LRU invariant over every sequence of its operations, the functional
  behaviour of releasing, draining, activating and deactivating pages.
\<close>

section \<open>Sequences of operations\<close>


text \<open>
  The state in which the page allocator leaves the LRU code at boot (\<^verbatim>\<open>free_area_init_core\<close> initialises
  every list, the counters are zero, the per-processor pagevecs are zero-filled), and a concrete
  such state with idle pages in one zone.
\<close>

definition lru_boot :: "'w mm_state \<Rightarrow> bool" where
  "lru_boot s \<longleftrightarrow>
     (\<forall>p. \<not> PageLRU s p) \<and> (\<forall>z l. zone_lists s z l = []) \<and>
     (\<forall>z l. vm_stat (node_zones s z) (nr_lru l) = 0) \<and>
     (\<forall>l. add_pvec s l = []) \<and> pv_pages (lru_rotate_pvecs s) = [] \<and>
     pv_pages (lru_deactivate_pvecs s) = []"

definition idle_page :: page where
  "idle_page =
     \<lparr>pg_flags = (\<lambda>_. False), pg_zonenum = 0, pg_mapping = Map_NULL, pg_index = 0,
      pg_mapcount = -1, pg_count = 1, pg_private = 0, pg_first_page = 0, pg_lru_next = None,
      pg_lru_prev = 0, pg_referenced = 0\<rparr>"

definition idle_zone :: zone where
  "idle_zone =
     \<lparr>watermark = (\<lambda>w. case w of WMARK_MIN \<Rightarrow> 10 | WMARK_LOW \<Rightarrow> 12 | WMARK_HIGH \<Rightarrow> 15),
      lowmem_reserve = (\<lambda>_. 0),
      pageset = \<lparr>pcp_count = 0, pcp_high = 18, pcp_batch = 3, pcp_lists = (\<lambda>_. [])\<rparr>,
      all_unreclaimable = False, free_list = (\<lambda>_ _. []), nr_free = (\<lambda>_. 0), pageblock_flags = (\<lambda>_. False), lists = (\<lambda>_. []),
      recent_rotated = (\<lambda>_. 0), recent_scanned = (\<lambda>_. 0), pages_scanned = 0,
      zone_flags = (\<lambda>_. False), vm_stat = (\<lambda>_. 0), inactive_ratio = 1,
      zone_start_pfn = 0, spanned_pages = 4096, present_pages = 1000\<rparr>"

definition idle_state :: "'w \<Rightarrow> 'w mm_state" where
  "idle_state w =
     \<lparr>mem_map = (\<lambda>_. idle_page), node_zones = (\<lambda>_. idle_zone), nr_zones = 3,
      vm_stat_global = (\<lambda>_. 0), vm_event_states = (\<lambda>_. 0),
      lru_add_pvecs = (\<lambda>_. pagevec_init False), lru_rotate_pvecs = pagevec_init False,
      lru_deactivate_pvecs = pagevec_init False,
      as_infos = (\<lambda>_. \<lparr>AS_UNEVICTABLE = False, AS_EIO = False, AS_ENOSPC = False,
                       has_writepage = True, has_migratepage = True, has_freepage = False\<rparr>),
      nr_swap_pages = 0, total_swap_pages = 0,
      page_group_by_mobility_disabled = False, calls = [], world = w\<rparr>"

lemma lru_boot_idle_state: "lru_boot (idle_state w)"
  by (simp add: lru_boot_def idle_state_def idle_page_def idle_zone_def pagevec_init_def PageFlag_def)

lemma mm_inv_boot: "lru_boot s \<Longrightarrow> mm_inv s"
  by (simp add: lru_boot_def mm_inv_def lru_inv_upto_def lru_rep_def lru_key_def lru_count_def
      zone_page_state_def lru_place_def pvecs_ok_def PageFlag_def)



text \<open>A state with page 7 on the inactive file list of zone 0, for the examples below.\<close>

definition cached_state :: "unit mm_state" where
  "cached_state = add_page_to_lru_list 0 7 LRU_INACTIVE_FILE (SetPage PG_lru 7 (idle_state ()))"

lemma lru_inv_cached_state: "lru_inv cached_state"
  unfolding cached_state_def SetPage_def
proof (rule lru_inv_add)
  show "lru_inv (idle_state ())"
    using mm_inv_boot [OF lru_boot_idle_state [of "()"]] by (simp add: mm_inv_def)
qed (simp_all add: idle_state_def idle_page_def lru_place_defs)

lemma cached_state_page:
  "mem_map cached_state 7 = set_flag PG_lru idle_page"
  "zone_lists cached_state 0 LRU_INACTIVE_FILE = [7]" "zone_lists cached_state 0 LRU_ACTIVE_FILE = []"
  by (simp_all add: cached_state_def SetPage_def idle_state_def add_page_to_lru_list_def idle_zone_def)


section \<open>Releasing\<close>

lemma lru_release_mem_map:
  "mem_map (lru_release p s) =
     (mem_map s)(p := off_lru_flags (clear_flag PG_lru (mem_map s p)))"
  by (simp add: lru_release_eq)

lemma calls_lru_release [simp]: "calls (lru_release p s) = calls s"
  by (simp add: lru_release_eq del_page_from_lru_list_def lru_unlink_def mod_zone_page_state_def
      upd_zone_def upd_page_def)

lemma calls_add_count [simp]: "calls (add_count d p s) = calls s"
  by (simp add: add_count_def upd_page_def)

lemma calls_free_list: "calls (log_free_hot_cold_page_list ps cold s) =
    calls s @ map (\<lambda>p. Free_hot_cold_page p cold) ps"
  unfolding log_free_hot_cold_page_list_def
  by (induction ps arbitrary: s) (simp_all add: kcall_def)

lemma mem_map_free_list [simp]: "mem_map (log_free_hot_cold_page_list ps cold s) = mem_map s"
  unfolding log_free_hot_cold_page_list_def by (induction ps arbitrary: s) simp_all

text \<open>One round of the loop on a page that is not part of a compound page.\<close>

definition release_one :: "nat \<Rightarrow> 'w mm_state \<Rightarrow> 'w mm_state" where
  "release_one p s =
     (let s' = add_count (-1) p s
      in if pg_count (mem_map s p) = 1 \<and> PageLRU s' p then lru_release p s' else s')"

lemma release_pages_loop_Cons:
  assumes "\<not> PageCompound s p"
  shows "release_pages_loop (p # ps) acc s =
    release_pages_loop ps (if pg_count (mem_map s p) = 1 then p # acc else acc) (release_one p s)"
  using assms
  by (simp add: release_one_def put_page_testzero_def Let_def add_count_def)

lemma release_one_mem_map:
  "q \<noteq> p \<Longrightarrow> mem_map (release_one p s) q = mem_map s q"
  "pg_count (mem_map (release_one p s) p) = pg_count (mem_map s p) - 1"
  "calls (release_one p s) = calls s"
  "pg_count (mem_map s p) = 1 \<Longrightarrow> \<not> PageLRU (release_one p s) p"
  by (simp_all add: release_one_def Let_def add_count_def lru_release_mem_map PageFlag_def)
     (simp add: upd_page_def)

lemma release_pages_loop_spec:
  assumes "distinct ps" "\<And>p. p \<in> set ps \<Longrightarrow> \<not> PageCompound s p"
  shows "fst (release_pages_loop ps acc s) = rev (filter (\<lambda>p. pg_count (mem_map s p) = 1) ps) @ acc"
    (is "?freed")
    and "calls (snd (release_pages_loop ps acc s)) = calls s" (is "?calls")
    and "pg_count (mem_map (snd (release_pages_loop ps acc s)) q) =
           pg_count (mem_map s q) - of_bool (q \<in> set ps)" (is "?count")
    and "q \<in> set ps \<Longrightarrow> pg_count (mem_map s q) = 1 \<Longrightarrow>
           \<not> PageLRU (snd (release_pages_loop ps acc s)) q" (is "_ \<Longrightarrow> _ \<Longrightarrow> ?off")
proof -
  have "?freed \<and> ?calls \<and> ?count \<and> (q \<in> set ps \<longrightarrow> pg_count (mem_map s q) = 1 \<longrightarrow> ?off) \<and>
    (\<not> PageLRU s q \<longrightarrow> ?off)"
    using assms
  proof (induction ps arbitrary: acc s)
    case (Cons p ps)
    let ?acc = "if pg_count (mem_map s p) = 1 then p # acc else acc"
    have same: "mem_map (release_one p s) r = mem_map s r" if "r \<in> set ps" for r
      using that Cons.prems(1) by (intro release_one_mem_map) auto
    have filt: "filter (\<lambda>r. pg_count (mem_map (release_one p s) r) = 1) ps =
        filter (\<lambda>r. pg_count (mem_map s r) = 1) ps"
      using same by (intro filter_cong) simp_all
    have "\<not> PageCompound (release_one p s) r" if "r \<in> set ps" for r
      using that Cons.prems(2) [of r] by (simp add: PageCompound_def PageFlag_def same)
    note IH = Cons.IH [of "release_one p s" ?acc, OF _ this, unfolded filt]
    have off: "\<not> PageLRU s q \<Longrightarrow> \<not> PageLRU (release_one p s) q"
      using release_one_mem_map(1) [of q p s]
      by (cases "q = p") (simp_all add: release_one_def PageFlag_def Let_def add_count_def)
    show ?case
    proof (cases "q = p")
      case True
      then show ?thesis
        using IH Cons.prems off
        by (cases "pg_count (mem_map s p) = 1")
           (simp_all add: release_pages_loop_Cons release_one_mem_map del: release_pages_loop.simps)
    next
      case False
      then show ?thesis
        using IH Cons.prems off
        by (simp add: release_pages_loop_Cons release_one_mem_map del: release_pages_loop.simps)
    qed
  qed simp
  then show ?freed ?calls ?count "q \<in> set ps \<Longrightarrow> pg_count (mem_map s q) = 1 \<Longrightarrow> ?off"
    by blast+
qed



section \<open>Moving\<close>

lemma lists_lru_release [simp]:
  "zone_lists (lru_release p s) z l = removeAll p (zone_lists s z l)"
  by (simp add: lru_release_eq del_page_from_lru_list_def)

lemma lists_update_page_reclaim_stat [simp]:
  "zone_lists (update_page_reclaim_stat z file rot s) z' = zone_lists s z'"
  "mem_map (update_page_reclaim_stat z file rot s) = mem_map s"
  "vm_stat (node_zones (update_page_reclaim_stat z file rot s) z') = vm_stat (node_zones s z')"
  by (simp_all add: update_page_reclaim_stat_def)

lemma lists_add_page [simp]:
  "zone_lists (add_page_to_lru_list z p l s) z' l' =
     (if z' = z \<and> l' = l then p # zone_lists s z l else zone_lists s z' l')"
  "zone_lists (del_page_from_lru_list z p l s) z' l' = removeAll p (zone_lists s z' l')"
  by (simp_all add: add_page_to_lru_list_def del_page_from_lru_list_def)

lemma vm_stat_add_page [simp]:
  "vm_stat (node_zones (add_page_to_lru_list z p l s) z') j =
     vm_stat (node_zones s z') j + (if z' = z \<and> j = nr_lru l then 1 else 0)"
  "vm_stat (node_zones (del_page_from_lru_list z p l s) z') j =
     vm_stat (node_zones s z') j - (if z' = z \<and> j = nr_lru l then 1 else 0)"
  by (simp_all add: add_page_to_lru_list_def del_page_from_lru_list_def)

lemma add_fn_effect:
  "zone_lists (snd (raw_pagevec_lru_add_fn p l s)) z l' =
     (if z = pg_zonenum (mem_map s p) \<and> l' = l then p # zone_lists s z l else zone_lists s z l')"
  "q \<noteq> p \<Longrightarrow> mem_map (snd (raw_pagevec_lru_add_fn p l s)) q = mem_map s q"
  "pg_zonenum (mem_map (snd (raw_pagevec_lru_add_fn p l s)) q) = pg_zonenum (mem_map s q)"
  "pg_count (mem_map (snd (raw_pagevec_lru_add_fn p l s)) q) = pg_count (mem_map s q)"
  "PageCompound (snd (raw_pagevec_lru_add_fn p l s)) q = PageCompound s q"
  by (simp_all add: raw_pagevec_lru_add_fn_def Let_def SetPage_def page_zone_def PageCompound_def
      PageFlag_def)

lemma add_loop_effect:
  "zone_lists (snd (pagevec_move_loop raw_pagevec_lru_add_fn ps l s)) z l' =
     (if l' = l then rev (filter (\<lambda>p. pg_zonenum (mem_map s p) = z) ps) @ zone_lists s z l
      else zone_lists s z l')"
  "pg_count (mem_map (snd (pagevec_move_loop raw_pagevec_lru_add_fn ps l s)) q) =
     pg_count (mem_map s q)"
  "PageCompound (snd (pagevec_move_loop raw_pagevec_lru_add_fn ps l s)) q = PageCompound s q"
  by (induction ps arbitrary: s) (simp_all add: split_beta add_fn_effect)

lemma release_one_shared:
  "pg_count (mem_map s p) \<noteq> 1 \<Longrightarrow> zone_lists (release_one p s) z = zone_lists s z"
  by (simp add: release_one_def add_count_def Let_def)

lemma release_pages_loop_shared:
  assumes "distinct ps" "\<And>p. p \<in> set ps \<Longrightarrow> \<not> PageCompound s p"
    "\<And>p. p \<in> set ps \<Longrightarrow> pg_count (mem_map s p) \<noteq> 1"
  shows "zone_lists (snd (release_pages_loop ps acc s)) z = zone_lists s z"
  using assms
proof (induction ps arbitrary: acc s)
  case (Cons p ps)
  have same: "mem_map (release_one p s) r = mem_map s r" if "r \<in> set ps" for r
    using that Cons.prems(1) by (intro release_one_mem_map) auto
  have "zone_lists (snd (release_pages_loop ps acc (release_one p s))) z =
      zone_lists (release_one p s) z"
  proof (rule Cons.IH)
    show "\<not> PageCompound (release_one p s) r" if "r \<in> set ps" for r
      using that Cons.prems(2) [of r] by (simp add: PageCompound_def PageFlag_def same)
    show "pg_count (mem_map (release_one p s) r) \<noteq> 1" if "r \<in> set ps" for r
      using that Cons.prems(3) [of r] by (simp add: same)
  qed (use Cons.prems in simp)
  then show ?case
    using Cons.prems
    by (simp add: release_pages_loop_Cons release_one_shared del: release_pages_loop.simps)
qed simp

lemma lists_free_list [simp]: "node_zones (log_free_hot_cold_page_list ps cold s) = node_zones s"
  unfolding log_free_hot_cold_page_list_def by (induction ps arbitrary: s) simp_all


section \<open>Properties\<close>



text \<open>
  C8. \<^verbatim>\<open>release_pages\<close> on distinct pages outside compound pages drops one reference of each, gives back
  to the page allocator exactly the pages whose last reference that was, in the reverse of the order
  given and with the given coldness, and has taken each of them off every LRU list.
\<close>

theorem release_pages_frees_last_refs:
  assumes "lru_inv s" and "distinct ps" and "\<forall>p \<in> set ps. \<not> PageCompound s p"
  shows "calls (release_pages ps cold s) = calls s @
      map (\<lambda>p. Free_hot_cold_page p cold) (rev (filter (\<lambda>p. pg_count (mem_map s p) = 1) ps))
    \<and> (\<forall>p. pg_count (mem_map (release_pages ps cold s) p) =
           pg_count (mem_map s p) - of_bool (p \<in> set ps))
    \<and> (\<forall>p \<in> set ps. pg_count (mem_map s p) = 1 \<longrightarrow>
         (\<forall>z l. p \<notin> set (zone_lists (release_pages ps cold s) z l)))"
proof -
  let ?r = "release_pages_loop ps [] s" and ?s = "release_pages ps cold s"
  have eq: "?s = log_free_hot_cold_page_list (fst ?r) cold (snd ?r)"
    by (simp add: release_pages_def split_beta)
  note spec = release_pages_loop_spec [OF assms(2), of s, OF bspec [OF assms(3)]]
  have inv: "lru_inv ?s"
    by (rule lru_safe_inv [OF lru_safe_release_pages assms(1)])
  have "p \<notin> set (zone_lists ?s z l)" if "p \<in> set ps" "pg_count (mem_map s p) = 1" for p z l
    using spec(4) [OF _ that, of "[]"] lru_inv_memD [OF inv, of p z l]
    by (simp add: eq lru_place_def PageFlag_def)
  then show ?thesis
    using spec(1-3) [of "[]"] by (simp add: eq calls_free_list)
qed

theorem release_pages_frees_last_refs_witness:
  "calls (release_pages [3, 4] True (idle_state ())) =
     [Free_hot_cold_page 4 True, Free_hot_cold_page 3 True]"
proof -
  have "lru_inv (idle_state ())"
    using mm_inv_boot [OF lru_boot_idle_state [of "()"]] by (simp add: mm_inv_def)
  from release_pages_frees_last_refs [OF this, of "[3, 4]" True]
  show ?thesis
    by (simp add: idle_state_def idle_page_def PageCompound_def PageFlag_def)
qed

text \<open>
  \<^verbatim>\<open>__pagevec_lru_add\<close> puts the pages waiting for list \<open>l\<close> at the head of that list of their own
  zones, the last one added first, and changes no other list, when every one of them is still
  referenced by somebody else than the pagevec.
\<close>

theorem pagevec_lru_add_order:
  assumes "distinct (pv_pages pv)" and "\<forall>p \<in> set (pv_pages pv). \<not> PageCompound s p"
    and "\<forall>p \<in> set (pv_pages pv). pg_count (mem_map s p) \<noteq> 1"
  shows "zone_lists (snd (raw_pagevec_lru_add pv l s)) z l' =
    (if l' = l then rev (filter (\<lambda>p. page_zone s p = z) (pv_pages pv)) @ zone_lists s z l
     else zone_lists s z l')"
proof -
  let ?t = "snd (pagevec_move_loop raw_pagevec_lru_add_fn (pv_pages pv) l s)"
  have "zone_lists (snd (release_pages_loop (pv_pages pv) [] ?t)) z = zone_lists ?t z"
    using assms by (intro release_pages_loop_shared) (simp_all add: add_loop_effect)
  then show ?thesis
    by (simp add: raw_pagevec_lru_add_def pagevec_lru_move_fn_def release_pages_def split_beta
        add_loop_effect page_zone_def)
qed

theorem pagevec_lru_add_order_witness:
  "zone_lists (snd (raw_pagevec_lru_add \<lparr>pv_cold = False, pv_pages = [3, 5]\<rparr> LRU_ACTIVE_FILE
      (get_page 5 (get_page 3 (idle_state ()))))) 0 LRU_ACTIVE_FILE = [5, 3]"
proof -
  let ?s = "get_page 5 (get_page 3 (idle_state ()))"
  have s: "\<not> PageCompound ?s 3" "\<not> PageCompound ?s 5" "pg_count (mem_map ?s 3) = 2"
    "pg_count (mem_map ?s 5) = 2" "pg_zonenum (mem_map ?s 3) = 0" "pg_zonenum (mem_map ?s 5) = 0"
    "zone_lists ?s 0 LRU_ACTIVE_FILE = []"
    by (simp_all add: get_page_def idle_state_def idle_page_def idle_zone_def PageFlag_def
        PageCompound_def add_count_def)
  show ?thesis
    using pagevec_lru_add_order [of "\<lparr>pv_cold = False, pv_pages = [3, 5]\<rparr>" ?s LRU_ACTIVE_FILE 0
        LRU_ACTIVE_FILE] by (simp add: s page_zone_def)
qed

text \<open>
  C9. \<^verbatim>\<open>mark_page_accessed\<close> promotes at the first access: an evictable page on an inactive list goes to
  the head of the active list of its kind, both counters follow, the activation is counted, and the
  aging counter \<^verbatim>\<open>page->PG_referenced\<close> restarts from zero. (The comment above the function still
  describes two accesses.)
\<close>

theorem mark_page_accessed_activates:
  assumes "PageLRU s p" and "\<not> PageActive s p" and "\<not> PageUnevictable s p"
    and "z = page_zone s p" and "l = page_lru_base_type (mem_map s p)" and "lru_inv s"
  shows "zone_lists (mark_page_accessed p s) z (lru_plus l LRU_ACTIVE) =
           p # zone_lists s z (lru_plus l LRU_ACTIVE)
    \<and> zone_lists (mark_page_accessed p s) z l = removeAll p (zone_lists s z l)
    \<and> zone_page_state (mark_page_accessed p s) z (nr_lru l) = zone_page_state s z (nr_lru l) - 1
    \<and> zone_page_state (mark_page_accessed p s) z (nr_lru (lru_plus l LRU_ACTIVE)) =
        zone_page_state s z (nr_lru (lru_plus l LRU_ACTIVE)) + 1
    \<and> vm_event_states (mark_page_accessed p s) PGACTIVATE = vm_event_states s PGACTIVATE + 1
    \<and> mem_map (mark_page_accessed p s) p = (set_flag PG_active (mem_map s p))\<lparr>pg_referenced := 0\<rparr>"
proof -
  have neq: "lru_plus l LRU_ACTIVE \<noteq> l"
    using assms(5) by (simp add: page_lru_base_type_def)
  have off: "p \<notin> set (zone_lists s z (lru_plus l LRU_ACTIVE))"
    using lru_inv_memD [OF assms(6), of p z "lru_plus l LRU_ACTIVE"] assms(1-5) neq
    by (auto simp: lru_place_def page_lru_def PageFlag_def)
  define t where "t = add_page_to_lru_list z p (lru_plus l LRU_ACTIVE)
    (SetPage PG_active p (del_page_from_lru_list z p l s))"
  have eq: "mark_page_accessed p s = upd_page p (\<lambda>pg. pg\<lparr>pg_referenced := 0\<rparr>)
      (update_page_reclaim_stat z (page_is_file_cache (mem_map s p)) True
        (count_vm_events PGACTIVATE 1 t))"
    using assms(1-5)
    by (simp add: mark_page_accessed_def activate_page_def raw_activate_page_def Let_def t_def)
  have ev: "vm_event_states t = vm_event_states s"
    by (simp add: t_def SetPage_def add_page_to_lru_list_def del_page_from_lru_list_def lru_link_def
        lru_unlink_def mod_zone_page_state_def upd_zone_def upd_page_def)
  have ev': "vm_event_states (mark_page_accessed p s) = vm_event_states (count_vm_events PGACTIVATE 1 t)"
    by (simp add: eq upd_page_def update_page_reclaim_stat_def upd_zone_def)
  show ?thesis
    unfolding ev' using neq neq [symmetric] off
    by (simp add: eq t_def [symmetric] count_vm_events_def ev)
       (simp add: t_def SetPage_def zone_page_state_def)
qed

theorem mark_page_accessed_activates_witness:
  "zone_lists (mark_page_accessed 7 cached_state) 0 LRU_ACTIVE_FILE = [7] \<and>
   zone_lists (mark_page_accessed 7 cached_state) 0 LRU_INACTIVE_FILE = []"
  using mark_page_accessed_activates [of cached_state 7 0 LRU_INACTIVE_FILE] lru_inv_cached_state
  by (simp add: cached_state_page PageFlag_def page_zone_def page_lru_base_type_def
      page_is_file_cache_def idle_page_def)

text \<open>
  \<^verbatim>\<open>lru_deactivate_fn\<close> follows the table in the comment above it. A page that is off the LRU,
  unevictable or mapped is left alone. Any other page ends on the inactive list of its kind without
  \<^verbatim>\<open>PG_active\<close>: at the head, marked for reclaim as soon as its writeback ends, if it is dirty or under
  writeback, at the tail if it is clean.
\<close>

theorem lru_deactivate_fn_table:
  assumes "z = page_zone s p" and "l = page_lru_base_type (mem_map s p)"
    and "s' = snd (lru_deactivate_fn p () s)"
  shows "if \<not> PageLRU s p \<or> PageUnevictable s p \<or> page_mapped s p then s' = s
    else \<not> PageActive s' p \<and>
         (if PageWriteback s p \<or> PageDirty s p
          then zone_lists s' z l = p # removeAll p (zone_lists s z l) \<and> PageFlag PG_reclaim s' p
          else zone_lists s' z l = removeAll p (zone_lists s z l) @ [p] \<and>
               PageFlag PG_reclaim s' p = PageFlag PG_reclaim s p)"
proof (cases "\<not> PageLRU s p \<or> PageUnevictable s p \<or> page_mapped s p")
  case True
  then show ?thesis
    using assms(3) by (auto simp: lru_deactivate_fn_def Let_def)
next
  case False
  then show ?thesis
    unfolding assms
    by (simp add: lru_deactivate_fn_def Let_def ClearPage_def SetPage_def PageFlag_def page_zone_def
        lru_move_tail_def)
qed

theorem lru_deactivate_fn_table_witness:
  "zone_lists (snd (lru_deactivate_fn 7 () (mark_page_accessed 7 cached_state))) 0 LRU_INACTIVE_FILE
     = [7]"
proof -
  let ?s = "mark_page_accessed 7 cached_state"
  have s: "mem_map ?s 7 = set_flag PG_active (set_flag PG_lru idle_page)"
    "zone_lists ?s 0 LRU_INACTIVE_FILE = []"
    by (simp_all add: mark_page_accessed_def activate_page_def raw_activate_page_def Let_def
        cached_state_page PageFlag_def page_zone_def SetPage_def idle_page_def page_lru_base_type_def
        page_is_file_cache_def set_flag_def)
  show ?thesis
    using lru_deactivate_fn_table [of 0 ?s 7 LRU_INACTIVE_FILE "snd (lru_deactivate_fn 7 () ?s)"]
    by (simp add: s PageFlag_def page_zone_def idle_page_def page_lru_base_type_def
        page_is_file_cache_def page_mapped_def)
qed

end
