(* ===== verification/Buddy_Blocks.thy ===== *)
theory Buddy_Blocks
  imports Kernel_Prelude
begin

text \<open>
  The arithmetic of the buddy system, apart from any state: a block of order \<open>k\<close> is \<open>2 ^ k\<close> pages at a
  multiple of \<open>2 ^ k\<close>, its buddy differs from it in bit \<open>k\<close> of the page frame number, and the two form a
  block of order \<open>k + 1\<close>. A set of disjoint blocks in which no two buddies of a zone are both present is
  determined by the pages it covers; that makes ``the free pages'' an abstraction of the free lists from
  which the sizes of the blocks can be recovered.
\<close>

definition MAX_ORDER :: nat where "MAX_ORDER = 11"

definition block :: "nat \<Rightarrow> nat \<Rightarrow> nat set" where
  "block p k = {p..<p + 2 ^ k}"

lemma head_in_block [simp]: "p \<in> block p k"
  by (simp add: block_def)

lemma finite_block [simp]: "finite (block p k)" and card_block [simp]: "card (block p k) = 2 ^ k"
  by (simp_all add: block_def)

lemma block_0 [simp]: "block p 0 = {p}"
  by (auto simp: block_def)

lemma in_block_div:
  assumes "2 ^ k dvd p"
  shows "q \<in> block p k \<longleftrightarrow> q div 2 ^ k = p div 2 ^ k"
proof -
  from assms obtain m where p: "p = 2 ^ k * m" by (elim dvdE)
  have "q \<in> block p k \<longleftrightarrow> m * 2 ^ k \<le> q \<and> q < Suc m * 2 ^ k"
    by (auto simp: block_def p mult.commute)
  also have "\<dots> \<longleftrightarrow> q div 2 ^ k = m"
    by (metis div_less_iff_less_mult less_Suc_eq_le less_eq_div_iff_mult_less_eq order_antisym
        order_refl zero_less_numeral zero_less_power)
  finally show ?thesis by (simp add: p)
qed

lemma block_mono: "j \<le> k \<Longrightarrow> block p j \<subseteq> block p k"
  by (auto simp: block_def intro: order_less_le_trans)

lemma power_2_dvd_mono: "2 ^ k dvd p \<Longrightarrow> j \<le> k \<Longrightarrow> (2 :: nat) ^ j dvd p"
  using power_le_dvd by blast

text \<open>Two aligned blocks are nested or disjoint.\<close>

lemma block_nested:
  assumes "2 ^ j dvd p" "2 ^ k dvd q" "j \<le> k" "block p j \<inter> block q k \<noteq> {}"
  shows "block p j \<subseteq> block q k"
proof -
  have up: "r div 2 ^ k = r div 2 ^ j div 2 ^ (k - j)" for r :: nat
    using assms(3) by (simp flip: div_mult2_eq power_add)
  from assms(4) obtain r where "r div 2 ^ j = p div 2 ^ j" "r div 2 ^ k = q div 2 ^ k"
    using assms(1,2) by (auto simp: in_block_div)
  then show ?thesis
    using assms(1,2) by (auto simp: in_block_div up)
qed

lemma aligned_block_eq:
  assumes "2 ^ k dvd p" "2 ^ k dvd q" "q \<in> block p k"
  shows "q = p"
  using assms by (metis dvd_div_mult_self in_block_div)


section \<open>Buddies\<close>

lemma unset_bit_nat: "unset_bit k p = (if bit p k then p - 2 ^ k else p)" for p :: nat
proof (cases "bit p k")
  case True
  then have "p = set_bit k (unset_bit k p)"
    by (auto intro!: bit_eqI simp: bit_simps)
  also have "\<dots> = unset_bit k p + 2 ^ k"
    by (simp add: set_bit_eq bit_simps)
  finally show ?thesis using True by simp
next
  case False
  then have "unset_bit k p = p"
    by (auto intro!: bit_eqI simp: bit_simps)
  with False show ?thesis by simp
qed

lemma flip_bit_nat: "flip_bit k p = (if bit p k then p - 2 ^ k else p + 2 ^ k)" for p :: nat
  by (simp add: flip_bit_eq_if unset_bit_nat set_bit_eq)

lemma bit_le_nat: "bit p k \<Longrightarrow> 2 ^ k \<le> p" for p :: nat
  by (metis bit_nat_def div_less even_zero linorder_not_less)

lemma flip_bit_and: "flip_bit k p AND p = unset_bit k p" for p :: nat
  by (rule bit_eqI) (auto simp: bit_simps)

lemma flip_bit_flip_bit [simp]: "flip_bit k (flip_bit k p) = p" for p :: nat
  by (rule bit_eqI) (auto simp: bit_simps)

lemma flip_bit_neq [simp]: "flip_bit k p \<noteq> p" for p :: nat
proof -
  have "bit (flip_bit k p) k \<noteq> bit p k" by (simp add: bit_flip_bit_iff)
  then show ?thesis by auto
qed

text \<open>The code computes with the low \<^verbatim>\<open>MAX_ORDER\<close> bits of the page frame number.\<close>

lemma index_offset:
  fixes p :: nat
  assumes "k < n"
  shows "p + flip_bit k (take_bit n p) - take_bit n p = flip_bit k p"
    and "p + unset_bit k (take_bit n p) - take_bit n p = unset_bit k p"
proof -
  have bit: "bit (take_bit n p) k \<longleftrightarrow> bit p k"
    using assms by (simp add: bit_take_bit_iff)
  have le: "take_bit n p \<le> p" "bit p k \<Longrightarrow> 2 ^ k \<le> take_bit n p"
    using bit_le_nat [of "take_bit n p" k] bit by (auto simp: take_bit_nat_less_eq_self)
  show "p + flip_bit k (take_bit n p) - take_bit n p = flip_bit k p"
    "p + unset_bit k (take_bit n p) - take_bit n p = unset_bit k p"
    using le by (auto simp: flip_bit_nat unset_bit_nat bit)
qed

lemma take_bit_unset_bit: "k < n \<Longrightarrow> take_bit n (unset_bit k p) = unset_bit k (take_bit n p)" for p :: nat
  by (rule bit_eqI) (auto simp: bit_simps)

text \<open>A block and its buddy make up the block of the next order.\<close>

lemma aligned_bit: "2 ^ k dvd p \<Longrightarrow> \<not> bit p k \<longleftrightarrow> 2 ^ Suc k dvd p" for p :: nat
  by (elim dvdE) (simp add: bit_nat_def mult.commute)

lemma aligned_flip: "2 ^ k dvd p \<Longrightarrow> 2 ^ k dvd flip_bit k p" for p :: nat
  by (simp add: flip_bit_nat)

lemma aligned_unset: "2 ^ k dvd p \<Longrightarrow> 2 ^ Suc k dvd unset_bit k p" for p :: nat
  using aligned_bit [of k "unset_bit k p"] by (simp add: bit_unset_bit_iff) (simp add: unset_bit_nat)

lemma block_Suc:
  assumes "2 ^ k dvd p"
  shows "block (unset_bit k p) (Suc k) = block p k \<union> block (flip_bit k p) k"
  using bit_le_nat [of p k] by (auto simp: block_def unset_bit_nat flip_bit_nat)

lemma block_flip_disjoint: "block p k \<inter> block (flip_bit k p) k = {}"
  using bit_le_nat [of p k] by (auto simp: block_def flip_bit_nat)

lemma block_upper_half:
  "block p (Suc k) = block p k \<union> block (p + 2 ^ k) k" "block p k \<inter> block (p + 2 ^ k) k = {}"
  by (auto simp: block_def)

lemma flip_upper_half: "2 ^ Suc k dvd p \<Longrightarrow> flip_bit k (p + 2 ^ k) = p" for p :: nat
  using aligned_bit [of k p] by (metis dvd_power_le flip_bit_flip_bit flip_bit_nat le_SucI order_refl power_2_dvd_mono)


section \<open>Sets of blocks\<close>

text \<open>
  \<open>K p = Some k\<close> says that a block of order \<open>k\<close> starts at page \<open>p\<close>, and \<open>Z p\<close> is the zone of page \<open>p\<close>. The
  blocks are aligned, disjoint, and within one zone.
\<close>

definition one_zone :: "(nat \<Rightarrow> nat) \<Rightarrow> nat set \<Rightarrow> bool" where
  "one_zone Z A \<longleftrightarrow> (\<exists>z. \<forall>q\<in>A. Z q = z)"

lemma one_zoneD: "one_zone Z A \<Longrightarrow> q \<in> A \<Longrightarrow> r \<in> A \<Longrightarrow> Z q = Z r"
  by (auto simp: one_zone_def)

lemma one_zone_subset: "one_zone Z A \<Longrightarrow> B \<subseteq> A \<Longrightarrow> one_zone Z B"
  by (auto simp: one_zone_def)

lemma one_zone_Un:
  assumes "one_zone Z A" "one_zone Z B" "a \<in> A" "b \<in> B" "Z a = Z b"
  shows "one_zone Z (A \<union> B)"
  using assms unfolding one_zone_def by (metis Un_iff)

lemma one_zone_singleton [simp]: "one_zone Z {p}"
  by (simp add: one_zone_def)

definition covered :: "(nat \<Rightarrow> nat option) \<Rightarrow> nat set" where
  "covered K = {q. \<exists>p k. K p = Some k \<and> q \<in> block p k}"

definition blocks_ok :: "(nat \<Rightarrow> nat) \<Rightarrow> (nat \<Rightarrow> nat option) \<Rightarrow> bool" where
  "blocks_ok Z K \<longleftrightarrow>
     (\<forall>p k. K p = Some k \<longrightarrow> k < MAX_ORDER \<and> 2 ^ k dvd p \<and> one_zone Z (block p k)) \<and>
     (\<forall>p k q j. K p = Some k \<and> K q = Some j \<and> p \<noteq> q \<longrightarrow> block p k \<inter> block q j = {})"

definition coalesced :: "(nat \<Rightarrow> nat) \<Rightarrow> (nat \<Rightarrow> nat option) \<Rightarrow> bool" where
  "coalesced Z K \<longleftrightarrow>
     (\<forall>p k. K p = Some k \<and> K (flip_bit k p) = Some k \<and> Z (flip_bit k p) = Z p \<longrightarrow> MAX_ORDER - 1 \<le> k)"

lemma coveredI: "K p = Some k \<Longrightarrow> q \<in> block p k \<Longrightarrow> q \<in> covered K"
  by (auto simp: covered_def)

lemma not_covered_None: "p \<notin> covered K \<Longrightarrow> K p = None"
  using coveredI [of K p _ p] by (cases "K p") auto

lemma blocks_okD:
  assumes "blocks_ok Z K" "K p = Some k"
  shows "k < MAX_ORDER" "2 ^ k dvd p" "one_zone Z (block p k)"
    "K q = Some j \<Longrightarrow> p \<noteq> q \<Longrightarrow> block p k \<inter> block q j = {}"
  using assms by (auto simp: blocks_ok_def)

lemma covered_insert:
  assumes "K p = None"
  shows "covered (K(p := Some k)) = covered K \<union> block p k"
proof -
  have "(K(p := Some k)) r = Some j \<longleftrightarrow> (r = p \<and> j = k) \<or> K r = Some j" for r j
    using assms by auto
  then show ?thesis by (auto simp: covered_def)
qed

lemma covered_remove:
  assumes "blocks_ok Z K" "K p = Some k"
  shows "covered (K(p := None)) = covered K - block p k"
proof -
  have "q \<notin> block p k" if "K r = Some j" "r \<noteq> p" "q \<in> block r j" for q r j
    using blocks_okD(4) [OF assms that(1)] that(2,3) by blast
  moreover have "covered (K(p := None)) = {q. \<exists>r j. r \<noteq> p \<and> K r = Some j \<and> q \<in> block r j}"
    by (simp add: covered_def) metis
  moreover have "covered K = {q. \<exists>r j. r \<noteq> p \<and> K r = Some j \<and> q \<in> block r j} \<union> block p k"
    using assms(2) by (auto simp: covered_def) (metis option.inject)
  ultimately show ?thesis by blast
qed

lemma blocks_ok_remove: "blocks_ok Z K \<Longrightarrow> blocks_ok Z (K(p := None))"
  by (auto simp: blocks_ok_def)

lemma blocks_ok_insert:
  assumes "blocks_ok Z K" "k < MAX_ORDER" "2 ^ k dvd p" "one_zone Z (block p k)"
    "block p k \<inter> covered K = {}"
  shows "blocks_ok Z (K(p := Some k))"
proof -
  have "block p k \<inter> block q j = {}" if "K q = Some j" for q j
    using assms(5) coveredI [of K q j] that by blast
  moreover have "block q j \<inter> block p k = {}" if "K q = Some j" for q j
    using calculation [OF that] by blast
  ultimately have "(K(p := Some k)) q = Some i \<Longrightarrow> (K(p := Some k)) r = Some j \<Longrightarrow> q \<noteq> r \<Longrightarrow>
      block q i \<inter> block r j = {}" for q i r j
    using blocks_okD(4) [OF assms(1)] by (cases "q = p"; cases "r = p") simp_all
  moreover have "(K(p := Some k)) q = Some j \<Longrightarrow> j < MAX_ORDER \<and> 2 ^ j dvd q \<and> one_zone Z (block q j)"
    for q j
    using blocks_okD [OF assms(1), of q j] assms(2-4) by (cases "q = p") auto
  ultimately show ?thesis unfolding blocks_ok_def by blast
qed

lemma coalesced_remove: "coalesced Z K \<Longrightarrow> coalesced Z (K(p := None))"
  by (auto simp: coalesced_def)

lemma coalesced_insert:
  assumes "coalesced Z K"
    and "k < MAX_ORDER - 1 \<Longrightarrow> K (flip_bit k p) = Some k \<Longrightarrow> Z (flip_bit k p) = Z p \<Longrightarrow> False"
  shows "coalesced Z (K(p := Some k))"
proof -
  have "MAX_ORDER - 1 \<le> j"
    if "(K(p := Some k)) q = Some j" "(K(p := Some k)) (flip_bit j q) = Some j" "Z (flip_bit j q) = Z q"
    for q j
  proof (cases "q = p \<or> flip_bit j q = p")
    case True
    then have "j = k \<and> K (flip_bit k p) = Some k \<and> Z (flip_bit k p) = Z p"
      using that by (auto split: if_splits)
    then show ?thesis using assms(2) by (metis linorder_not_less)
  next
    case False
    then show ?thesis using assms(1) that by (simp add: coalesced_def)
  qed
  then show ?thesis unfolding coalesced_def by blast
qed

text \<open>In a coalesced set a covered block lies within one block of the set.\<close>

lemma within_one_block:
  assumes ok: "blocks_ok Z K" "coalesced Z K"
    and "k < MAX_ORDER" "2 ^ k dvd p" "block p k \<subseteq> covered K" "one_zone Z (block p k)"
  shows "\<exists>q j. K q = Some j \<and> k \<le> j \<and> block p k \<subseteq> block q j"
  using assms(3-6)
proof (induction k arbitrary: p)
  case 0
  then show ?case by (auto simp: covered_def)
next
  case (Suc k)
  let ?b = "p + 2 ^ k"
  have al: "2 ^ k dvd p" "2 ^ k dvd ?b"
    using Suc.prems(2) power_2_dvd_mono [of "Suc k" p k] by auto
  have sub: "block p k \<subseteq> covered K" "block ?b k \<subseteq> covered K"
    using Suc.prems(3) by (auto simp: block_upper_half)
  have zone: "one_zone Z (block p k)" "one_zone Z (block ?b k)" "Z ?b = Z p"
    using Suc.prems(4) one_zone_subset one_zoneD [OF Suc.prems(4), of ?b p]
    unfolding block_upper_half(1) by auto
  obtain q j where q: "K q = Some j" "k \<le> j" "block p k \<subseteq> block q j"
    using Suc.IH [OF _ al(1) sub(1) zone(1)] Suc.prems(1) by auto
  obtain q' j' where q': "K q' = Some j'" "k \<le> j'" "block ?b k \<subseteq> block q' j'"
    using Suc.IH [OF _ al(2) sub(2) zone(2)] Suc.prems(1) by auto
  have big: ?case if "K r = Some i" "Suc k \<le> i" "block s k \<subseteq> block r i" "s = p \<or> s = ?b" for r i s
  proof -
    have "s \<in> block p (Suc k) \<inter> block r i"
      using that(3,4) head_in_block unfolding block_upper_half(1) by blast
    then show ?thesis
      using block_nested [OF Suc.prems(2) blocks_okD(2) [OF ok(1) that(1)] that(2)] that by blast
  qed
  show ?case
  proof (cases "Suc k \<le> j \<or> Suc k \<le> j'")
    case True
    then show ?thesis using big q q' by blast
  next
    case False
    then have j: "j = k" "j' = k" using q(2) q'(2) by auto
    have "p \<in> block q k" "?b \<in> block q' k" using q(3) q'(3) j by auto
    then have "p = q" "?b = q'"
      using aligned_block_eq [OF blocks_okD(2) [OF ok(1)]] al q(1) q'(1) j by blast+
    then have "K ?b = Some k" "K (flip_bit k ?b) = Some k" "Z (flip_bit k ?b) = Z ?b"
      using q(1) q'(1) j zone(3) flip_upper_half [OF Suc.prems(2)] by simp_all
    then have "MAX_ORDER - 1 \<le> k"
      using ok(2) unfolding coalesced_def by blast
    then show ?thesis using Suc.prems(1) by (simp add: MAX_ORDER_def)
  qed
qed

theorem covered_determines_blocks:
  assumes "blocks_ok Z K" "coalesced Z K" "blocks_ok Z K'" "coalesced Z K'" "covered K = covered K'"
  shows "K = K'"
proof -
  have "K' p = Some k"
    if ok: "blocks_ok Z K" "coalesced Z K" "blocks_ok Z K'" "coalesced Z K'" "covered K = covered K'"
      and p: "K p = Some k" for p k K K'
  proof -
    note D = blocks_okD [OF ok(1) p]
    have "block p k \<subseteq> covered K'" using coveredI [of K p k] p ok(5) by auto
    then obtain q j where q: "K' q = Some j" "k \<le> j" "block p k \<subseteq> block q j"
      using within_one_block [OF ok(3,4) D(1,2) _ D(3)] by blast
    note E = blocks_okD [OF ok(3) q(1)]
    have "block q j \<subseteq> covered K" using coveredI [of K' q j] q(1) ok(5) by auto
    then obtain r i where r: "K r = Some i" "j \<le> i" "block q j \<subseteq> block r i"
      using within_one_block [OF ok(1,2) E(1,2) _ E(3)] by blast
    have "p \<in> block p k \<inter> block r i" using q(3) r(3) head_in_block by blast
    then have "r = p" using D(4) [OF r(1)] by blast
    then have "i = k" "j = k" using r p q(2) by auto
    then have "q = p"
      using aligned_block_eq [OF D(2), of q] E(2) r(3) \<open>r = p\<close> head_in_block by blast
    then show ?thesis using q(1) \<open>j = k\<close> by simp
  qed
  note half = this
  show ?thesis
  proof
    fix p
    show "K p = K' p"
      using half [OF assms, of p] half [OF assms(3,4,1,2) assms(5) [symmetric], of p]
      by (cases "K p"; cases "K' p") auto
  qed
qed

end
