(* ===== verification/Buddy_Alloc.thy ===== *)
theory Buddy_Alloc
  imports Mm_Lru Buddy_Blocks
begin

text \<open>
  The buddy allocator of \<^verbatim>\<open>mm/page_alloc.c\<close>: merging on free, splitting on allocation, the fallback
  between migrate types, the per-processor lists of single pages, and the checks on pages that leave
  and enter the allocator.

  \<^verbatim>\<open>zone->lock\<close> and disabled interrupts make each operation atomic on the one processor. The
  configuration has no \<^verbatim>\<open>CONFIG_HOLES_IN_ZONE\<close> (so \<^verbatim>\<open>pfn_valid_within\<close> is 1) and no
  \<^verbatim>\<open>CONFIG_DEBUG_PAGEALLOC\<close> (so \<^verbatim>\<open>page_is_guard\<close> is false). Orders and indices are natural numbers.
  The contents of pages are not part of the state, so \<^verbatim>\<open>prep_zero_page\<close> has no counterpart. The result
  \<open>None\<close> of an operation means that it stops at \<^verbatim>\<open>BUG_ON\<close> or does not return.
\<close>

section \<open>Migrate types\<close>

definition MIGRATE_UNMOVABLE :: nat where "MIGRATE_UNMOVABLE = 0"
definition MIGRATE_RECLAIMABLE :: nat where "MIGRATE_RECLAIMABLE = 1"
definition MIGRATE_MOVABLE :: nat where "MIGRATE_MOVABLE = 2"
definition MIGRATE_PCPTYPES :: nat where "MIGRATE_PCPTYPES = 3"
definition MIGRATE_RESERVE :: nat where "MIGRATE_RESERVE = 3"
definition MIGRATE_ISOLATE :: nat where "MIGRATE_ISOLATE = 4"
definition MIGRATE_TYPES :: nat where "MIGRATE_TYPES = 5"

definition pageblock_order :: nat where "pageblock_order = MAX_ORDER - 1"
definition pageblock_nr_pages :: nat where "pageblock_nr_pages = 2 ^ pageblock_order"

definition PB_migrate :: nat where "PB_migrate = 0"
definition PB_migrate_end :: nat where "PB_migrate_end = PB_migrate + 3 - 1"
definition NR_PAGEBLOCK_BITS :: nat where "NR_PAGEBLOCK_BITS = PB_migrate_end + 1"

lemmas migrate_defs = MIGRATE_UNMOVABLE_def MIGRATE_RECLAIMABLE_def MIGRATE_MOVABLE_def
  MIGRATE_PCPTYPES_def MIGRATE_RESERVE_def MIGRATE_ISOLATE_def MIGRATE_TYPES_def
lemmas pageblock_defs = pageblock_order_def pageblock_nr_pages_def PB_migrate_def
  PB_migrate_end_def NR_PAGEBLOCK_BITS_def MAX_ORDER_def

text \<open>Three bits per block of pages, in the bitmap of the zone.\<close>

definition pfn_to_bitidx :: "zone \<Rightarrow> nat \<Rightarrow> nat" where
  "pfn_to_bitidx zn pfn =
     (let pfn = pfn - zone_start_pfn zn div pageblock_nr_pages * pageblock_nr_pages
      in pfn div 2 ^ pageblock_order * NR_PAGEBLOCK_BITS)"

function get_flags_loop :: "(nat \<Rightarrow> bool) \<Rightarrow> nat \<Rightarrow> nat \<Rightarrow> nat \<Rightarrow> nat \<Rightarrow> nat \<Rightarrow> nat" where
  "get_flags_loop bitmap bitidx start_bitidx end_bitidx value flags =
     (if start_bitidx \<le> end_bitidx
      then get_flags_loop bitmap bitidx (start_bitidx + 1) end_bitidx (push_bit 1 value)
             (if bitmap (bitidx + start_bitidx) then flags OR value else flags)
      else flags)"
  by pat_completeness auto
termination by (relation "measure (\<lambda>(b, i, st, en, v, f). en + 1 - st)") auto

definition get_pageblock_flags_group :: "'w mm_state \<Rightarrow> nat \<Rightarrow> nat \<Rightarrow> nat \<Rightarrow> nat" where
  "get_pageblock_flags_group s p start_bitidx end_bitidx =
     (let zn = node_zones s (page_zone s p)
      in get_flags_loop (pageblock_flags zn) (pfn_to_bitidx zn p) start_bitidx end_bitidx 1 0)"

function set_flags_loop :: "nat \<Rightarrow> nat \<Rightarrow> nat \<Rightarrow> nat \<Rightarrow> nat \<Rightarrow> (nat \<Rightarrow> bool) \<Rightarrow> (nat \<Rightarrow> bool)" where
  "set_flags_loop flags bitidx start_bitidx end_bitidx value bitmap =
     (if start_bitidx \<le> end_bitidx
      then set_flags_loop flags bitidx (start_bitidx + 1) end_bitidx (push_bit 1 value)
             (bitmap(bitidx + start_bitidx := (flags AND value \<noteq> 0)))
      else bitmap)"
  by pat_completeness auto
termination by (relation "measure (\<lambda>(f, i, st, en, v, b). en + 1 - st)") auto

definition set_pageblock_flags_group ::
    "nat \<Rightarrow> nat \<Rightarrow> nat \<Rightarrow> nat \<Rightarrow> 'w mm_state \<Rightarrow> 'w mm_state" where
  "set_pageblock_flags_group p flags start_bitidx end_bitidx s =
     upd_zone (page_zone s p)
       (\<lambda>zn. zn\<lparr>pageblock_flags :=
          set_flags_loop flags (pfn_to_bitidx zn p) start_bitidx end_bitidx 1 (pageblock_flags zn)\<rparr>) s"

definition get_pageblock_migratetype :: "'w mm_state \<Rightarrow> nat \<Rightarrow> nat" where
  "get_pageblock_migratetype s p = get_pageblock_flags_group s p PB_migrate PB_migrate_end"

definition set_pageblock_migratetype :: "nat \<Rightarrow> nat \<Rightarrow> 'w mm_state \<Rightarrow> 'w mm_state" where
  "set_pageblock_migratetype p migratetype s =
     (let migratetype = (if page_group_by_mobility_disabled s then MIGRATE_UNMOVABLE else migratetype)
      in set_pageblock_flags_group p migratetype PB_migrate PB_migrate_end s)"


section \<open>Pages of the buddy system\<close>

definition PAGE_BUDDY_MAPCOUNT_VALUE :: int where "PAGE_BUDDY_MAPCOUNT_VALUE = -128"

definition PageBuddy :: "'w mm_state \<Rightarrow> nat \<Rightarrow> bool" where
  "PageBuddy s p \<longleftrightarrow> pg_mapcount (mem_map s p) = PAGE_BUDDY_MAPCOUNT_VALUE"

definition raw_SetPageBuddy :: "nat \<Rightarrow> 'w mm_state \<Rightarrow> 'w mm_state" where
  [c_simps]: "raw_SetPageBuddy p = upd_page p (\<lambda>pg. pg\<lparr>pg_mapcount := PAGE_BUDDY_MAPCOUNT_VALUE\<rparr>)"

definition raw_ClearPageBuddy :: "nat \<Rightarrow> 'w mm_state \<Rightarrow> 'w mm_state" where
  [c_simps]: "raw_ClearPageBuddy p = upd_page p (\<lambda>pg. pg\<lparr>pg_mapcount := -1\<rparr>)"

definition reset_page_mapcount :: "nat \<Rightarrow> 'w mm_state \<Rightarrow> 'w mm_state" where
  [c_simps]: "reset_page_mapcount p = upd_page p (\<lambda>pg. pg\<lparr>pg_mapcount := -1\<rparr>)"

definition page_mapcount :: "'w mm_state \<Rightarrow> nat \<Rightarrow> int" where
  "page_mapcount s p = pg_mapcount (mem_map s p) + 1"

definition set_page_private :: "nat \<Rightarrow> ulong \<Rightarrow> 'w mm_state \<Rightarrow> 'w mm_state" where
  [c_simps]: "set_page_private p v = upd_page p (\<lambda>pg. pg\<lparr>pg_private := v\<rparr>)"

definition set_page_count :: "nat \<Rightarrow> int \<Rightarrow> 'w mm_state \<Rightarrow> 'w mm_state" where
  [c_simps]: "set_page_count p v = upd_page p (\<lambda>pg. pg\<lparr>pg_count := v\<rparr>)"

definition set_page_refcounted :: "nat \<Rightarrow> 'w mm_state \<Rightarrow> 'w mm_state" where
  [c_simps]: "set_page_refcounted p = set_page_count p 1"

definition page_order :: "'w mm_state \<Rightarrow> nat \<Rightarrow> nat" where
  "page_order s p = unat (pg_private (mem_map s p))"

definition set_page_order :: "nat \<Rightarrow> nat \<Rightarrow> 'w mm_state \<Rightarrow> 'w mm_state" where
  "set_page_order p order s = raw_SetPageBuddy p (set_page_private p (of_nat order) s)"

definition rmv_page_order :: "nat \<Rightarrow> 'w mm_state \<Rightarrow> 'w mm_state" where
  "rmv_page_order p s = set_page_private p 0 (raw_ClearPageBuddy p s)"

definition raw_find_buddy_index :: "nat \<Rightarrow> nat \<Rightarrow> nat" where
  "raw_find_buddy_index page_idx order = page_idx XOR push_bit order 1"

definition page_is_buddy :: "'w mm_state \<Rightarrow> nat \<Rightarrow> nat \<Rightarrow> nat \<Rightarrow> bool" where
  "page_is_buddy s p buddy order \<longleftrightarrow>
     page_zone s p = page_zone s buddy \<and> PageBuddy s buddy \<and> page_order s buddy = order"

text \<open>
  \<^verbatim>\<open>list_del\<close> on a page of a free list, \<^verbatim>\<open>list_add\<close> and \<^verbatim>\<open>list_add_tail\<close> to
  \<^verbatim>\<open>free_area[order].free_list[migratetype]\<close>, and the counter \<^verbatim>\<open>nr_free\<close>.
\<close>

definition free_unlink :: "nat \<Rightarrow> 'w mm_state \<Rightarrow> 'w mm_state" where
  "free_unlink p s =
     s\<lparr>node_zones := \<lambda>z. (node_zones s z)\<lparr>free_list := \<lambda>k t. removeAll p (free_list (node_zones s z) k t)\<rparr>\<rparr>"

definition free_link :: "nat \<Rightarrow> nat \<Rightarrow> nat \<Rightarrow> nat \<Rightarrow> 'w mm_state \<Rightarrow> 'w mm_state" where
  "free_link z order t p =
     upd_zone z (\<lambda>zn. zn\<lparr>free_list :=
       (free_list zn)(order := (free_list zn order)(t := p # free_list zn order t))\<rparr>)"

definition free_link_tail :: "nat \<Rightarrow> nat \<Rightarrow> nat \<Rightarrow> nat \<Rightarrow> 'w mm_state \<Rightarrow> 'w mm_state" where
  "free_link_tail z order t p =
     upd_zone z (\<lambda>zn. zn\<lparr>free_list :=
       (free_list zn)(order := (free_list zn order)(t := free_list zn order t @ [p]))\<rparr>)"

definition add_nr_free :: "nat \<Rightarrow> nat \<Rightarrow> ulong \<Rightarrow> 'w mm_state \<Rightarrow> 'w mm_state" where
  "add_nr_free z order d = upd_zone z (\<lambda>zn. zn\<lparr>nr_free := (nr_free zn)(order := nr_free zn order + d)\<rparr>)"


section \<open>Bad pages and compound pages\<close>

definition bad_page :: "nat \<Rightarrow> 'w mm_state \<Rightarrow> 'w mm_state" where
  "bad_page p s = kcall (Bad_page p) (reset_page_mapcount p s)"

definition set_compound_page_dtor :: "nat \<Rightarrow> compound_page_dtor \<Rightarrow> 'w mm_state \<Rightarrow> 'w mm_state" where
  [c_simps]: "set_compound_page_dtor p dtor = upd_page (p + 1) (\<lambda>pg. pg\<lparr>pg_lru_next := Some dtor\<rparr>)"

definition set_compound_order :: "nat \<Rightarrow> nat \<Rightarrow> 'w mm_state \<Rightarrow> 'w mm_state" where
  [c_simps]: "set_compound_order p order = upd_page (p + 1) (\<lambda>pg. pg\<lparr>pg_lru_prev := order\<rparr>)"

definition compound_order :: "'w mm_state \<Rightarrow> nat \<Rightarrow> nat" where
  "compound_order s p = (if \<not> PageHead s p then 0 else pg_lru_prev (mem_map s (p + 1)))"

definition prep_tail :: "nat \<Rightarrow> nat \<Rightarrow> 'w mm_state \<Rightarrow> 'w mm_state" where
  "prep_tail page i s =
     (let p = page + i;
          s = SetPage PG_tail p s;
          s = set_page_count p 0 s
      in upd_page p (\<lambda>pg. pg\<lparr>pg_first_page := page\<rparr>) s)"

definition prep_compound_page :: "nat \<Rightarrow> nat \<Rightarrow> 'w mm_state \<Rightarrow> 'w mm_state" where
  "prep_compound_page page order s =
     (let s = set_compound_page_dtor page Dtor_free_compound_page s;
          s = set_compound_order page order s;
          s = SetPage PG_head page s
      in fold (prep_tail page) [1..<2 ^ order] s)"

definition destroy_tail :: "nat \<Rightarrow> nat \<Rightarrow> nat \<times> 'w mm_state \<Rightarrow> nat \<times> 'w mm_state" where
  "destroy_tail page i = (\<lambda>(bad, s).
     (let p = page + i;
          (bad, s) = (if \<not> PageTail s p \<or> pg_first_page (mem_map s p) \<noteq> page
                      then (bad + 1, bad_page page s) else (bad, s))
      in (bad, ClearPage PG_tail p s)))"

definition destroy_compound_page :: "nat \<Rightarrow> nat \<Rightarrow> 'w mm_state \<Rightarrow> nat \<times> 'w mm_state" where
  "destroy_compound_page page order s =
     (let (bad, s) = (if compound_order s page \<noteq> order \<or> \<not> PageHead s page
                      then (1, bad_page page s) else (0, s));
          s = ClearPage PG_head page s
      in fold (destroy_tail page) [1..<2 ^ order] (bad, s))"


section \<open>Freeing into the buddy lists\<close>

text \<open>
  The merge loop of \<^verbatim>\<open>__free_one_page\<close>. Its result is the page, its index, the index of the last buddy
  looked at (which the code leaves uninitialised for a block of the largest order), and the order.
\<close>

function free_merge ::
    "nat \<Rightarrow> nat \<Rightarrow> nat \<Rightarrow> nat \<Rightarrow> nat \<Rightarrow> 'w mm_state \<Rightarrow> (nat \<times> nat \<times> nat \<times> nat) \<times> 'w mm_state" where
  "free_merge z page page_idx buddy_idx order s =
     (if order < MAX_ORDER - 1
      then let buddy_idx = raw_find_buddy_index page_idx order;
               buddy = page + buddy_idx - page_idx
           in if \<not> page_is_buddy s page buddy order then ((page, page_idx, buddy_idx, order), s)
              else let s = free_unlink buddy s;
                       s = add_nr_free z order (-1) s;
                       s = rmv_page_order buddy s;
                       combined_idx = buddy_idx AND page_idx;
                       page = page + combined_idx - page_idx
                   in free_merge z page combined_idx buddy_idx (order + 1) s
      else ((page, page_idx, buddy_idx, order), s))"
  by pat_completeness auto
termination by (relation "measure (\<lambda>(z, p, i, b, k, s). MAX_ORDER - k)") (auto simp: MAX_ORDER_def)

definition free_place :: "nat \<Rightarrow> nat \<Rightarrow> (nat \<times> nat \<times> nat \<times> nat) \<times> 'w mm_state \<Rightarrow> 'w mm_state" where
  "free_place z migratetype = (\<lambda>((page, page_idx, buddy_idx, order), s).
     (let s = set_page_order page order s;
          s = (if order < MAX_ORDER - 2
               then let combined_idx = buddy_idx AND page_idx;
                        higher_page = page + combined_idx - page_idx;
                        buddy_idx = raw_find_buddy_index combined_idx (order + 1);
                        higher_buddy = higher_page + buddy_idx - combined_idx
                    in if page_is_buddy s higher_page higher_buddy (order + 1)
                       then free_link_tail z order migratetype page s
                       else free_link z order migratetype page s
               else free_link z order migratetype page s)
      in add_nr_free z order 1 s))"

definition raw_free_one_page :: "nat \<Rightarrow> nat \<Rightarrow> nat \<Rightarrow> nat \<Rightarrow> 'w mm_state \<Rightarrow> 'w mm_state" where
  "raw_free_one_page page z order migratetype s =
     (let (bad, s) = (if PageCompound s page then destroy_compound_page page order s else (0, s))
      in if bad \<noteq> 0 then s
         else free_place z migratetype
                (free_merge z page (page AND (2 ^ MAX_ORDER - 1)) 0 order s))"

definition free_one_page :: "nat \<Rightarrow> nat \<Rightarrow> nat \<Rightarrow> nat \<Rightarrow> 'w mm_state \<Rightarrow> 'w mm_state" where
  "free_one_page z page order migratetype s =
     (let s = upd_zone z (\<lambda>zn. zn\<lparr>all_unreclaimable := False, pages_scanned := 0\<rparr>) s;
          s = raw_free_one_page page z order migratetype s
      in mod_zone_page_state z NR_FREE_PAGES (2 ^ order) s)"

text \<open>The checks on a page that is freed.\<close>

definition all_pageflags :: "pageflags list" where
  "all_pageflags =
     [PG_locked, PG_error, PG_referenced, PG_uptodate, PG_dirty, PG_lru, PG_active, PG_slab,
      PG_owner_priv_1, PG_arch_1, PG_reserved, PG_private, PG_private_2, PG_writeback,
      PG_head, PG_tail, PG_swapcache, PG_mappedtodisk, PG_reclaim, PG_swapbacked,
      PG_unevictable, PG_mlocked]"

definition PAGE_FLAGS_CHECK_AT_FREE :: "pageflags list" where
  "PAGE_FLAGS_CHECK_AT_FREE =
     [PG_lru, PG_locked, PG_private, PG_private_2, PG_writeback, PG_reserved, PG_slab, PG_swapcache,
      PG_active, PG_unevictable, PG_mlocked]"

definition PAGE_FLAGS_CHECK_AT_PREP :: "pageflags list" where
  "PAGE_FLAGS_CHECK_AT_PREP = all_pageflags"

definition free_page_mlock :: "nat \<Rightarrow> 'w mm_state \<Rightarrow> 'w mm_state" where
  "free_page_mlock p s =
     count_vm_events UNEVICTABLE_MLOCKFREED 1 (mod_zone_page_state (page_zone s p) NR_MLOCK (-1) s)"

definition free_pages_check :: "nat \<Rightarrow> 'w mm_state \<Rightarrow> bool \<times> 'w mm_state" where
  "free_pages_check p s =
     (let pg = mem_map s p
      in if page_mapcount s p \<noteq> 0 \<or> pg_mapping pg \<noteq> Map_NULL \<or> pg_count pg \<noteq> 0 \<or>
            list_ex (pg_flags pg) PAGE_FLAGS_CHECK_AT_FREE
         then (True, bad_page p s)
         else (False,
               if list_ex (pg_flags pg) PAGE_FLAGS_CHECK_AT_PREP
               then upd_page p (\<lambda>pg. pg\<lparr>pg_flags :=
                      \<lambda>f. pg_flags pg f \<and> f \<notin> set PAGE_FLAGS_CHECK_AT_PREP\<rparr>) s
               else s))"

primrec free_check_loop :: "nat list \<Rightarrow> nat \<times> 'w mm_state \<Rightarrow> nat \<times> 'w mm_state" where
  "free_check_loop [] bs = bs"
| "free_check_loop (p # ps) bs =
     free_check_loop ps (case bs of (bad, s) \<Rightarrow>
       (case free_pages_check p s of (b, s) \<Rightarrow> (bad + (if b then 1 else 0), s)))"

definition free_pages_prepare :: "nat \<Rightarrow> nat \<Rightarrow> 'w mm_state \<Rightarrow> bool \<times> 'w mm_state" where
  "free_pages_prepare p order s =
     (let s = (if PageAnon s p then upd_page p (\<lambda>pg. pg\<lparr>pg_mapping := Map_NULL\<rparr>) s else s);
          (bad, s) = free_check_loop [p..<p + 2 ^ order] (0, s)
      in (bad = 0, s))"

definition raw_free_pages_ok :: "nat \<Rightarrow> nat \<Rightarrow> 'w mm_state \<Rightarrow> 'w mm_state" where
  "raw_free_pages_ok p order s =
     (let wasMlocked = PageMlocked s p;
          s = ClearPage PG_mlocked p s;
          (good, s) = free_pages_prepare p order s
      in if \<not> good then s
         else let s = (if wasMlocked then free_page_mlock p s else s);
                  s = count_vm_events PGFREE (2 ^ order) s
              in free_one_page (page_zone s p) p order (get_pageblock_migratetype s p) s)"

definition free_compound_page :: "nat \<Rightarrow> 'w mm_state \<Rightarrow> 'w mm_state" where
  "free_compound_page p s = raw_free_pages_ok p (compound_order s p) s"


section \<open>Allocating from the buddy lists\<close>

function expand :: "nat \<Rightarrow> nat \<Rightarrow> nat \<Rightarrow> nat \<Rightarrow> nat \<Rightarrow> 'w mm_state \<Rightarrow> 'w mm_state" where
  "expand z page low high migratetype s =
     (if low < high
      then let high = high - 1;
               half = 2 ^ high;
               s = free_link z high migratetype (page + half) s;
               s = add_nr_free z high 1 s;
               s = set_page_order (page + half) high s
           in expand z page low high migratetype s
      else s)"
  by pat_completeness auto
termination by (relation "measure (\<lambda>(z, p, l, h, t, s). h)") auto

function rmqueue_smallest_loop ::
    "nat \<Rightarrow> nat \<Rightarrow> nat \<Rightarrow> nat \<Rightarrow> 'w mm_state \<Rightarrow> nat option \<times> 'w mm_state" where
  "rmqueue_smallest_loop z order migratetype current_order s =
     (if current_order < MAX_ORDER
      then case free_list (node_zones s z) current_order migratetype of
          [] \<Rightarrow> rmqueue_smallest_loop z order migratetype (current_order + 1) s
        | page # _ \<Rightarrow>
            (let s = free_unlink page s;
                 s = rmv_page_order page s;
                 s = add_nr_free z current_order (-1) s;
                 s = expand z page order current_order migratetype s
             in (Some page, s))
      else (None, s))"
  by pat_completeness auto
termination by (relation "measure (\<lambda>(z, k, t, c, s). MAX_ORDER - c)") auto

definition raw_rmqueue_smallest ::
    "nat \<Rightarrow> nat \<Rightarrow> nat \<Rightarrow> 'w mm_state \<Rightarrow> nat option \<times> 'w mm_state" where
  "raw_rmqueue_smallest z order migratetype s = rmqueue_smallest_loop z order migratetype order s"

text \<open>
  The table has four columns and initialisers for three, so the last column is \<^verbatim>\<open>MIGRATE_UNMOVABLE\<close>, and
  so is the row of \<^verbatim>\<open>MIGRATE_ISOLATE\<close>, which has no initialiser.
\<close>

definition fallbacks :: "nat list list" where
  "fallbacks =
     [[MIGRATE_RECLAIMABLE, MIGRATE_MOVABLE, MIGRATE_RESERVE, 0],
      [MIGRATE_UNMOVABLE, MIGRATE_MOVABLE, MIGRATE_RESERVE, 0],
      [MIGRATE_RECLAIMABLE, MIGRATE_UNMOVABLE, MIGRATE_RESERVE, 0],
      [MIGRATE_RESERVE, MIGRATE_RESERVE, MIGRATE_RESERVE, 0],
      [0, 0, 0, 0]]"

function move_freepages_loop ::
    "nat \<Rightarrow> nat \<Rightarrow> nat \<Rightarrow> nat \<Rightarrow> nat \<Rightarrow> 'w mm_state \<Rightarrow> nat \<times> 'w mm_state" where
  "move_freepages_loop z page end_page migratetype pages_moved s =
     (if page \<le> end_page
      then if \<not> PageBuddy s page
           then move_freepages_loop z (page + 1) end_page migratetype pages_moved s
           else let order = page_order s page;
                    s = free_link z order migratetype page (free_unlink page s)
                in move_freepages_loop z (page + 2 ^ order) end_page migratetype
                     (pages_moved + 2 ^ order) s
      else (pages_moved, s))"
  by pat_completeness auto
termination
  by (relation "measure (\<lambda>(z, p, e, t, n, s). e + 1 - p)") (auto intro!: diff_less_mono2)

definition move_freepages ::
    "nat \<Rightarrow> nat \<Rightarrow> nat \<Rightarrow> nat \<Rightarrow> 'w mm_state \<Rightarrow> (nat \<times> 'w mm_state) option" where
  "move_freepages z start_page end_page migratetype s =
     (if page_zone s start_page \<noteq> page_zone s end_page then None
      else Some (move_freepages_loop z start_page end_page migratetype 0 s))"

definition move_freepages_block ::
    "nat \<Rightarrow> nat \<Rightarrow> nat \<Rightarrow> 'w mm_state \<Rightarrow> (nat \<times> 'w mm_state) option" where
  "move_freepages_block z page migratetype s =
     (let zn = node_zones s z;
          start_pfn = page div pageblock_nr_pages * pageblock_nr_pages;
          end_pfn = start_pfn + pageblock_nr_pages - 1;
          start_page = (if start_pfn < zone_start_pfn zn then page else start_pfn)
      in if zone_start_pfn zn + spanned_pages zn \<le> end_pfn then Some (0, s)
         else move_freepages z start_page end_pfn migratetype s)"

definition change_pageblock_range :: "nat \<Rightarrow> nat \<Rightarrow> nat \<Rightarrow> 'w mm_state \<Rightarrow> 'w mm_state" where
  "change_pageblock_range pageblock_page start_order migratetype s =
     (let nr_pageblocks = 2 ^ (start_order - pageblock_order)
      in fold (\<lambda>i. set_pageblock_migratetype (pageblock_page + i * pageblock_nr_pages) migratetype)
           [0..<nr_pageblocks] s)"

text \<open>
  What \<^verbatim>\<open>__rmqueue_fallback\<close> does with the block it has found: for a large block all free pages around it
  change to the wanted type, and the rest of the block goes to that type too.
\<close>

definition fallback_move ::
    "nat \<Rightarrow> nat \<Rightarrow> nat \<Rightarrow> nat \<Rightarrow> nat \<Rightarrow> 'w mm_state \<Rightarrow> (nat \<times> 'w mm_state) option" where
  "fallback_move z start_migratetype current_order migratetype page s =
     (if pageblock_order div 2 \<le> current_order \<or> start_migratetype = MIGRATE_RECLAIMABLE \<or>
         page_group_by_mobility_disabled s
      then case move_freepages_block z page start_migratetype s of
          None \<Rightarrow> None
        | Some (pages, s) \<Rightarrow>
            Some (start_migratetype,
              if 2 ^ (pageblock_order - 1) \<le> pages \<or> page_group_by_mobility_disabled s
              then set_pageblock_migratetype page start_migratetype s else s)
      else Some (migratetype, s))"

definition fallback_take ::
    "nat \<Rightarrow> nat \<Rightarrow> nat \<Rightarrow> nat \<Rightarrow> nat \<Rightarrow> nat \<Rightarrow> 'w mm_state \<Rightarrow> (nat option \<times> 'w mm_state) option" where
  "fallback_take z order start_migratetype current_order migratetype page s =
     (let s = add_nr_free z current_order (-1) s
      in case fallback_move z start_migratetype current_order migratetype page s of
           None \<Rightarrow> None
         | Some (migratetype, s) \<Rightarrow>
             (let s = free_unlink page s;
                  s = rmv_page_order page s;
                  s = (if pageblock_order \<le> current_order
                       then change_pageblock_range page current_order start_migratetype s else s);
                  s = expand z page order current_order migratetype s
              in Some (Some page, s)))"

fun fallback_loop ::
    "nat \<Rightarrow> nat \<Rightarrow> nat \<Rightarrow> (nat \<times> nat) list \<Rightarrow> 'w mm_state \<Rightarrow> (nat option \<times> 'w mm_state) option" where
  "fallback_loop z order start_migratetype [] s = Some (None, s)"
| "fallback_loop z order start_migratetype ((current_order, i) # cis) s =
     (let migratetype = fallbacks ! start_migratetype ! i
      in if migratetype = MIGRATE_RESERVE then fallback_loop z order start_migratetype cis s
         else case free_list (node_zones s z) current_order migratetype of
             [] \<Rightarrow> fallback_loop z order start_migratetype cis s
           | page # _ \<Rightarrow> fallback_take z order start_migratetype current_order migratetype page s)"

definition raw_rmqueue_fallback ::
    "nat \<Rightarrow> nat \<Rightarrow> nat \<Rightarrow> 'w mm_state \<Rightarrow> (nat option \<times> 'w mm_state) option" where
  "raw_rmqueue_fallback z order start_migratetype s =
     fallback_loop z order start_migratetype
       [(current_order, i). current_order \<leftarrow> rev [order..<MAX_ORDER], i \<leftarrow> [0..<MIGRATE_TYPES - 1]] s"

definition raw_rmqueue ::
    "nat \<Rightarrow> nat \<Rightarrow> nat \<Rightarrow> 'w mm_state \<Rightarrow> (nat option \<times> 'w mm_state) option" where
  "raw_rmqueue z order migratetype s =
     (case raw_rmqueue_smallest z order migratetype s of
        (Some page, s) \<Rightarrow> Some (Some page, s)
      | (None, s) \<Rightarrow>
          if migratetype = MIGRATE_RESERVE then Some (None, s)
          else case raw_rmqueue_fallback z order migratetype s of
              None \<Rightarrow> None
            | Some (Some page, s) \<Rightarrow> Some (Some page, s)
            | Some (None, s) \<Rightarrow> Some (raw_rmqueue_smallest z order MIGRATE_RESERVE s))"

declare get_flags_loop.simps [simp del] set_flags_loop.simps [simp del] free_merge.simps [simp del]
  expand.simps [simp del] rmqueue_smallest_loop.simps [simp del] move_freepages_loop.simps [simp del]

end
