(* ===== verification/Buddy_Inv.thy ===== *)
theory Buddy_Inv
  imports Buddy_Alloc
begin

text \<open>
  The invariant of the buddy system and its proof for the operations on the free lists. As for the LRU
  lists, the invariant is stated on a view of the state: the zone of a page, the order of the free block
  that starts at it, the free lists and the counters. Every operation is a sequence of four moves on
  that view: a block leaves, a block joins, a block changes its list, a counter is corrected.
\<close>

section \<open>The view\<close>

definition buddy_key :: "'w mm_state \<Rightarrow> nat \<Rightarrow> nat option" where
  "buddy_key s p = (if PageBuddy s p then Some (page_order s p) else None)"

abbreviation zone_free :: "'w mm_state \<Rightarrow> nat \<Rightarrow> nat \<Rightarrow> nat \<Rightarrow> nat list" where
  "zone_free s z k t \<equiv> free_list (node_zones s z) k t"

definition free_lists :: "'w mm_state \<Rightarrow> nat \<Rightarrow> nat \<Rightarrow> nat \<Rightarrow> nat list" where
  "free_lists s z k t = zone_free s z k t"

definition nr_frees :: "'w mm_state \<Rightarrow> nat \<Rightarrow> nat \<Rightarrow> ulong" where
  "nr_frees s z k = nr_free (node_zones s z) k"

definition free_pages :: "'w mm_state \<Rightarrow> nat set" where
  "free_pages s = covered (buddy_key s)"

definition listed ::
    "(nat \<Rightarrow> nat) \<Rightarrow> (nat \<Rightarrow> nat option) \<Rightarrow> (nat \<Rightarrow> nat \<Rightarrow> nat \<Rightarrow> nat list) \<Rightarrow> bool" where
  "listed Z K L \<longleftrightarrow>
     (\<forall>z k t. distinct (L z k t)) \<and>
     (\<forall>p z k t. p \<in> set (L z k t) \<longrightarrow> K p = Some k \<and> Z p = z \<and> t < MIGRATE_TYPES) \<and>
     (\<forall>p k. K p = Some k \<longrightarrow> (\<exists>!t. p \<in> set (L (Z p) k t)))"

definition counted ::
    "(nat \<Rightarrow> nat) \<Rightarrow> (nat \<Rightarrow> nat option) \<Rightarrow> (nat \<Rightarrow> nat \<Rightarrow> ulong) \<Rightarrow> (nat \<Rightarrow> nat \<Rightarrow> ulong) \<Rightarrow> bool" where
  "counted Z K N D \<longleftrightarrow> (\<forall>z k. N z k = of_nat (card {p. K p = Some k \<and> Z p = z}) + D z k)"

text \<open>
  \<open>buddy_upto D s\<close>: the blocks are aligned, disjoint and each in one zone, each is on one free list of
  its zone and order, and \<^verbatim>\<open>nr_free\<close> counts them, up to \<open>D\<close>.
\<close>

definition buddy_upto :: "(nat \<Rightarrow> nat \<Rightarrow> ulong) \<Rightarrow> 'w mm_state \<Rightarrow> bool" where
  "buddy_upto D s \<longleftrightarrow>
     blocks_ok (page_zone s) (buddy_key s) \<and>
     listed (page_zone s) (buddy_key s) (free_lists s) \<and>
     counted (page_zone s) (buddy_key s) (nr_frees s) D"

abbreviation buddy_ok :: "'w mm_state \<Rightarrow> bool" where
  "buddy_ok \<equiv> buddy_upto (\<lambda>z k. 0)"

abbreviation merged :: "'w mm_state \<Rightarrow> bool" where
  "merged s \<equiv> coalesced (page_zone s) (buddy_key s)"


section \<open>The moves\<close>

lemma listedD:
  assumes "listed Z K L"
  shows "distinct (L z k t)" "p \<in> set (L z k t) \<Longrightarrow> K p = Some k" "p \<in> set (L z k t) \<Longrightarrow> Z p = z"
    "p \<in> set (L z k t) \<Longrightarrow> t < MIGRATE_TYPES"
    "p \<in> set (L z k t) \<Longrightarrow> p \<in> set (L z k t') \<Longrightarrow> t = t'"
    "K p = Some k \<Longrightarrow> \<exists>t<MIGRATE_TYPES. p \<in> set (L (Z p) k t)"
  using assms unfolding listed_def by metis+

lemma listedI:
  assumes "\<And>z k t. distinct (L z k t)"
    and "\<And>p z k t. p \<in> set (L z k t) \<Longrightarrow> K p = Some k \<and> Z p = z \<and> t < MIGRATE_TYPES"
    and "\<And>p z k t t'. p \<in> set (L z k t) \<Longrightarrow> p \<in> set (L z k t') \<Longrightarrow> t = t'"
    and "\<And>p k. K p = Some k \<Longrightarrow> \<exists>t. p \<in> set (L (Z p) k t)"
  shows "listed Z K L"
  using assms unfolding listed_def by metis

lemma listed_finite:
  assumes "listed Z K L"
  shows "finite {p. K p = Some k \<and> Z p = z}"
proof (rule finite_subset)
  show "{p. K p = Some k \<and> Z p = z} \<subseteq> (\<Union>t<MIGRATE_TYPES. set (L z k t))"
    using listedD(6) [OF assms] by fastforce
qed simp

lemma listed_remove:
  assumes "listed Z K L"
  shows "listed Z (K(p := None)) (\<lambda>z k t. removeAll p (L z k t))"
proof (rule listedI)
  show "\<exists>t. q \<in> set (removeAll p (L (Z q) k t))" if "(K(p := None)) q = Some k" for q k
    using listedD(6) [OF assms, of q k] that by (auto split: if_splits)
qed (use listedD [OF assms] in \<open>auto simp: distinct_removeAll\<close>)

abbreviation upd3 :: "(nat \<Rightarrow> nat \<Rightarrow> nat \<Rightarrow> 'a) \<Rightarrow> nat \<Rightarrow> nat \<Rightarrow> nat \<Rightarrow> 'a \<Rightarrow> nat \<Rightarrow> nat \<Rightarrow> nat \<Rightarrow> 'a" where
  "upd3 L z k t xs \<equiv> L(z := (L z)(k := (L z k)(t := xs)))"

lemma upd3_apply: "upd3 L z k t xs z' k' t' = (if z' = z \<and> k' = k \<and> t' = t then xs else L z' k' t')"
  by auto

lemma listed_insert:
  assumes ok: "listed Z K L" and p: "K p = None" "t < MIGRATE_TYPES"
    and xs: "set xs = insert p (set (L (Z p) k t))" "distinct xs"
  shows "listed Z (K(p := Some k)) (upd3 L (Z p) k t xs)"
proof -
  let ?L = "upd3 L (Z p) k t xs"
  have mem: "q \<in> set (?L z j u) \<longleftrightarrow> q \<in> set (L z j u) \<or> (q = p \<and> z = Z p \<and> j = k \<and> u = t)" for q z j u
    using xs(1) by auto
  have off: "p \<notin> set (L z j u)" for z j u
    using listedD(2) [OF ok] p(1) by force
  show ?thesis
  proof (rule listedI, unfold mem)
    show "distinct (?L z j u)" for z j u
      using xs(2) listedD(1) [OF ok] by simp
    show "(K(p := Some k)) q = Some j \<and> Z q = z \<and> u < MIGRATE_TYPES"
      if "q \<in> set (L z j u) \<or> (q = p \<and> z = Z p \<and> j = k \<and> u = t)" for q z j u
      using that p(2) off listedD(2-4) [OF ok, of q z j u] by (cases "q = p") auto
    show "u = u'"
      if "q \<in> set (L z j u) \<or> (q = p \<and> z = Z p \<and> j = k \<and> u = t)"
        "q \<in> set (L z j u') \<or> (q = p \<and> z = Z p \<and> j = k \<and> u' = t)" for q z j u u'
      using that off listedD(5) [OF ok, of q z j u u'] by blast
    show "\<exists>u. q \<in> set (L (Z q) i u) \<or> (q = p \<and> Z q = Z p \<and> i = k \<and> u = t)"
      if "(K(p := Some k)) q = Some i" for q i
      using that listedD(6) [OF ok, of q i] by (cases "q = p") auto
  qed
qed

lemma add2_apply: "add2 D z k d z' k' = D z' k' + (if z' = z \<and> k' = k then d else (0 :: ulong))"
  by auto

lemma counted_remove:
  assumes "counted Z K N D" "K p = Some k" "finite {q. K q = Some k \<and> Z q = Z p}"
  shows "counted Z (K(p := None)) N (add2 D (Z p) k 1)"
proof -
  have "{q. (K(p := None)) q = Some j \<and> Z q = z} =
      (if z = Z p \<and> j = k then {q. K q = Some k \<and> Z q = Z p} - {p} else {q. K q = Some j \<and> Z q = z})" for z j
    using assms(2) by auto
  moreover have "card {q. K q = Some k \<and> Z q = Z p} = Suc (card ({q. K q = Some k \<and> Z q = Z p} - {p}))"
    using assms(2,3) by (intro card.remove) auto
  ultimately show ?thesis
    using assms(1) unfolding counted_def add2_apply by (auto simp: add.commute)
qed

lemma counted_insert:
  assumes "counted Z K N D" "K p = None" "finite {q. K q = Some k \<and> Z q = Z p}"
  shows "counted Z (K(p := Some k)) N (add2 D (Z p) k (-1))"
proof -
  have "{q. (K(p := Some k)) q = Some j \<and> Z q = z} =
      (if z = Z p \<and> j = k then insert p {q. K q = Some k \<and> Z q = Z p} else {q. K q = Some j \<and> Z q = z})" for z j
    using assms(2) by auto
  moreover have "card (insert p {q. K q = Some k \<and> Z q = Z p}) = Suc (card {q. K q = Some k \<and> Z q = Z p})"
    using assms(2,3) by (intro card_insert_disjoint) auto
  ultimately show ?thesis
    using assms(1) unfolding counted_def add2_apply by auto
qed

lemma counted_add: "counted Z K N D \<Longrightarrow> counted Z K (add2 N z k d) (add2 D z k d)"
  unfolding counted_def add2_apply by simp

text \<open>What the elementary operations do to the view.\<close>

lemma order_word: "k < MAX_ORDER \<Longrightarrow> unat (of_nat k :: ulong) = k"
  by (rule unat_of_nat_ulong) (simp add: MAX_ORDER_def)

lemma page_zone_view [simp]:
  "page_zone (set_page_order p k s) = page_zone s" "page_zone (rmv_page_order p s) = page_zone s"
  "page_zone (free_unlink p s) = page_zone s" "page_zone (free_link z k t p s) = page_zone s"
  "page_zone (free_link_tail z k t p s) = page_zone s" "page_zone (add_nr_free z k d s) = page_zone s"
  "page_zone (mod_zone_page_state z i n s) = page_zone s" "page_zone (upd_zone z g s) = page_zone s"
  by (auto simp: fun_eq_iff page_zone_def set_page_order_def rmv_page_order_def free_unlink_def free_link_def
      free_link_tail_def add_nr_free_def c_simps)

lemma buddy_key_view:
  "buddy_key (set_page_order p k s) = (buddy_key s)(p := Some (unat (of_nat k :: ulong)))"
  "buddy_key (rmv_page_order p s) = (buddy_key s)(p := None)"
  "buddy_key (free_unlink p s) = buddy_key s" "buddy_key (free_link z k t p s) = buddy_key s"
  "buddy_key (free_link_tail z k t p s) = buddy_key s" "buddy_key (add_nr_free z k d s) = buddy_key s"
  "buddy_key (mod_zone_page_state z i n s) = buddy_key s" "buddy_key (upd_zone z g s) = buddy_key s"
  by (auto simp: fun_eq_iff buddy_key_def PageBuddy_def page_order_def set_page_order_def rmv_page_order_def
      free_unlink_def free_link_def free_link_tail_def add_nr_free_def PAGE_BUDDY_MAPCOUNT_VALUE_def c_simps)

lemma free_lists_view:
  "free_lists (set_page_order p k s) = free_lists s" "free_lists (rmv_page_order p s) = free_lists s"
  "free_lists (free_unlink p s) = (\<lambda>z k t. removeAll p (free_lists s z k t))"
  "free_lists (free_link z k t p s) = upd3 (free_lists s) z k t (p # free_lists s z k t)"
  "free_lists (free_link_tail z k t p s) = upd3 (free_lists s) z k t (free_lists s z k t @ [p])"
  "free_lists (add_nr_free z k d s) = free_lists s"
  "free_lists (mod_zone_page_state z i n s) = free_lists s"
  by (auto simp: fun_eq_iff free_lists_def set_page_order_def rmv_page_order_def mod_zone_page_state_def
      free_unlink_def free_link_def free_link_tail_def add_nr_free_def upd_zone_def c_simps)

lemma nr_frees_view:
  "nr_frees (set_page_order p k s) = nr_frees s" "nr_frees (rmv_page_order p s) = nr_frees s"
  "nr_frees (free_unlink p s) = nr_frees s" "nr_frees (free_link z k t p s) = nr_frees s"
  "nr_frees (free_link_tail z k t p s) = nr_frees s"
  "nr_frees (add_nr_free z k d s) = add2 (nr_frees s) z k d"
  "nr_frees (mod_zone_page_state z i n s) = nr_frees s"
  by (auto simp: fun_eq_iff nr_frees_def set_page_order_def rmv_page_order_def mod_zone_page_state_def
      free_unlink_def free_link_def free_link_tail_def add_nr_free_def upd_zone_def c_simps)

lemmas buddy_view = buddy_key_view free_lists_view nr_frees_view

lemma buddy_uptoD:
  assumes "buddy_upto D s"
  shows "blocks_ok (page_zone s) (buddy_key s)" "listed (page_zone s) (buddy_key s) (free_lists s)"
    "counted (page_zone s) (buddy_key s) (nr_frees s) D"
    "finite {q. buddy_key s q = Some k \<and> page_zone s q = z}"
  using assms listed_finite by (auto simp: buddy_upto_def)

text \<open>The same moves on states. The order in which the code updates list, counter and page varies.\<close>

lemma buddy_count: "buddy_upto D s \<Longrightarrow> buddy_upto (add2 D z k d) (add_nr_free z k d s)"
  by (simp add: buddy_upto_def buddy_view counted_add)

lemma buddy_take:
  assumes "buddy_upto D s" "buddy_key s p = Some k"
  shows "buddy_upto (add2 D (page_zone s p) k 1) (rmv_page_order p (free_unlink p s))"
  using buddy_uptoD [OF assms(1)] assms(2)
  by (simp add: buddy_upto_def buddy_view blocks_ok_remove listed_remove counted_remove)


section \<open>Freeing\<close>

text \<open>A block of zone \<open>z\<close> that is in nobody's free list.\<close>

definition held :: "'w mm_state \<Rightarrow> nat \<Rightarrow> nat \<Rightarrow> nat \<Rightarrow> bool" where
  "held s z p k \<longleftrightarrow>
     k < MAX_ORDER \<and> 2 ^ k dvd p \<and> page_zone s p = z \<and> one_zone (page_zone s) (block p k) \<and>
     block p k \<inter> free_pages s = {}"

lemma heldD:
  assumes "held s z p k"
  shows "k < MAX_ORDER" "2 ^ k dvd p" "page_zone s p = z" "one_zone (page_zone s) (block p k)"
    "block p k \<inter> free_pages s = {}" "buddy_key s p = None"
proof -
  have "p \<notin> free_pages s" using assms head_in_block unfolding held_def by blast
  then show "buddy_key s p = None" by (simp add: free_pages_def not_covered_None)
qed (use assms in \<open>simp_all add: held_def\<close>)

lemma add2_undo [simp]: "add2 (add2 D z k d) z k (- d) = (D :: nat \<Rightarrow> nat \<Rightarrow> ulong)"
  "add2 (add2 D z k (- d)) z k d = (D :: nat \<Rightarrow> nat \<Rightarrow> ulong)"
  by (auto simp: fun_eq_iff)

definition take_block :: "nat \<Rightarrow> nat \<Rightarrow> nat \<Rightarrow> 'w mm_state \<Rightarrow> 'w mm_state" where
  "take_block z k p s = rmv_page_order p (add_nr_free z k (-1) (free_unlink p s))"

lemma take_block_view [simp]:
  "page_zone (take_block z k p s) = page_zone s"
  "buddy_key (take_block z k p s) = (buddy_key s)(p := None)"
  by (simp_all add: take_block_def buddy_view)

lemma take_block_ok:
  assumes ok: "buddy_upto D s" and p: "buddy_key s p = Some k" "page_zone s p = z"
  shows "buddy_upto D (take_block z k p s)"
    and "free_pages (take_block z k p s) = free_pages s - block p k"
    and "merged s \<Longrightarrow> merged (take_block z k p s)"
    and "block p k \<subseteq> free_pages s" and "held (take_block z k p s) z p k"
proof -
  note D = buddy_uptoD [OF ok]
  have "counted (page_zone s) ((buddy_key s)(p := None)) (add2 (nr_frees s) z k (-1)) (add2 (add2 D z k 1) z k (-1))"
    using counted_add [OF counted_remove [OF D(3) p(1) D(4)]] p(2) by blast
  then show "buddy_upto D (take_block z k p s)"
    unfolding buddy_upto_def take_block_def
    using D blocks_ok_remove listed_remove by (simp add: buddy_view del: add2_cancel fun_upd_upd)
  show fp: "free_pages (take_block z k p s) = free_pages s - block p k"
    using covered_remove [OF D(1) p(1)] by (simp add: free_pages_def)
  show "merged s \<Longrightarrow> merged (take_block z k p s)" by (simp add: coalesced_remove)
  show "block p k \<subseteq> free_pages s" using coveredI [of "buddy_key s" p k] p(1) by (auto simp: free_pages_def)
  show "held (take_block z k p s) z p k"
    using blocks_okD [OF D(1) p(1)] p(2) fp by (auto simp: held_def)
qed

lemma held_merge:
  assumes ok: "buddy_upto D s" and p: "held s z p k" "k < MAX_ORDER - 1"
    and b: "buddy_key s (flip_bit k p) = Some k" "page_zone s (flip_bit k p) = z"
  defines "s' \<equiv> take_block z k (flip_bit k p) s"
  shows "held s' z (unset_bit k p) (Suc k)"
    and "free_pages s' \<union> block (unset_bit k p) (Suc k) = free_pages s \<union> block p k"
proof -
  note H = heldD [OF p(1)] and T = take_block_ok [OF ok b]
  have blk: "block (unset_bit k p) (Suc k) = block p k \<union> block (flip_bit k p) k"
    using block_Suc [OF H(2)] .
  have zone: "one_zone (page_zone s) (block (unset_bit k p) (Suc k))"
    unfolding blk using H(3,4) b(2) blocks_okD(3) [OF buddy_uptoD(1) [OF ok] b(1)]
    by (intro one_zone_Un [of _ _ _ p "flip_bit k p"]) auto
  moreover have "page_zone s (unset_bit k p) = page_zone s p"
    using one_zoneD [OF zone, of "unset_bit k p" p] blk by (metis UnI1 head_in_block)
  ultimately show "held s' z (unset_bit k p) (Suc k)"
    unfolding held_def s'_def
    using H p(2) T(2) aligned_unset [OF H(2)] blk by (auto simp: MAX_ORDER_def)
  show "free_pages s' \<union> block (unset_bit k p) (Suc k) = free_pages s \<union> block p k"
    using T(2,4) blk unfolding s'_def by blast
qed

lemma page_is_buddy_key:
  "page_is_buddy s p b k \<longleftrightarrow> page_zone s b = page_zone s p \<and> buddy_key s b = Some k"
  by (auto simp: page_is_buddy_def buddy_key_def)

lemma find_buddy_index_flip [simp]: "raw_find_buddy_index i k = flip_bit k i"
  by (simp add: raw_find_buddy_index_def flip_bit_eq_xor)

lemma free_merge_step:
  assumes "i = take_bit MAX_ORDER p"
  shows "k < MAX_ORDER - 1 \<Longrightarrow> free_merge z p i b k s =
      (if page_is_buddy s p (flip_bit k p) k
       then free_merge z (unset_bit k p) (take_bit MAX_ORDER (unset_bit k p)) (flip_bit k i) (Suc k)
              (take_block z k (flip_bit k p) s)
       else ((p, i, flip_bit k i, k), s))"
    and "\<not> k < MAX_ORDER - 1 \<Longrightarrow> free_merge z p i b k s = ((p, i, b, k), s)"
  using index_offset [of k MAX_ORDER p] unfolding assms
  by (subst free_merge.simps; simp add: Let_def flip_bit_and take_block_def take_bit_unset_bit)+

lemma free_merge_stop:
  assumes i: "i = take_bit MAX_ORDER p" and stop: "\<not> (k < MAX_ORDER - 1 \<and> page_is_buddy s p (flip_bit k p) k)"
  shows "free_merge z p i b k s = ((p, i, if k < MAX_ORDER - 1 then flip_bit k i else b, k), s)"
proof (cases "k < MAX_ORDER - 1")
  case True
  with stop have "\<not> page_is_buddy s p (flip_bit k p) k" by simp
  then show ?thesis unfolding free_merge_step(1) [OF i True] using True by simp
next
  case False
  then show ?thesis unfolding free_merge_step(2) [OF i False] by simp
qed

lemma free_merge_ok:
  assumes "free_merge z p i b k s = ((p', i', b', k'), s')"
    and "buddy_upto D s" "held s z p k" "i = take_bit MAX_ORDER p"
  shows "buddy_upto D s' \<and> held s' z p' k' \<and> i' = take_bit MAX_ORDER p' \<and> page_zone s' = page_zone s \<and>
    free_pages s' \<union> block p' k' = free_pages s \<union> block p k \<and> (merged s \<longrightarrow> merged s') \<and>
    (k' < MAX_ORDER - 1 \<longrightarrow> b' = flip_bit k' i' \<and>
       \<not> (page_zone s' (flip_bit k' p') = z \<and> buddy_key s' (flip_bit k' p') = Some k'))"
  using assms
proof (induction "MAX_ORDER - k" arbitrary: p i b k s)
  case 0
  then show ?case using heldD(1) by fastforce
next
  case (Suc n)
  note step = free_merge_step [OF Suc.prems(4)]
  show ?case
  proof (cases "k < MAX_ORDER - 1 \<and> page_is_buddy s p (flip_bit k p) k")
    case True
    let ?s = "take_block z k (flip_bit k p) s" and ?p = "unset_bit k p"
    have key: "buddy_key s (flip_bit k p) = Some k" "page_zone s (flip_bit k p) = z"
      using True heldD(3) [OF Suc.prems(3)] by (simp_all add: page_is_buddy_key)
    note T = take_block_ok [OF Suc.prems(2) key]
    note M = held_merge [OF Suc.prems(2,3) conjunct1 [OF True] key]
    have run: "free_merge z ?p (take_bit MAX_ORDER ?p) (flip_bit k i) (Suc k) ?s = ((p', i', b', k'), s')"
      using Suc.prems(1) conjunct2 [OF True] unfolding step(1) [OF conjunct1 [OF True]] by simp
    have n: "n = MAX_ORDER - Suc k" using Suc.hyps(2) by simp
    show ?thesis
      using Suc.hyps(1) [OF n run T(1) M(1) refl] M(2) T(3) by auto
  next
    case False
    have "((p, i, if k < MAX_ORDER - 1 then flip_bit k i else b, k), s) = ((p', i', b', k'), s')"
      by (rule trans [OF free_merge_stop [OF Suc.prems(4) False, symmetric] Suc.prems(1)])
    then show ?thesis
      using False Suc.prems(2-4) heldD(3) [OF Suc.prems(3)] by (auto simp: page_is_buddy_key)
  qed
qed

text \<open>A held block joins a free list of its zone and order, at either end.\<close>

lemma put_block_ok:
  assumes ok: "buddy_upto D s" and p: "held s z p k" "t < MIGRATE_TYPES"
    and xs: "xs = p # free_lists s z k t \<or> xs = free_lists s z k t @ [p]"
    and s': "page_zone s' = page_zone s" "buddy_key s' = (buddy_key s)(p := Some k)"
      "free_lists s' = upd3 (free_lists s) z k t xs" "nr_frees s' = add2 (nr_frees s) z k 1"
  shows "buddy_upto D s'" and "free_pages s' = free_pages s \<union> block p k"
    and "merged s \<Longrightarrow> (k < MAX_ORDER - 1 \<Longrightarrow> buddy_key s (flip_bit k p) = Some k \<Longrightarrow>
      page_zone s (flip_bit k p) = z \<Longrightarrow> False) \<Longrightarrow> merged s'"
proof -
  note H = heldD [OF p(1)] and B = buddy_uptoD [OF ok]
  have "p \<notin> set (free_lists s z k t)"
    using listedD(2) [OF B(2), of p z k t] H(6) by auto
  then have xs': "set xs = insert p (set (free_lists s (page_zone s p) k t))" "distinct xs"
    using xs listedD(1) [OF B(2), of z k t] H(3) by auto
  have free: "block p k \<inter> covered (buddy_key s) = {}" using H(5) by (simp add: free_pages_def)
  show "free_pages s' = free_pages s \<union> block p k"
    unfolding free_pages_def s' using covered_insert [of "buddy_key s" p k] H(6) by simp
  have "counted (page_zone s) ((buddy_key s)(p := Some k)) (add2 (nr_frees s) z k 1) (add2 (add2 D z k (-1)) z k 1)"
    using counted_add [OF counted_insert [OF B(3) H(6) B(4)]] H(3) by blast
  moreover have "listed (page_zone s) ((buddy_key s)(p := Some k)) (upd3 (free_lists s) z k t xs)"
    using listed_insert [OF B(2) H(6) p(2) xs'] H(3) by simp
  ultimately show "buddy_upto D s'"
    unfolding buddy_upto_def s'
    using blocks_ok_insert [OF B(1) H(1,2,4) free] by (simp del: add2_cancel fun_upd_upd)
  show "merged s'" if "merged s" "k < MAX_ORDER - 1 \<Longrightarrow> buddy_key s (flip_bit k p) = Some k \<Longrightarrow>
      page_zone s (flip_bit k p) = z \<Longrightarrow> False"
    unfolding s' using coalesced_insert [OF that(1)] that(2) H(3) by blast
qed

lemma free_place_ok:
  fixes i b :: nat
  assumes ok: "buddy_upto D s" and p: "held s z p k" "t < MIGRATE_TYPES"
  defines "s' \<equiv> free_place z t ((p, i, b, k), s)"
  shows "buddy_upto D s'" and "free_pages s' = free_pages s \<union> block p k" and "page_zone s' = page_zone s"
    and "merged s \<Longrightarrow> (k < MAX_ORDER - 1 \<Longrightarrow> buddy_key s (flip_bit k p) = Some k \<Longrightarrow>
      page_zone s (flip_bit k p) = z \<Longrightarrow> False) \<Longrightarrow> merged s'"
proof -
  let ?s = "set_page_order p k s"
  have cases: "s' = add_nr_free z k 1 (free_link z k t p ?s) \<or> s' = add_nr_free z k 1 (free_link_tail z k t p ?s)"
    by (auto simp: s'_def free_place_def Let_def)
  let ?xs = "free_lists s' z k t"
  have "?xs = p # free_lists s z k t \<or> ?xs = free_lists s z k t @ [p]"
    and "page_zone s' = page_zone s" "buddy_key s' = (buddy_key s)(p := Some k)"
    and "free_lists s' = upd3 (free_lists s) z k t ?xs" "nr_frees s' = add2 (nr_frees s) z k 1"
    using cases by (auto simp: buddy_view order_word [OF heldD(1) [OF p(1)]])
  note P = put_block_ok [OF ok p this]
  show "buddy_upto D s'" "free_pages s' = free_pages s \<union> block p k" by (rule P)+
  show "page_zone s' = page_zone s" by fact
  show "merged s \<Longrightarrow> (k < MAX_ORDER - 1 \<Longrightarrow> buddy_key s (flip_bit k p) = Some k \<Longrightarrow>
      page_zone s (flip_bit k p) = z \<Longrightarrow> False) \<Longrightarrow> merged s'" by (rule P(3))
qed

lemma raw_free_one_page_ok:
  assumes ok: "buddy_upto D s" and p: "held s z p k" "t < MIGRATE_TYPES" and c: "\<not> PageCompound s p"
  defines "s' \<equiv> raw_free_one_page p z k t s"
  shows "buddy_upto D s'" and "free_pages s' = free_pages s \<union> block p k" and "page_zone s' = page_zone s"
    and "merged s \<Longrightarrow> merged s'"
proof -
  obtain p' i' b' k' s1 where m: "free_merge z p (take_bit MAX_ORDER p) 0 k s = ((p', i', b', k'), s1)"
    by (metis surj_pair)
  note M = free_merge_ok [OF m ok p(1) refl]
  have s': "s' = free_place z t ((p', i', b', k'), s1)"
    using m c by (simp add: s'_def raw_free_one_page_def take_bit_eq_mask mask_eq_exp_minus_1)
  have "buddy_upto D s1" "held s1 z p' k'" using M by auto
  note P = free_place_ok [OF this p(2), of i' b', folded s']
  show "buddy_upto D s'" by (rule P(1))
  show "free_pages s' = free_pages s \<union> block p k" using P(2) M by simp
  show "page_zone s' = page_zone s" using P(3) M by simp
  show "merged s \<Longrightarrow> merged s'" using P(4) M by blast
qed


section \<open>Allocating\<close>

lemma expand_step:
  "low < high \<Longrightarrow> expand z p low high t s =
     expand z p low (high - 1) t (set_page_order (p + 2 ^ (high - 1)) (high - 1)
       (add_nr_free z (high - 1) 1 (free_link z (high - 1) t (p + 2 ^ (high - 1)) s)))"
  "\<not> low < high \<Longrightarrow> expand z p low high t s = s"
  by (subst expand.simps; simp add: Let_def)+

lemma held_halves:
  assumes "held s z p (Suc k)"
  shows "held s z p k" "held s z (p + 2 ^ k) k"
proof -
  note H = heldD [OF assms]
  have al: "2 ^ k dvd p" using H(2) power_2_dvd_mono [of "Suc k" p k] by simp
  have "page_zone s (p + 2 ^ k) = page_zone s p"
    using one_zoneD [OF H(4), of "p + 2 ^ k" p] by (simp add: block_def)
  then show "held s z p k" "held s z (p + 2 ^ k) k"
    using H al one_zone_subset [OF H(4)] unfolding held_def block_upper_half(1) by auto
qed

lemma expand_ok:
  assumes "buddy_upto D s" "held s z p high" "low \<le> high" "t < MIGRATE_TYPES"
  shows "buddy_upto D (expand z p low high t s) \<and>
    free_pages (expand z p low high t s) = free_pages s \<union> (block p high - block p low) \<and>
    page_zone (expand z p low high t s) = page_zone s \<and>
    held (expand z p low high t s) z p low \<and> (merged s \<longrightarrow> merged (expand z p low high t s))"
  using assms
proof (induction high arbitrary: s)
  case 0
  then show ?case by (simp add: expand_step(2))
next
  case (Suc k)
  show ?case
  proof (cases "low = Suc k")
    case True
    then show ?thesis using Suc.prems by (simp add: expand_step(2))
  next
    case False
    let ?q = "p + 2 ^ k"
    let ?s = "set_page_order ?q k (add_nr_free z k 1 (free_link z k t ?q s))"
    note H = held_halves [OF Suc.prems(2)] and A = heldD(2,5) [OF Suc.prems(2)]
    have P: "buddy_upto D ?s" "free_pages ?s = free_pages s \<union> block ?q k"
      using put_block_ok(1,2) [OF Suc.prems(1) H(2) Suc.prems(4), where s' = ?s and xs = "?q # free_lists s z k t"]
      by (simp_all add: buddy_view order_word [OF heldD(1) [OF H(2)]])
    have M: "merged ?s" if "merged s"
      using put_block_ok(3) [OF Suc.prems(1) H(2) Suc.prems(4), where s' = ?s and xs = "?q # free_lists s z k t"] that
        heldD(6) [OF H(1)] flip_upper_half [OF A(1)]
      by (simp add: buddy_view order_word [OF heldD(1) [OF H(2)]])
    have held: "held ?s z p k"
      using H(1) P(2) A(2) block_upper_half [of p k] unfolding held_def by auto
    have low: "low \<le> k" using Suc.prems(3) False by simp
    note sub = block_mono [OF low, of p]
    have E: "expand z p low (Suc k) t s = expand z p low k t ?s"
      using expand_step(1) [of low "Suc k" z p t s] low by simp
    show ?thesis
      unfolding E using Suc.IH [OF P(1) held low Suc.prems(4)] P(2) M sub block_upper_half [of p k]
      by auto
  qed
qed

text \<open>Taking a block off its list and splitting it, in the order of \<^verbatim>\<open>__rmqueue_smallest\<close>.\<close>

lemma take_block_alt: "add_nr_free z k (-1) (rmv_page_order p (free_unlink p s)) = take_block z k p s"
  by (simp add: take_block_def add_nr_free_def rmv_page_order_def upd_zone_def upd_page_def c_simps)

lemma take_expand_ok:
  assumes ok: "buddy_upto D s" and p: "buddy_key s p = Some k" "page_zone s p = z" "j \<le> k" "t < MIGRATE_TYPES"
  defines "s' \<equiv> expand z p j k t (take_block z k p s)"
  shows "buddy_upto D s'" "free_pages s' = free_pages s - block p j" "page_zone s' = page_zone s"
    "held s' z p j" "merged s \<Longrightarrow> merged s'" "block p j \<subseteq> free_pages s"
proof -
  note T = take_block_ok [OF ok p(1,2)]
  note E = expand_ok [OF T(1,5) p(3,4), folded s'_def]
  note sub = block_mono [OF p(3), of p]
  show "free_pages s' = free_pages s - block p j" using E T(2,4) sub by blast
  show "block p j \<subseteq> free_pages s" using T(4) sub by blast
  show "buddy_upto D s'" "page_zone s' = page_zone s" "held s' z p j" "merged s \<Longrightarrow> merged s'"
    using E T(3) by auto
qed

end
