(* ===== verification/Buddy_Frame.thy ===== *)
theory Buddy_Frame
  imports Buddy_Inv
begin

text \<open>
  What the buddy operations leave alone: of a zone they change the free lists, \<^verbatim>\<open>nr_free\<close> and the
  pageblock bits only, of a page the fields \<^verbatim>\<open>_mapcount\<close> and \<^verbatim>\<open>private\<close> only, and they touch no page
  outside the free pages and the block at hand. With that, the search for a block is proved to fail
  only when there is none.
\<close>

section \<open>Migrate types of blocks of pages\<close>

lemma get_migratetype_bits:
  "get_pageblock_migratetype s p =
     (let zn = node_zones s (page_zone s p); i = pfn_to_bitidx zn p; b = pageblock_flags zn
      in of_bool (b i) + 2 * of_bool (b (i + 1)) + 4 * of_bool (b (i + 2)))"
  by (simp add: get_pageblock_migratetype_def get_pageblock_flags_group_def Let_def PB_migrate_def
      PB_migrate_end_def get_flags_loop.simps)

lemma set_migratetype_bits:
  "set_flags_loop t i PB_migrate PB_migrate_end 1 b =
     b(i := t AND 1 \<noteq> 0, i + 1 := t AND 2 \<noteq> 0, i + 2 := t AND 4 \<noteq> 0)"
  by (simp add: PB_migrate_def PB_migrate_end_def set_flags_loop.simps)

lemma migratetype_encoding:
  "t < 8 \<Longrightarrow> of_bool (t AND 1 \<noteq> 0) + 2 * of_bool (t AND 2 \<noteq> 0) + 4 * of_bool (t AND 4 \<noteq> 0) = t" for t :: nat
proof -
  assume "t < 8"
  then have "t \<in> {0, 1, 2, 3, 4, 5, 6, 7}" by auto
  then show ?thesis by (elim insertE) simp_all
qed

definition same_pageblock :: "'w mm_state \<Rightarrow> nat \<Rightarrow> nat \<Rightarrow> bool" where
  "same_pageblock s p q \<longleftrightarrow>
     page_zone s q = page_zone s p \<and>
     pfn_to_bitidx (node_zones s (page_zone s p)) q = pfn_to_bitidx (node_zones s (page_zone s p)) p"

lemma get_set_migratetype:
  fixes s :: "'w mm_state"
  assumes "t' < 8"
  defines "t \<equiv> (if page_group_by_mobility_disabled s then MIGRATE_UNMOVABLE else t')"
  shows "get_pageblock_migratetype (set_pageblock_migratetype p t' s) q =
    (if same_pageblock s p q then t else get_pageblock_migratetype s q)"
proof -
  let ?z = "page_zone s p"
  let ?s = "set_pageblock_migratetype p t' s"
  have t: "t < 8" using assms(1) by (simp add: t_def migrate_defs)
  let ?e = "of_bool (t AND 1 \<noteq> 0) + 2 * of_bool (t AND 2 \<noteq> 0) + 4 * of_bool (t AND 4 \<noteq> 0) :: nat"
  have s': "?s = upd_zone ?z (\<lambda>zn. zn\<lparr>pageblock_flags := set_flags_loop t (pfn_to_bitidx zn p)
      PB_migrate PB_migrate_end 1 (pageblock_flags zn)\<rparr>) s"
    by (simp add: t_def set_pageblock_migratetype_def set_pageblock_flags_group_def Let_def)
  have idx: "pfn_to_bitidx zn r = 3 * (pfn_to_bitidx zn r div 3)" for zn r
    by (simp add: pfn_to_bitidx_def Let_def NR_PAGEBLOCK_BITS_def PB_migrate_end_def PB_migrate_def)
  have bitidx: "pfn_to_bitidx (zn\<lparr>pageblock_flags := b\<rparr>) r = pfn_to_bitidx zn r" for zn b r
    by (simp add: pfn_to_bitidx_def)
  show ?thesis
  proof (cases "page_zone s q = ?z")
    case False
    then show ?thesis
      unfolding get_migratetype_bits s' by (simp add: same_pageblock_def)
  next
    case True
    define i j where ij: "i = pfn_to_bitidx (node_zones s ?z) p" "j = pfn_to_bitidx (node_zones s ?z) q"
    obtain a b where ab: "i = 3 * a" "j = 3 * b" using idx ij by metis
    have apart: "j \<noteq> i + 1" "j \<noteq> i + 2" "i \<noteq> j + 1" "i \<noteq> j + 2" "j + 1 \<noteq> i + 2" "j + 2 \<noteq> i + 1"
      unfolding ab by presburger+
    have "get_pageblock_migratetype ?s q = (if i = j then ?e else get_pageblock_migratetype s q)"
      unfolding get_migratetype_bits s' Let_def set_migratetype_bits page_zone_view upd_zone_fields
      using True apart by (simp only: fun_upd_same bitidx zone.simps flip: ij) auto
    then show ?thesis
      using True migratetype_encoding [OF t] by (auto simp: same_pageblock_def simp flip: ij)
  qed
qed

text \<open>The three bits of a block of pages hold a migrate type.\<close>

definition typed :: "'w mm_state \<Rightarrow> bool" where
  "typed s \<longleftrightarrow> (\<forall>p. get_pageblock_migratetype s p < MIGRATE_TYPES)"

lemma typed_set: "t < MIGRATE_TYPES \<Longrightarrow> typed s \<Longrightarrow> typed (set_pageblock_migratetype p t s)"
  using get_set_migratetype [of t p s] by (auto simp: typed_def migrate_defs)

lemma typed_cong:
  assumes "page_zone s' = page_zone s"
    and "\<And>z. pageblock_flags (node_zones s' z) = pageblock_flags (node_zones s z)"
    and "\<And>z. zone_start_pfn (node_zones s' z) = zone_start_pfn (node_zones s z)"
  shows "typed s' = typed s"
  using assms by (simp add: typed_def get_migratetype_bits Let_def pfn_to_bitidx_def)

lemma typed_view [simp]:
  "typed (set_page_order p k s) = typed s" "typed (rmv_page_order p s) = typed s"
  "typed (free_unlink p s) = typed s" "typed (free_link z k t p s) = typed s"
  "typed (free_link_tail z k t p s) = typed s" "typed (add_nr_free z k d s) = typed s"
  by (rule typed_cong; simp add: set_page_order_def rmv_page_order_def free_unlink_def free_link_def
      free_link_tail_def add_nr_free_def page_zone_def c_simps fun_eq_iff)+


section \<open>Frames\<close>

definition erase_zone :: "zone \<Rightarrow> zone" where
  "erase_zone zn = zn\<lparr>free_list := \<lambda>_ _. [], nr_free := \<lambda>_. 0, pageblock_flags := \<lambda>_. False\<rparr>"

definition erase_page :: "page \<Rightarrow> page" where
  "erase_page pg = pg\<lparr>pg_mapcount := 0, pg_private := 0\<rparr>"

definition erase :: "'w mm_state \<Rightarrow> 'w mm_state" where
  "erase s = s\<lparr>mem_map := \<lambda>p. erase_page (mem_map s p), node_zones := \<lambda>z. erase_zone (node_zones s z)\<rparr>"

definition buddy_frame :: "nat set \<Rightarrow> 'w mm_state \<Rightarrow> 'w mm_state \<Rightarrow> bool" where
  "buddy_frame A s s' \<longleftrightarrow>
     erase s' = erase s \<and> (typed s \<longrightarrow> typed s') \<and>
     (\<forall>p. p \<notin> A \<longrightarrow> mem_map s' p = mem_map s p) \<and>
     (\<forall>p. pg_mapcount (mem_map s' p) \<in> {pg_mapcount (mem_map s p), -1, PAGE_BUDDY_MAPCOUNT_VALUE})"

lemma buddy_frame_refl [simp]: "buddy_frame A s s"
  by (simp add: buddy_frame_def)

lemma buddy_frame_trans:
  assumes "buddy_frame A s s1" "buddy_frame A s1 s2"
  shows "buddy_frame A s s2"
proof -
  have "pg_mapcount (mem_map s2 p) \<in> {pg_mapcount (mem_map s p), -1, PAGE_BUDDY_MAPCOUNT_VALUE}" for p
    using assms unfolding buddy_frame_def by (metis insert_iff singletonD)
  then show ?thesis using assms unfolding buddy_frame_def by simp
qed

lemma buddy_frame_mono: "buddy_frame A s s' \<Longrightarrow> A \<subseteq> B \<Longrightarrow> buddy_frame B s s'"
  by (auto simp: buddy_frame_def)

lemma erase_zoneD:
  assumes "erase_zone a = erase_zone b"
  shows "zone_start_pfn a = zone_start_pfn b" "spanned_pages a = spanned_pages b" "pageset a = pageset b"
    "lists a = lists b" "vm_stat a = vm_stat b" "present_pages a = present_pages b" "watermark a = watermark b"
  using arg_cong [OF assms, of zone_start_pfn] arg_cong [OF assms, of spanned_pages]
    arg_cong [OF assms, of pageset] arg_cong [OF assms, of lists] arg_cong [OF assms, of vm_stat]
    arg_cong [OF assms, of present_pages] arg_cong [OF assms, of watermark]
  by (simp_all add: erase_zone_def)

lemma erase_pageD:
  assumes "erase_page a = erase_page b"
  shows "pg_flags a = pg_flags b" "pg_zonenum a = pg_zonenum b" "pg_mapping a = pg_mapping b"
    "pg_count a = pg_count b"
  using arg_cong [OF assms, of pg_flags] arg_cong [OF assms, of pg_zonenum]
    arg_cong [OF assms, of pg_mapping] arg_cong [OF assms, of pg_count]
  by (simp_all add: erase_page_def)

lemma buddy_frameD:
  assumes "buddy_frame A s s'"
  shows "zone_start_pfn (node_zones s' z) = zone_start_pfn (node_zones s z)"
    "spanned_pages (node_zones s' z) = spanned_pages (node_zones s z)"
    "pageset (node_zones s' z) = pageset (node_zones s z)"
    "lists (node_zones s' z) = lists (node_zones s z)" "vm_stat (node_zones s' z) = vm_stat (node_zones s z)"
    "watermark (node_zones s' z) = watermark (node_zones s z)"
    "pg_flags (mem_map s' p) = pg_flags (mem_map s p)" "pg_mapping (mem_map s' p) = pg_mapping (mem_map s p)"
    "pg_count (mem_map s' p) = pg_count (mem_map s p)" "page_zone s' = page_zone s"
    "page_group_by_mobility_disabled s' = page_group_by_mobility_disabled s"
    "p \<notin> A \<Longrightarrow> mem_map s' p = mem_map s p"
    "pg_mapcount (mem_map s' p) \<in> {pg_mapcount (mem_map s p), -1, PAGE_BUDDY_MAPCOUNT_VALUE}"
    "typed s \<Longrightarrow> typed s'"
proof -
  have e: "erase s' = erase s" using assms by (simp add: buddy_frame_def)
  have z: "erase_zone (node_zones s' z) = erase_zone (node_zones s z)"
    and p: "erase_page (mem_map s' q) = erase_page (mem_map s q)" for z q
    using arg_cong [OF e, of node_zones] arg_cong [OF e, of mem_map] by (simp_all add: erase_def fun_eq_iff)
  show "page_zone s' = page_zone s" using erase_pageD(2) [OF p] by (simp add: fun_eq_iff page_zone_def)
  show "page_group_by_mobility_disabled s' = page_group_by_mobility_disabled s"
    using arg_cong [OF e, of page_group_by_mobility_disabled] by (simp add: erase_def)
  show "p \<notin> A \<Longrightarrow> mem_map s' p = mem_map s p"
    "pg_mapcount (mem_map s' p) \<in> {pg_mapcount (mem_map s p), -1, PAGE_BUDDY_MAPCOUNT_VALUE}"
    "typed s \<Longrightarrow> typed s'"
    using assms by (auto simp: buddy_frame_def)
  show "zone_start_pfn (node_zones s' z) = zone_start_pfn (node_zones s z)"
    "spanned_pages (node_zones s' z) = spanned_pages (node_zones s z)"
    "pageset (node_zones s' z) = pageset (node_zones s z)"
    "lists (node_zones s' z) = lists (node_zones s z)" "vm_stat (node_zones s' z) = vm_stat (node_zones s z)"
    "watermark (node_zones s' z) = watermark (node_zones s z)"
    using erase_zoneD [OF z] by simp_all
  show "pg_flags (mem_map s' p) = pg_flags (mem_map s p)" "pg_mapping (mem_map s' p) = pg_mapping (mem_map s p)"
    "pg_count (mem_map s' p) = pg_count (mem_map s p)"
    using erase_pageD [OF p] by simp_all
qed

lemma frame_page [intro]:
  "p \<in> A \<Longrightarrow> buddy_frame A s (set_page_order p k s)" "p \<in> A \<Longrightarrow> buddy_frame A s (rmv_page_order p s)"
  by (auto simp: buddy_frame_def) (auto simp: erase_def fun_eq_iff set_page_order_def rmv_page_order_def
      upd_page_def erase_page_def c_simps)

lemma frame_zone [intro, simp]:
  "buddy_frame A s (free_unlink p s)" "buddy_frame A s (free_link z k t p s)"
  "buddy_frame A s (free_link_tail z k t p s)" "buddy_frame A s (add_nr_free z k d s)"
  by (auto simp: buddy_frame_def) (auto simp: erase_def fun_eq_iff free_unlink_def free_link_def free_link_tail_def
      add_nr_free_def upd_zone_def erase_zone_def Let_def)

lemma frame_migratetype: "t < MIGRATE_TYPES \<Longrightarrow> buddy_frame A s (set_pageblock_migratetype p t s)"
  by (auto simp: buddy_frame_def typed_set) (auto simp: erase_def fun_eq_iff set_pageblock_migratetype_def
      set_pageblock_flags_group_def upd_zone_def erase_zone_def Let_def)

lemma frame_take_block: "p \<in> A \<Longrightarrow> buddy_frame A s (take_block z k p s)"
  unfolding take_block_def by (meson buddy_frame_trans frame_page frame_zone)

lemma frame_free_merge:
  assumes "free_merge z p i b k s = (r, s')"
    and "buddy_upto D s" "held s z p k" "i = take_bit MAX_ORDER p" "free_pages s \<union> block p k \<subseteq> A"
  shows "buddy_frame A s s'"
  using assms
proof (induction "MAX_ORDER - k" arbitrary: p i b k s)
  case 0
  then show ?case using heldD(1) by fastforce
next
  case (Suc n)
  note step = free_merge_step [OF Suc.prems(4)]
  show ?case
  proof (cases "k < MAX_ORDER - 1 \<and> page_is_buddy s p (flip_bit k p) k")
    case True
    let ?s = "take_block z k (flip_bit k p) s" and ?p = "unset_bit k p"
    have key: "buddy_key s (flip_bit k p) = Some k" "page_zone s (flip_bit k p) = z"
      using True heldD(3) [OF Suc.prems(3)] by (simp_all add: page_is_buddy_key)
    note T = take_block_ok [OF Suc.prems(2) key]
    note M = held_merge [OF Suc.prems(2,3) conjunct1 [OF True] key]
    have run: "free_merge z ?p (take_bit MAX_ORDER ?p) (flip_bit k i) (Suc k) ?s = (r, s')"
      using Suc.prems(1) conjunct2 [OF True] unfolding step(1) [OF conjunct1 [OF True]] by simp
    have n: "n = MAX_ORDER - Suc k" using Suc.hyps(2) by simp
    have rest: "buddy_frame A ?s s'"
      using Suc.hyps(1) [OF n run T(1) M(1) refl] M(2) Suc.prems(5) by simp
    have "flip_bit k p \<in> A" using T(4) Suc.prems(5) head_in_block by blast
    then show ?thesis by (rule buddy_frame_trans [OF frame_take_block rest])
  next
    case False
    then have "s' = s" using Suc.prems(1) free_merge_stop [OF Suc.prems(4) False] by simp
    then show ?thesis by simp
  qed
qed

lemma frame_free_place:
  assumes "p \<in> A"
  shows "buddy_frame A s (free_place z t ((p, i, b, k), s))"
proof -
  let ?s = "set_page_order p k s"
  have "free_place z t ((p, i, b, k), s) = add_nr_free z k 1 (free_link z k t p ?s) \<or>
      free_place z t ((p, i, b, k), s) = add_nr_free z k 1 (free_link_tail z k t p ?s)"
    by (auto simp: free_place_def Let_def)
  then show ?thesis
    using buddy_frame_trans [OF buddy_frame_trans [OF frame_page(1) [OF assms] frame_zone(2)] frame_zone(4)]
      buddy_frame_trans [OF buddy_frame_trans [OF frame_page(1) [OF assms] frame_zone(3)] frame_zone(4)]
    by (elim disjE) simp_all
qed

lemma frame_raw_free_one_page:
  assumes ok: "buddy_upto D s" "held s z p k" "\<not> PageCompound s p"
  shows "buddy_frame (free_pages s \<union> block p k) s (raw_free_one_page p z k t s)"
proof -
  let ?A = "free_pages s \<union> block p k"
  obtain p' i' b' k' s1 where m: "free_merge z p (take_bit MAX_ORDER p) 0 k s = ((p', i', b', k'), s1)"
    by (metis surj_pair)
  have "free_pages s1 \<union> block p' k' = ?A" using free_merge_ok [OF m ok(1,2) refl] by simp
  then have p': "p' \<in> ?A" using head_in_block by blast
  have "raw_free_one_page p z k t s = free_place z t ((p', i', b', k'), s1)"
    using m ok(3) by (simp add: raw_free_one_page_def take_bit_eq_mask mask_eq_exp_minus_1)
  then show ?thesis
    using buddy_frame_trans [OF frame_free_merge [OF m ok(1,2) refl order_refl] frame_free_place [OF p']]
    by simp
qed

lemma frame_expand:
  assumes "block p high \<subseteq> A"
  shows "buddy_frame A s (expand z p low high t s)"
  using assms
proof (induction high arbitrary: s)
  case 0
  then show ?case by (simp add: expand_step(2))
next
  case (Suc k)
  let ?q = "p + 2 ^ k"
  let ?s = "set_page_order ?q k (add_nr_free z k 1 (free_link z k t ?q s))"
  have "?q \<in> A" "block p k \<subseteq> A" using Suc.prems by (auto simp: block_def)
  then have "buddy_frame A s ?s" "buddy_frame A ?s (expand z p low k t ?s)"
    using Suc.IH buddy_frame_trans [OF frame_zone(2) buddy_frame_trans [OF frame_zone(4) frame_page(1)]]
    by simp_all
  then have "buddy_frame A s (expand z p low k t ?s)" by (rule buddy_frame_trans)
  then show ?case
    using expand_step(1) [of low "Suc k" z p t s] expand_step(2) [of low "Suc k" z p t s]
    by (cases "low < Suc k") simp_all
qed


section \<open>Moving blocks between migrate types\<close>

text \<open>The pages of a zone are those of its span.\<close>

definition zone_spans :: "'w mm_state \<Rightarrow> nat \<Rightarrow> bool" where
  "zone_spans s z \<longleftrightarrow>
     (let zn = node_zones s z
      in (\<forall>q. page_zone s q = z \<longrightarrow> zone_start_pfn zn \<le> q) \<and>
         (\<forall>q. zone_start_pfn zn \<le> q \<and> q < zone_start_pfn zn + spanned_pages zn \<longrightarrow> page_zone s q = z))"

lemma zone_spans_frame: "buddy_frame A s s' \<Longrightarrow> zone_spans s' z = zone_spans s z"
  by (simp add: zone_spans_def Let_def buddy_frameD)

lemma relist_ok:
  assumes ok: "buddy_upto D s" and p: "buddy_key s p = Some k" "page_zone s p = z" "t < MIGRATE_TYPES"
  defines "s' \<equiv> free_link z k t p (free_unlink p s)"
  shows "buddy_upto D s'" and "buddy_key s' = buddy_key s" and "page_zone s' = page_zone s"
    and "mem_map s' = mem_map s"
proof -
  note B = buddy_uptoD [OF ok]
  let ?L = "\<lambda>z k t. removeAll p (free_lists s z k t)"
  have "listed (page_zone s) ((buddy_key s)(p := None, p := Some k)) (upd3 ?L z k t (p # ?L z k t))"
    using listed_insert [OF listed_remove [OF B(2), of p], of p t "p # ?L z k t" k] p listedD(1) [OF B(2)]
    by (simp add: distinct_removeAll del: fun_upd_apply) (simp add: distinct_removeAll)
  moreover have "(buddy_key s)(p := None, p := Some k) = buddy_key s" using p(1) by auto
  ultimately show "buddy_upto D s'"
    using B unfolding buddy_upto_def s'_def buddy_view by simp
  show "buddy_key s' = buddy_key s" "page_zone s' = page_zone s" by (simp_all add: s'_def buddy_view)
  show "mem_map s' = mem_map s" by (simp add: s'_def free_unlink_def free_link_def)
qed

lemma move_freepages_loop_step:
  "q \<le> e \<Longrightarrow> move_freepages_loop z q e t n s =
     (case buddy_key s q of
        None \<Rightarrow> move_freepages_loop z (q + 1) e t n s
      | Some k \<Rightarrow> move_freepages_loop z (q + 2 ^ k) e t (n + 2 ^ k) (free_link z k t q (free_unlink q s)))"
  "\<not> q \<le> e \<Longrightarrow> move_freepages_loop z q e t n s = (n, s)"
  by (subst move_freepages_loop.simps; simp add: Let_def buddy_key_def)+

lemma move_freepages_loop_ok:
  assumes "move_freepages_loop z q e t n s = (n', s')" "buddy_upto D s" "t < MIGRATE_TYPES"
    and "\<forall>r. q \<le> r \<and> r \<le> e \<longrightarrow> page_zone s r = z"
  shows "buddy_upto D s' \<and> buddy_key s' = buddy_key s \<and> mem_map s' = mem_map s \<and> buddy_frame {} s s'"
  using assms
proof (induction "Suc e - q" arbitrary: q n s rule: less_induct)
  case less
  show ?case
  proof (cases "q \<le> e")
    case False
    have "s' = s" using less.prems(1) unfolding move_freepages_loop_step(2) [OF False] by simp
    then show ?thesis using less.prems(2) by simp
  next
    case True
    note step = move_freepages_loop_step(1) [OF True, of z t n s]
    show ?thesis
    proof (cases "buddy_key s q")
      case None
      have "move_freepages_loop z (q + 1) e t n s = (n', s')"
        using less.prems(1) unfolding step None by simp
      from less.hyps [OF _ this less.prems(2,3)] True less.prems(4) show ?thesis by auto
    next
      case (Some k)
      let ?s = "free_link z k t q (free_unlink q s)"
      have run: "move_freepages_loop z (q + 2 ^ k) e t (n + 2 ^ k) ?s = (n', s')"
        using less.prems(1) unfolding step Some by simp
      have "page_zone s q = z" using less.prems(4) True by simp
      note R = relist_ok [OF less.prems(2) Some this less.prems(3)]
      have small: "Suc e - (q + 2 ^ k) < Suc e - q" using True by (simp add: diff_less_mono2)
      have "buddy_upto D s' \<and> buddy_key s' = buddy_key ?s \<and> mem_map s' = mem_map ?s \<and> buddy_frame {} ?s s'"
        using less.hyps [OF small run R(1) less.prems(3)] less.prems(4) R(3) by simp
      then show ?thesis
        using R(2,4) buddy_frame_trans [OF buddy_frame_trans [OF frame_zone(1) frame_zone(2)]] by metis
    qed
  qed
qed


lemma pageblock_view [simp]:
  "buddy_key (set_pageblock_migratetype p t s) = buddy_key s"
  "free_lists (set_pageblock_migratetype p t s) = free_lists s"
  "nr_frees (set_pageblock_migratetype p t s) = nr_frees s"
  "page_zone (set_pageblock_migratetype p t s) = page_zone s"
  by (auto simp: set_pageblock_migratetype_def set_pageblock_flags_group_def Let_def buddy_key_view
      free_lists_def nr_frees_def fun_eq_iff)

lemma pageblock_upto [simp]: "buddy_upto D (set_pageblock_migratetype p t s) = buddy_upto D s"
  by (simp add: buddy_upto_def)

lemma change_pageblock_range_ok:
  assumes "t < MIGRATE_TYPES"
  shows
  "buddy_upto D (change_pageblock_range p k t s) = buddy_upto D s"
  "buddy_key (change_pageblock_range p k t s) = buddy_key s"
  "page_zone (change_pageblock_range p k t s) = page_zone s"
  "buddy_frame A s (change_pageblock_range p k t s)"
proof -
  have F: "buddy_upto D (fold (\<lambda>i. set_pageblock_migratetype (f i) t) xs s) = buddy_upto D s \<and>
    buddy_key (fold (\<lambda>i. set_pageblock_migratetype (f i) t) xs s) = buddy_key s \<and>
    page_zone (fold (\<lambda>i. set_pageblock_migratetype (f i) t) xs s) = page_zone s \<and>
    buddy_frame A s (fold (\<lambda>i. set_pageblock_migratetype (f i) t) xs s)" for f xs
    by (induction xs arbitrary: s) (auto intro: buddy_frame_trans [OF frame_migratetype [OF assms]])
  show "buddy_upto D (change_pageblock_range p k t s) = buddy_upto D s"
    "buddy_key (change_pageblock_range p k t s) = buddy_key s"
    "page_zone (change_pageblock_range p k t s) = page_zone s"
    "buddy_frame A s (change_pageblock_range p k t s)"
    using F [of "\<lambda>i. p + i * pageblock_nr_pages"] by (simp_all add: change_pageblock_range_def Let_def)
qed

lemma move_freepages_block_ok:
  assumes "buddy_upto D s" "zone_spans s z" "page_zone s p = z" "t < MIGRATE_TYPES"
  shows "\<exists>n s'. move_freepages_block z p t s = Some (n, s') \<and> buddy_upto D s' \<and>
    buddy_key s' = buddy_key s \<and> buddy_frame {} s s'"
proof -
  let ?zn = "node_zones s z"
  let ?b = "p div pageblock_nr_pages * pageblock_nr_pages"
  let ?st = "if ?b < zone_start_pfn ?zn then p else ?b" and ?e = "?b + pageblock_nr_pages - 1"
  show ?thesis
  proof (cases "zone_start_pfn ?zn + spanned_pages ?zn \<le> ?e")
    case True
    then show ?thesis using assms(1) by (simp add: move_freepages_block_def Let_def)
  next
    case False
    have pos: "0 < pageblock_nr_pages" by (simp add: pageblock_nr_pages_def)
    have "p < ?b + pageblock_nr_pages"
      using dividend_less_times_div [OF pos, of p] by (simp add: mult.commute add.commute)
    moreover have "zone_start_pfn ?zn \<le> p" using assms(2,3) by (simp add: zone_spans_def Let_def)
    ultimately have range: "\<forall>r. ?st \<le> r \<and> r \<le> ?e \<longrightarrow> page_zone s r = z" and le: "?st \<le> ?e"
      using assms(2) False pos by (auto simp: zone_spans_def Let_def)
    obtain n s' where run: "move_freepages_loop z ?st ?e t 0 s = (n, s')" by fastforce
    have "move_freepages_block z p t s = Some (n, s')"
      using False run range le by (simp add: move_freepages_block_def move_freepages_def Let_def)
    then show ?thesis
      using move_freepages_loop_ok [OF run assms(1,4) range] by simp
  qed
qed


section \<open>The search for a block\<close>

text \<open>
  \<open>takes s z p k s'\<close>: from \<open>s\<close> to \<open>s'\<close> exactly the block of order \<open>k\<close> at page \<open>p\<close>, of zone \<open>z\<close>, leaves the
  free pages.
\<close>

definition takes :: "'w mm_state \<Rightarrow> nat \<Rightarrow> nat \<Rightarrow> nat \<Rightarrow> 'w mm_state \<Rightarrow> bool" where
  "takes s z p k s' \<longleftrightarrow>
     held s' z p k \<and> block p k \<subseteq> free_pages s \<and> free_pages s' = free_pages s - block p k \<and>
     (merged s \<longrightarrow> merged s') \<and> buddy_frame (free_pages s) s s'"

lemma take_expand_takes:
  assumes "buddy_upto D s" "buddy_key s p = Some k" "page_zone s p = z" "j \<le> k" "t < MIGRATE_TYPES"
  shows "takes s z p j (expand z p j k t (take_block z k p s))"
proof -
  note T = take_block_ok [OF assms(1-3)]
  have "p \<in> free_pages s" using T(4) head_in_block by blast
  note buddy_frame_trans [OF frame_take_block [OF this] frame_expand [OF T(4)]]
  then show ?thesis
    using take_expand_ok [OF assms] unfolding takes_def by blast
qed

lemma smallest_loop_step:
  "c < MAX_ORDER \<Longrightarrow> zone_free s z c t = [] \<Longrightarrow>
     rmqueue_smallest_loop z k t c s = rmqueue_smallest_loop z k t (Suc c) s"
  "c < MAX_ORDER \<Longrightarrow> zone_free s z c t = p # ps \<Longrightarrow>
     rmqueue_smallest_loop z k t c s = (Some p, expand z p k c t (take_block z c p s))"
  "\<not> c < MAX_ORDER \<Longrightarrow> rmqueue_smallest_loop z k t c s = (None, s)"
  by (subst rmqueue_smallest_loop.simps; simp add: Let_def take_block_alt)+

lemma smallest_loop_cases:
  assumes "rmqueue_smallest_loop z k t c s = (r, s')"
  shows "(r = None \<and> s' = s \<and> (\<forall>j. c \<le> j \<and> j < MAX_ORDER \<longrightarrow> zone_free s z j t = [])) \<or>
    (\<exists>p j. r = Some p \<and> c \<le> j \<and> j < MAX_ORDER \<and> p \<in> set (zone_free s z j t) \<and>
       s' = expand z p k j t (take_block z j p s))"
  using assms
proof (induction "MAX_ORDER - c" arbitrary: c)
  case 0
  then have c: "\<not> c < MAX_ORDER" by simp
  show ?case using 0(2) c unfolding smallest_loop_step(3) [OF c] by auto
next
  case (Suc n)
  then have c: "c < MAX_ORDER" "n = MAX_ORDER - Suc c" by simp_all
  show ?case
  proof (cases "zone_free s z c t")
    case Nil
    have run: "rmqueue_smallest_loop z k t (Suc c) s = (r, s')"
      using Suc.prems unfolding smallest_loop_step(1) [OF c(1) Nil] .
    have "zone_free s z j t = []"
      if "\<forall>j. Suc c \<le> j \<and> j < MAX_ORDER \<longrightarrow> zone_free s z j t = []" "c \<le> j" "j < MAX_ORDER" for j
      using that Nil by (cases "j = c") auto
    then show ?thesis
      using Suc.hyps(1) [OF c(2) run] Suc_leD by blast
  next
    case (Cons p ps)
    have "r = Some p" "s' = expand z p k c t (take_block z c p s)"
      using Suc.prems unfolding smallest_loop_step(2) [OF c(1) Cons] by simp_all
    then show ?thesis using c(1) Cons by auto
  qed
qed

lemma smallest_ok:
  assumes ok: "buddy_upto D s" "t < MIGRATE_TYPES" and run: "raw_rmqueue_smallest z k t s = (r, s')"
  shows "case r of None \<Rightarrow> s' = s \<and> (\<forall>j. k \<le> j \<and> j < MAX_ORDER \<longrightarrow> zone_free s z j t = [])
    | Some p \<Rightarrow> buddy_upto D s' \<and> takes s z p k s'"
proof -
  consider "r = None" "s' = s" "\<forall>j. k \<le> j \<and> j < MAX_ORDER \<longrightarrow> zone_free s z j t = []"
    | p j where "r = Some p" "k \<le> j" "p \<in> set (zone_free s z j t)"
        "s' = expand z p k j t (take_block z j p s)"
    using smallest_loop_cases run unfolding raw_rmqueue_smallest_def by metis
  then show ?thesis
  proof cases
    case (2 p j)
    note B = buddy_uptoD(2) [OF ok(1)]
    have key: "buddy_key s p = Some j" "page_zone s p = z"
      using listedD(2,3) [OF B, of p z j t] 2(3) by (simp_all add: free_lists_def)
    show ?thesis
      using take_expand_takes [OF ok(1) key 2(2) ok(2)] take_expand_ok(1) [OF ok(1) key 2(2) ok(2)] 2(1,4)
      by simp
  qed simp
qed


lemma fallback_move_ok:
  assumes ok: "buddy_upto D s" "zone_spans s z" "page_zone s p = z" and t: "st < MIGRATE_TYPES" "mt < MIGRATE_TYPES"
  shows "\<exists>t' s'. fallback_move z st c mt p s = Some (t', s') \<and> t' < MIGRATE_TYPES \<and> buddy_upto D s' \<and>
    buddy_key s' = buddy_key s \<and> buddy_frame A s s'"
proof -
  obtain n s1 where m: "move_freepages_block z p st s = Some (n, s1)" "buddy_upto D s1"
    "buddy_key s1 = buddy_key s" "buddy_frame {} s s1"
    using move_freepages_block_ok [OF ok t(1)] by blast
  have f1: "buddy_frame A s s1" using buddy_frame_mono [OF m(4)] by simp
  have "buddy_frame A s (set_pageblock_migratetype p u s1)"
    if "u < MIGRATE_TYPES" for u using buddy_frame_trans [OF f1 frame_migratetype [OF that]] .
  then show ?thesis
    using m(1-3) f1 ok(1) t by (simp add: fallback_move_def)
qed

lemma fallback_take_ok:
  assumes ok: "buddy_upto D s" "zone_spans s z" and p: "buddy_key s p = Some c" "page_zone s p = z" "k \<le> c"
    and t: "st < MIGRATE_TYPES" "mt < MIGRATE_TYPES"
  shows "\<exists>s'. fallback_take z k st c mt p s = Some (Some p, s') \<and> buddy_upto D s' \<and> takes s z p k s'"
proof -
  let ?A = "free_pages s" and ?s0 = "add_nr_free z c (-1) s" and ?D = "add2 D z c (-1)"
  have s0: "buddy_upto ?D ?s0" "zone_spans ?s0 z" "page_zone ?s0 p = z"
    using buddy_count [OF ok(1), of z c "-1"] zone_spans_frame [OF frame_zone(4) [of "{}" s z c "-1"], of z] ok(2) p(2)
    by simp_all
  from fallback_move_ok [OF s0 t, of c ?A] obtain t' s1
    where s1: "fallback_move z st c mt p ?s0 = Some (t', s1)" "t' < MIGRATE_TYPES" "buddy_upto ?D s1"
      "buddy_key s1 = buddy_key s" "buddy_frame ?A ?s0 s1"
    unfolding buddy_key_view by blast
  let ?s2 = "rmv_page_order p (free_unlink p s1)"
  let ?s3 = "if pageblock_order \<le> c then change_pageblock_range p c st ?s2 else ?s2"
  have zone1: "page_zone s1 = page_zone s" using buddy_frameD(10) [OF s1(5)] by simp
  have s2: "buddy_upto D ?s2"
    using buddy_take [OF s1(3), of p c] p(1,2) s1(4) zone1 by (simp del: add2_cancel)
  have s3: "buddy_upto D ?s3" "buddy_key ?s3 = (buddy_key s)(p := None)" "page_zone ?s3 = page_zone s"
    using s2 zone1 s1(4) by (simp_all add: buddy_view change_pageblock_range_ok(1-3) [OF t(1)])
  note B = blocks_okD [OF buddy_uptoD(1) [OF ok(1)] p(1)]
  have f3: "free_pages ?s3 = ?A - block p c"
    unfolding free_pages_def s3(2) by (rule covered_remove [OF buddy_uptoD(1) [OF ok(1)] p(1)])
  have sub: "block p c \<subseteq> ?A" using coveredI [of "buddy_key s" p c] p(1) by (auto simp: free_pages_def)
  have held: "held ?s3 z p c" using B(1-3) p(2) f3 s3(3) by (auto simp: held_def)
  note E = expand_ok [OF s3(1) held p(3) s1(2)]
  have pA: "p \<in> ?A" using sub head_in_block by blast
  have fr2: "buddy_frame ?A s ?s2"
    by (rule buddy_frame_trans [OF buddy_frame_trans [OF buddy_frame_trans [OF frame_zone(4) s1(5)] frame_zone(1)]
          frame_page(2) [OF pA]])
  have fr: "buddy_frame ?A s ?s3"
    using fr2 buddy_frame_trans [OF fr2 change_pageblock_range_ok(4) [OF t(1)]] by simp
  have "merged s \<Longrightarrow> merged ?s3" unfolding s3(2,3) by (rule coalesced_remove)
  then have "takes s z p k (expand z p k c t' ?s3)"
    using E f3 sub buddy_frame_trans [OF fr frame_expand [OF sub]] block_mono [OF p(3), of p]
    unfolding takes_def by blast
  moreover have "fallback_take z k st c mt p s = Some (Some p, expand z p k c t' ?s3)"
    by (simp add: fallback_take_def Let_def s1(1))
  ultimately show ?thesis using E by blast
qed

lemma fallbacks_types:
  "st < MIGRATE_TYPES \<Longrightarrow> i < MIGRATE_TYPES - 1 \<Longrightarrow> fallbacks ! st ! i < MIGRATE_TYPES"
  by (auto simp: migrate_defs fallbacks_def less_Suc_eq numeral_eq_Suc)

lemma fallback_loop_ok:
  assumes ok: "buddy_upto D s" "zone_spans s z" "st < MIGRATE_TYPES"
    and "\<forall>(c, i)\<in>set cis. k \<le> c \<and> i < MIGRATE_TYPES - 1"
  shows "(fallback_loop z k st cis s = Some (None, s) \<and>
       (\<forall>(c, i)\<in>set cis. fallbacks ! st ! i \<noteq> MIGRATE_RESERVE \<longrightarrow> zone_free s z c (fallbacks ! st ! i) = [])) \<or>
    (\<exists>p s'. fallback_loop z k st cis s = Some (Some p, s') \<and> buddy_upto D s' \<and> takes s z p k s')"
  using assms(4)
proof (induction cis)
  case (Cons ci cis)
  obtain c i where ci: "ci = (c, i)" by fastforce
  let ?t = "fallbacks ! st ! i"
  show ?case
  proof (cases "?t = MIGRATE_RESERVE \<or> zone_free s z c ?t = []")
    case True
    then have "fallback_loop z k st (ci # cis) s = fallback_loop z k st cis s"
      by (auto simp: ci Let_def)
    then show ?thesis using Cons True by (auto simp: ci)
  next
    case False
    then obtain p ps where p: "zone_free s z c ?t = p # ps" by (cases "zone_free s z c ?t") auto
    have "p \<in> set (free_lists s z c ?t)" using p by (simp add: free_lists_def)
    then have key: "buddy_key s p = Some c" "page_zone s p = z"
      using listedD(2,3) [OF buddy_uptoD(2) [OF ok(1)]] by blast+
    have "fallback_loop z k st (ci # cis) s = fallback_take z k st c ?t p s"
      using False p by (simp add: ci Let_def)
    moreover have "k \<le> c" "i < MIGRATE_TYPES - 1" using Cons.prems by (simp_all add: ci)
    ultimately show ?thesis
      using fallback_take_ok [OF ok(1,2) key _ ok(3) fallbacks_types [OF ok(3)], of k i] by metis
  qed
qed simp


text \<open>The other types that a request falls back to are all but its own, reserved and isolated pages.\<close>

lemma fallbacks_cover:
  assumes "t < MIGRATE_PCPTYPES" "u < MIGRATE_PCPTYPES" "u \<noteq> t"
  shows "\<exists>i<MIGRATE_TYPES - 1. fallbacks ! t ! i = u \<and> u \<noteq> MIGRATE_RESERVE"
proof -
  have "t = 0 \<or> t = 1 \<or> t = 2" "u = 0 \<or> u = 1 \<or> u = 2"
    using assms(1,2) by (auto simp: MIGRATE_PCPTYPES_def)
  then have "(fallbacks ! t ! 0 = u \<or> fallbacks ! t ! 1 = u) \<and> u \<noteq> MIGRATE_RESERVE"
    using assms(3) by (auto simp: fallbacks_def migrate_defs)
  moreover have "(0 :: nat) < MIGRATE_TYPES - 1" "1 < MIGRATE_TYPES - 1" by (simp_all add: migrate_defs)
  ultimately show ?thesis by blast
qed

lemma no_block_of_any_type:
  assumes t: "t < MIGRATE_PCPTYPES" and own: "\<forall>j. k \<le> j \<and> j < MAX_ORDER \<longrightarrow> zone_free s z j t = []"
    and fb: "\<forall>(c, i)\<in>set [(c, i). c \<leftarrow> rev [k..<MAX_ORDER], i \<leftarrow> [0..<MIGRATE_TYPES - 1]].
      fallbacks ! t ! i \<noteq> MIGRATE_RESERVE \<longrightarrow> zone_free s z c (fallbacks ! t ! i) = []"
    and rsv: "\<forall>j. k \<le> j \<and> j < MAX_ORDER \<longrightarrow> zone_free s z j MIGRATE_RESERVE = []"
    and j: "k \<le> j" "j < MAX_ORDER" "u < MIGRATE_ISOLATE"
  shows "zone_free s z j u = []"
proof -
  consider "u = t" | "u = MIGRATE_RESERVE" | "u < MIGRATE_PCPTYPES" "u \<noteq> t"
    using j(3) unfolding migrate_defs by linarith
  then show ?thesis
  proof cases
    case 3
    then obtain i where i: "i < MIGRATE_TYPES - 1" "fallbacks ! t ! i = u" "u \<noteq> MIGRATE_RESERVE"
      using fallbacks_cover [OF t] by blast
    then have "(j, i) \<in> set [(c, i). c \<leftarrow> rev [k..<MAX_ORDER], i \<leftarrow> [0..<MIGRATE_TYPES - 1]]"
      using j(1,2) by (auto intro!: bexI [of _ j])
    from bspec [OF fb this] i show ?thesis by simp
  qed (use own rsv j in simp_all)
qed

lemma raw_rmqueue_ok:
  assumes ok: "buddy_upto D s" "zone_spans s z" and t: "t < MIGRATE_PCPTYPES"
  shows "(raw_rmqueue z k t s = Some (None, s) \<and>
       (\<forall>j u. k \<le> j \<and> j < MAX_ORDER \<and> u < MIGRATE_ISOLATE \<longrightarrow> zone_free s z j u = [])) \<or>
    (\<exists>p s'. raw_rmqueue z k t s = Some (Some p, s') \<and> buddy_upto D s' \<and> takes s z p k s')"
proof -
  have types: "t < MIGRATE_TYPES" "t \<noteq> MIGRATE_RESERVE" "MIGRATE_RESERVE < MIGRATE_TYPES"
    using t by (auto simp: migrate_defs)
  let ?cis = "[(c, i). c \<leftarrow> rev [k..<MAX_ORDER], i \<leftarrow> [0..<MIGRATE_TYPES - 1]]"
  obtain r1 s1 where S1: "raw_rmqueue_smallest z k t s = (r1, s1)" by fastforce
  obtain r2 s2 where S2: "raw_rmqueue_smallest z k MIGRATE_RESERVE s = (r2, s2)" by fastforce
  note S1' = smallest_ok [OF ok(1) types(1) S1] and S2' = smallest_ok [OF ok(1) types(3) S2]
  show ?thesis
  proof (cases r1)
    case (Some p)
    then show ?thesis using S1 S1' by (simp add: raw_rmqueue_def)
  next
    case None
    then have own: "s1 = s" "\<forall>j. k \<le> j \<and> j < MAX_ORDER \<longrightarrow> zone_free s z j t = []"
      using S1' by simp_all
    have cis: "\<forall>(c, i)\<in>set ?cis. k \<le> c \<and> i < MIGRATE_TYPES - 1" by auto
    from fallback_loop_ok [OF ok types(1) cis] show ?thesis
    proof (elim disjE conjE exE)
      assume fb: "fallback_loop z k t ?cis s = Some (None, s)"
        "\<forall>(c, i)\<in>set ?cis. fallbacks ! t ! i \<noteq> MIGRATE_RESERVE \<longrightarrow> zone_free s z c (fallbacks ! t ! i) = []"
      have run: "raw_rmqueue z k t s = Some (r2, s2)"
        using S1 S2 None own(1) fb(1) types(2) by (simp add: raw_rmqueue_def raw_rmqueue_fallback_def)
      show ?thesis
      proof (cases r2)
        case None
        then have rsv: "s2 = s" "\<forall>j. k \<le> j \<and> j < MAX_ORDER \<longrightarrow> zone_free s z j MIGRATE_RESERVE = []"
          using S2' by simp_all
        show ?thesis
          using run None rsv(1) no_block_of_any_type [OF t own(2) fb(2) rsv(2)] by blast
      qed (use run S2' in simp)
    next
      fix p s'
      assume "fallback_loop z k t ?cis s = Some (Some p, s')" "buddy_upto D s'" "takes s z p k s'"
      then show ?thesis
        using S1 None own(1) types(2) by (simp add: raw_rmqueue_def raw_rmqueue_fallback_def)
    qed
  qed
qed

end
