(* ===== verification/Buddy_Pcp.thy ===== *)
theory Buddy_Pcp
  imports Buddy_Frame
begin

text \<open>
  The per-processor lists of single pages in front of the buddy lists, and the entry points of the
  allocator for one zone: \<^verbatim>\<open>free_hot_cold_page\<close>, \<^verbatim>\<open>__free_pages\<close>, \<^verbatim>\<open>drain_pages\<close> and \<^verbatim>\<open>buffered_rmqueue\<close>.

  The loops of \<^verbatim>\<open>free_pcppages_bulk\<close> run forever when they are asked for more pages than the lists hold,
  and \<^verbatim>\<open>buffered_rmqueue\<close> starts again as long as it finds bad pages, so they are partial functions.
\<close>

section \<open>Per-processor lists\<close>

abbreviation pcp :: "'w mm_state \<Rightarrow> nat \<Rightarrow> per_cpu_pages" where
  "pcp s z \<equiv> pageset (node_zones s z)"

definition upd_pcp :: "nat \<Rightarrow> (per_cpu_pages \<Rightarrow> per_cpu_pages) \<Rightarrow> 'w mm_state \<Rightarrow> 'w mm_state" where
  "upd_pcp z f = upd_zone z (\<lambda>zn. zn\<lparr>pageset := f (pageset zn)\<rparr>)"

definition pcp_unlink :: "nat \<Rightarrow> 'w mm_state \<Rightarrow> 'w mm_state" where
  "pcp_unlink p s =
     s\<lparr>node_zones := \<lambda>z. (node_zones s z)\<lparr>pageset :=
        (pcp s z)\<lparr>pcp_lists := \<lambda>t. removeAll p (pcp_lists (pcp s z) t)\<rparr>\<rparr>\<rparr>"

definition pcp_link :: "nat \<Rightarrow> nat \<Rightarrow> nat list \<Rightarrow> 'w mm_state \<Rightarrow> 'w mm_state" where
  "pcp_link z t ps = upd_pcp z (\<lambda>pc. pc\<lparr>pcp_lists := (pcp_lists pc)(t := ps)\<rparr>)"

definition add_pcp_count :: "nat \<Rightarrow> int \<Rightarrow> 'w mm_state \<Rightarrow> 'w mm_state" where
  "add_pcp_count z d = upd_pcp z (\<lambda>pc. pc\<lparr>pcp_count := pcp_count pc + d\<rparr>)"

text \<open>The round-robin search for a list that is not empty.\<close>

partial_function (option) pcp_next_list :: "(nat \<Rightarrow> nat list) \<Rightarrow> nat \<Rightarrow> int \<Rightarrow> (nat \<times> int) option" where
  "pcp_next_list ls migratetype batch_free =
     (let batch_free = batch_free + 1;
          migratetype = (if migratetype + 1 = MIGRATE_PCPTYPES then 0 else migratetype + 1)
      in if ls migratetype = [] then pcp_next_list ls migratetype batch_free
         else Some (migratetype, batch_free))"

partial_function (option) pcp_drain_list ::
    "nat \<Rightarrow> nat \<Rightarrow> int \<Rightarrow> int \<Rightarrow> 'w mm_state \<Rightarrow> (int \<times> int \<times> 'w mm_state) option" where
  "pcp_drain_list z migratetype to_free batch_free s =
     (let page = last (pcp_lists (pcp s z) migratetype);
          s = pcp_unlink page s;
          s = raw_free_one_page page z 0 (unat (pg_private (mem_map s page))) s;
          to_free = to_free - 1
      in if to_free = 0 then Some (to_free, batch_free, s)
         else let batch_free = batch_free - 1
              in if batch_free = 0 \<or> pcp_lists (pcp s z) migratetype = []
                 then Some (to_free, batch_free, s)
                 else pcp_drain_list z migratetype to_free batch_free s)"

partial_function (option) pcp_free_loop ::
    "nat \<Rightarrow> nat \<Rightarrow> int \<Rightarrow> int \<Rightarrow> 'w mm_state \<Rightarrow> 'w mm_state option" where
  "pcp_free_loop z migratetype batch_free to_free s =
     (if to_free = 0 then Some s
      else case pcp_next_list (pcp_lists (pcp s z)) migratetype batch_free of
          None \<Rightarrow> None
        | Some (migratetype, batch_free) \<Rightarrow>
            (let batch_free = (if batch_free = int MIGRATE_PCPTYPES then to_free else batch_free)
             in case pcp_drain_list z migratetype to_free batch_free s of
                 None \<Rightarrow> None
               | Some (to_free, batch_free, s) \<Rightarrow> pcp_free_loop z migratetype batch_free to_free s))"

definition free_pcppages_bulk :: "nat \<Rightarrow> int \<Rightarrow> 'w mm_state \<Rightarrow> 'w mm_state option" where
  "free_pcppages_bulk z count s =
     (let s = upd_zone z (\<lambda>zn. zn\<lparr>all_unreclaimable := False, pages_scanned := 0\<rparr>) s
      in case pcp_free_loop z 0 0 count s of
          None \<Rightarrow> None
        | Some s \<Rightarrow> Some (mod_zone_page_state z NR_FREE_PAGES (of_int count) s))"

definition drain_zone :: "nat \<Rightarrow> 'w mm_state option \<Rightarrow> 'w mm_state option" where
  "drain_zone z so =
     (case so of
        None \<Rightarrow> None
      | Some s \<Rightarrow>
          if populated_zone s z \<and> pcp_count (pcp s z) \<noteq> 0
          then case free_pcppages_bulk z (pcp_count (pcp s z)) s of
              None \<Rightarrow> None
            | Some s \<Rightarrow> Some (upd_pcp z (\<lambda>pc. pc\<lparr>pcp_count := 0\<rparr>) s)
          else Some s)"

definition drain_pages :: "'w mm_state \<Rightarrow> 'w mm_state option" where
  "drain_pages s = fold drain_zone [0..<nr_zones s] (Some s)"

definition drain_local_pages :: "'w mm_state \<Rightarrow> 'w mm_state option" where
  "drain_local_pages = drain_pages"

text \<open>
  \<^verbatim>\<open>drain_all_pages\<close> on the one processor: it runs \<^verbatim>\<open>drain_local_pages\<close> if some populated zone has pages on
  its lists.
\<close>

definition drain_all_pages :: "'w mm_state \<Rightarrow> 'w mm_state option" where
  "drain_all_pages s =
     (let has_pcps = list_ex (\<lambda>z. populated_zone s z \<and> pcp_count (pcp s z) \<noteq> 0) [0..<nr_zones s]
      in if has_pcps then drain_local_pages s else Some s)"


section \<open>Freeing\<close>

definition free_hot_cold_page :: "nat \<Rightarrow> bool \<Rightarrow> 'w mm_state \<Rightarrow> 'w mm_state option" where
  "free_hot_cold_page p cold s =
     (let z = page_zone s p;
          wasMlocked = PageMlocked s p;
          s = ClearPage PG_mlocked p s;
          (good, s) = free_pages_prepare p 0 s
      in if \<not> good then Some s
         else let migratetype = get_pageblock_migratetype s p;
                  s = set_page_private p (of_nat migratetype) s;
                  s = (if wasMlocked then free_page_mlock p s else s);
                  s = count_vm_events PGFREE 1 s
              in if migratetype = MIGRATE_ISOLATE then Some (free_one_page z p 0 migratetype s)
                 else let migratetype = (if migratetype \<ge> MIGRATE_PCPTYPES then MIGRATE_MOVABLE else migratetype);
                          ls = pcp_lists (pcp s z) migratetype;
                          s = pcp_link z migratetype (if cold then ls @ [p] else p # ls) s;
                          s = add_pcp_count z 1 s
                      in if pcp_count (pcp s z) \<ge> pcp_high (pcp s z)
                         then case free_pcppages_bulk z (pcp_batch (pcp s z)) s of
                             None \<Rightarrow> None
                           | Some s \<Rightarrow> Some (add_pcp_count z (- pcp_batch (pcp s z)) s)
                         else Some s)"

primrec free_hot_cold_page_list :: "nat list \<Rightarrow> bool \<Rightarrow> 'w mm_state \<Rightarrow> 'w mm_state option" where
  "free_hot_cold_page_list [] cold s = Some s"
| "free_hot_cold_page_list (p # ps) cold s =
     (case free_hot_cold_page p cold s of
        None \<Rightarrow> None
      | Some s \<Rightarrow> free_hot_cold_page_list ps cold s)"

definition raw_free_pages :: "nat \<Rightarrow> nat \<Rightarrow> 'w mm_state \<Rightarrow> 'w mm_state option" where
  "raw_free_pages p order s =
     (let (zero, s) = put_page_testzero p s
      in if zero
         then if order = 0 then free_hot_cold_page p False s else Some (raw_free_pages_ok p order s)
         else Some s)"

definition split_page :: "nat \<Rightarrow> nat \<Rightarrow> 'w mm_state \<Rightarrow> 'w mm_state" where
  "split_page p order s = fold (\<lambda>i. set_page_refcounted (p + i)) [1..<2 ^ order] s"

text \<open>Pages handed to the allocator at boot.\<close>

definition raw_free_pages_bootmem :: "nat \<Rightarrow> nat \<Rightarrow> 'w mm_state \<Rightarrow> 'w mm_state option" where
  "raw_free_pages_bootmem page order s =
     (let s = fold (\<lambda>i s. set_page_count (page + i) 0 (ClearPage PG_reserved (page + i) s)) [0..<2 ^ order] s;
          s = set_page_refcounted page s
      in raw_free_pages page order s)"


section \<open>Allocating\<close>

definition GFP_COLD :: ulong where "GFP_COLD = 0x100"
definition GFP_COMP :: ulong where "GFP_COMP = 0x4000"

definition check_new_page :: "nat \<Rightarrow> 'w mm_state \<Rightarrow> bool \<times> 'w mm_state" where
  "check_new_page p s =
     (let pg = mem_map s p
      in if page_mapcount s p \<noteq> 0 \<or> pg_mapping pg \<noteq> Map_NULL \<or> pg_count pg \<noteq> 0 \<or>
            list_ex (pg_flags pg) PAGE_FLAGS_CHECK_AT_PREP
         then (True, bad_page p s)
         else (False, s))"

primrec check_new_pages :: "nat list \<Rightarrow> 'w mm_state \<Rightarrow> bool \<times> 'w mm_state" where
  "check_new_pages [] s = (False, s)"
| "check_new_pages (p # ps) s =
     (case check_new_page p s of (True, s) \<Rightarrow> (True, s) | (False, s) \<Rightarrow> check_new_pages ps s)"

definition prep_new_page :: "nat \<Rightarrow> nat \<Rightarrow> ulong \<Rightarrow> 'w mm_state \<Rightarrow> bool \<times> 'w mm_state" where
  "prep_new_page p order gfp_flags s =
     (case check_new_pages [p..<p + 2 ^ order] s of
        (True, s) \<Rightarrow> (True, s)
      | (False, s) \<Rightarrow>
          (let s = set_page_private p 0 s;
               s = set_page_refcounted p s
           in (False, if order \<noteq> 0 \<and> gfp_flags AND GFP_COMP \<noteq> 0 then prep_compound_page p order s else s)))"

text \<open>
  \<^verbatim>\<open>rmqueue_bulk\<close> adds each page next to the one before: behind it, or for cold pages in front of it.
  The cursor is \<open>None\<close> at the list head.
\<close>

fun add_after :: "nat option \<Rightarrow> nat \<Rightarrow> nat list \<Rightarrow> nat list" where
  "add_after None p xs = p # xs"
| "add_after (Some q) p [] = []"
| "add_after (Some q) p (x # xs) = (if x = q then x # p # xs else x # add_after (Some q) p xs)"

fun add_before :: "nat option \<Rightarrow> nat \<Rightarrow> nat list \<Rightarrow> nat list" where
  "add_before None p xs = xs @ [p]"
| "add_before (Some q) p [] = []"
| "add_before (Some q) p (x # xs) = (if x = q then p # x # xs else x # add_before (Some q) p xs)"

primrec rmqueue_bulk_loop ::
    "nat \<Rightarrow> nat \<Rightarrow> nat \<Rightarrow> bool \<Rightarrow> nat \<Rightarrow> nat \<Rightarrow> nat option \<Rightarrow> nat list \<Rightarrow> 'w mm_state \<Rightarrow>
     (nat \<times> nat list \<times> 'w mm_state) option" where
  "rmqueue_bulk_loop z order migratetype cold 0 i cursor ps s = Some (i, ps, s)"
| "rmqueue_bulk_loop z order migratetype cold (Suc n) i cursor ps s =
     (case raw_rmqueue z order migratetype s of
        None \<Rightarrow> None
      | Some (None, s) \<Rightarrow> Some (i, ps, s)
      | Some (Some p, s) \<Rightarrow>
          (let ps = (if \<not> cold then add_after cursor p ps else add_before cursor p ps);
               s = set_page_private p (of_nat migratetype) s
           in rmqueue_bulk_loop z order migratetype cold n (i + 1) (Some p) ps s))"

definition rmqueue_bulk ::
    "nat \<Rightarrow> nat \<Rightarrow> nat \<Rightarrow> nat list \<Rightarrow> nat \<Rightarrow> bool \<Rightarrow> 'w mm_state \<Rightarrow> (nat \<times> nat list \<times> 'w mm_state) option" where
  "rmqueue_bulk z order count ps migratetype cold s =
     (case rmqueue_bulk_loop z order migratetype cold count 0 None ps s of
        None \<Rightarrow> None
      | Some (i, ps, s) \<Rightarrow>
          Some (i, ps, mod_zone_page_state z NR_FREE_PAGES (- of_nat (i * 2 ^ order)) s))"

text \<open>A page from the lists of the processor, refilled from the buddy lists when there is none.\<close>

definition pcp_refill :: "nat \<Rightarrow> nat \<Rightarrow> bool \<Rightarrow> 'w mm_state \<Rightarrow> 'w mm_state option" where
  "pcp_refill z migratetype cold s =
     (case rmqueue_bulk z 0 (nat (pcp_batch (pcp s z))) (pcp_lists (pcp s z) migratetype) migratetype cold s of
        None \<Rightarrow> None
      | Some (n, ps, s) \<Rightarrow> Some (add_pcp_count z (int n) (pcp_link z migratetype ps s)))"

definition pcp_take ::
    "nat \<Rightarrow> nat \<Rightarrow> bool \<Rightarrow> 'w mm_state \<Rightarrow> (nat option \<times> 'w mm_state) option" where
  "pcp_take z migratetype cold s =
     (case (if pcp_lists (pcp s z) migratetype = [] then pcp_refill z migratetype cold s else Some s) of
        None \<Rightarrow> None
      | Some s \<Rightarrow>
          (let ps = pcp_lists (pcp s z) migratetype
           in if ps = [] then Some (None, s)
              else let page = (if cold then last ps else hd ps);
                       s = pcp_unlink page s;
                       s = add_pcp_count z (-1) s
                   in Some (Some page, s)))"

definition rmqueue_block ::
    "nat \<Rightarrow> nat \<Rightarrow> nat \<Rightarrow> 'w mm_state \<Rightarrow> (nat option \<times> 'w mm_state) option" where
  "rmqueue_block z order migratetype s =
     (case raw_rmqueue z order migratetype s of
        None \<Rightarrow> None
      | Some (None, s) \<Rightarrow> Some (None, s)
      | Some (Some page, s) \<Rightarrow> Some (Some page, mod_zone_page_state z NR_FREE_PAGES (- (2 ^ order)) s))"

partial_function (option) buffered_rmqueue ::
    "nat \<Rightarrow> nat \<Rightarrow> ulong \<Rightarrow> nat \<Rightarrow> 'w mm_state \<Rightarrow> (nat option \<times> 'w mm_state) option" where
  "buffered_rmqueue z order gfp_flags migratetype s =
     (case (if order = 0 then pcp_take z migratetype (gfp_flags AND GFP_COLD \<noteq> 0) s
            else rmqueue_block z order migratetype s) of
        None \<Rightarrow> None
      | Some (None, s) \<Rightarrow> Some (None, s)
      | Some (Some page, s) \<Rightarrow>
          (let s = count_vm_events (PGALLOC z) (2 ^ order) s
           in case prep_new_page page order gfp_flags s of
               (bad, s) \<Rightarrow>
                 if bad then buffered_rmqueue z order gfp_flags migratetype s else Some (Some page, s)))"

end
