(* ===== verification/Page_Pool.thy ===== *)
theory Page_Pool
  imports Buddy_Pcp
begin

text \<open>
  The invariant of the whole page allocator: the buddy system, the per-processor lists, the state that
  free pages are in, and the counters; and that every operation keeps it while it moves exactly the
  pages it should.
\<close>

section \<open>The invariant\<close>

definition pcp_all :: "per_cpu_pages \<Rightarrow> nat list" where
  "pcp_all pc = concat (map (pcp_lists pc) [0..<MIGRATE_PCPTYPES])"

definition pcp_pages :: "'w mm_state \<Rightarrow> nat \<Rightarrow> nat set" where
  "pcp_pages s z = set (pcp_all (pcp s z))"

definition zone_free_pages :: "'w mm_state \<Rightarrow> nat \<Rightarrow> nat set" where
  "zone_free_pages s z = {q \<in> free_pages s. page_zone s q = z}"

definition pool :: "'w mm_state \<Rightarrow> nat set" where
  "pool s = free_pages s \<union> (\<Union>z. pcp_pages s z)"

text \<open>A page as \<^verbatim>\<open>check_new_page\<close> wants it, apart from \<^verbatim>\<open>_mapcount\<close>.\<close>

definition clean :: "page \<Rightarrow> bool" where
  "clean pg \<longleftrightarrow> pg_mapping pg = Map_NULL \<and> pg_count pg = 0 \<and> (\<forall>f. \<not> pg_flags pg f)"

definition pcp_page_ok :: "'w mm_state \<Rightarrow> nat \<Rightarrow> nat \<Rightarrow> bool" where
  "pcp_page_ok s z p \<longleftrightarrow>
     page_zone s p = z \<and> p \<notin> free_pages s \<and> unat (pg_private (mem_map s p)) < MIGRATE_TYPES \<and>
     clean (mem_map s p) \<and> pg_mapcount (mem_map s p) = -1"

definition pcp_struct :: "'w mm_state \<Rightarrow> nat \<Rightarrow> bool" where
  "pcp_struct s z \<longleftrightarrow>
     distinct (pcp_all (pcp s z)) \<and> (\<forall>t\<ge>MIGRATE_PCPTYPES. pcp_lists (pcp s z) t = []) \<and>
     (\<forall>p\<in>pcp_pages s z. pcp_page_ok s z p)"

definition buddy_clean :: "'w mm_state \<Rightarrow> bool" where
  "buddy_clean s \<longleftrightarrow>
     (\<forall>p\<in>free_pages s. clean (mem_map s p) \<and>
        pg_mapcount (mem_map s p) \<in> {-1, PAGE_BUDDY_MAPCOUNT_VALUE})"

definition pool_struct :: "'w mm_state \<Rightarrow> bool" where
  "pool_struct s \<longleftrightarrow> buddy_ok s \<and> typed s \<and> buddy_clean s \<and> (\<forall>z. pcp_struct s z)"

definition free_counted :: "'w mm_state \<Rightarrow> nat \<Rightarrow> bool" where
  "free_counted s z \<longleftrightarrow> vm_stat (node_zones s z) NR_FREE_PAGES = of_nat (card (zone_free_pages s z))"

definition pcp_counted :: "'w mm_state \<Rightarrow> nat \<Rightarrow> bool" where
  "pcp_counted s z \<longleftrightarrow>
     pcp_count (pcp s z) = int (card (pcp_pages s z)) \<and>
     0 < pcp_batch (pcp s z) \<and> pcp_batch (pcp s z) \<le> pcp_high (pcp s z)"

definition pool_ok :: "'w mm_state \<Rightarrow> bool" where
  "pool_ok s \<longleftrightarrow> pool_struct s \<and> (\<forall>z. pcp_counted s z \<and> free_counted s z)"

lemma pool_structD:
  assumes "pool_struct s"
  shows "buddy_ok s" "typed s" "buddy_clean s" "distinct (pcp_all (pcp s z))"
    "t \<ge> MIGRATE_PCPTYPES \<Longrightarrow> pcp_lists (pcp s z) t = []" "p \<in> pcp_pages s z \<Longrightarrow> pcp_page_ok s z p"
  using assms by (auto simp: pool_struct_def pcp_struct_def)

lemma pcp_mem: "pool_struct s \<Longrightarrow> p \<in> set (pcp_lists (pcp s z) t) \<Longrightarrow> p \<in> pcp_pages s z"
  using pool_structD(5) [of s t z] by (cases "t < MIGRATE_PCPTYPES") (auto simp: pcp_pages_def pcp_all_def)

lemma pcp_mem_iff: "p \<in> pcp_pages s z \<longleftrightarrow> (\<exists>t<MIGRATE_PCPTYPES. p \<in> set (pcp_lists (pcp s z) t))"
  by (auto simp: pcp_pages_def pcp_all_def)

lemma pcp_other_zone: "pool_struct s \<Longrightarrow> p \<in> pcp_pages s z \<Longrightarrow> p \<in> pcp_pages s z' \<Longrightarrow> z' = z"
  using pool_structD(6) by (metis pcp_page_ok_def)


section \<open>Frames\<close>

definition pool_frame :: "nat set \<Rightarrow> 'w mm_state \<Rightarrow> 'w mm_state \<Rightarrow> bool" where
  "pool_frame A s s' \<longleftrightarrow>
     (\<forall>p. p \<notin> A \<longrightarrow> mem_map s' p = mem_map s p) \<and> page_zone s' = page_zone s \<and> nr_zones s' = nr_zones s \<and>
     (\<forall>z. zone_start_pfn (node_zones s' z) = zone_start_pfn (node_zones s z) \<and>
          spanned_pages (node_zones s' z) = spanned_pages (node_zones s z) \<and>
          present_pages (node_zones s' z) = present_pages (node_zones s z) \<and>
          lists (node_zones s' z) = lists (node_zones s z) \<and>
          pcp_high (pcp s' z) = pcp_high (pcp s z) \<and> pcp_batch (pcp s' z) = pcp_batch (pcp s z)) \<and>
     (\<forall>z i. i \<notin> {NR_FREE_PAGES, NR_MLOCK} \<longrightarrow> vm_stat (node_zones s' z) i = vm_stat (node_zones s z) i)"

lemma pool_frame_refl [simp]: "pool_frame A s s"
  by (simp add: pool_frame_def)

lemma pool_frame_trans: "pool_frame A s s1 \<Longrightarrow> pool_frame A s1 s2 \<Longrightarrow> pool_frame A s s2"
  unfolding pool_frame_def by simp

lemma pool_frame_mono: "pool_frame A s s' \<Longrightarrow> A \<subseteq> B \<Longrightarrow> pool_frame B s s'"
  unfolding pool_frame_def by blast

lemma pool_frame_buddy:
  assumes "buddy_frame A s s'"
  shows "pool_frame A s s'"
proof -
  have e: "erase s' = erase s" using assms by (simp add: buddy_frame_def)
  have "erase_zone (node_zones s' z) = erase_zone (node_zones s z)" for z
    using arg_cong [OF e, of node_zones] by (simp add: erase_def fun_eq_iff)
  note erase_zoneD(6) [OF this]
  moreover have "nr_zones s' = nr_zones s"
    using arg_cong [OF e, of nr_zones] by (simp add: erase_def)
  ultimately show ?thesis
    using buddy_frameD [OF assms] by (simp add: pool_frame_def)
qed

lemma pcp_op_view [simp]:
  "mem_map (pcp_unlink p s) = mem_map s" "mem_map (pcp_link z t ps s) = mem_map s"
  "mem_map (add_pcp_count z d s) = mem_map s"
  "free_list (node_zones (pcp_unlink p s) z') = free_list (node_zones s z')"
  "free_list (node_zones (pcp_link z t ps s) z') = free_list (node_zones s z')"
  "free_list (node_zones (add_pcp_count z d s) z') = free_list (node_zones s z')"
  "nr_free (node_zones (pcp_unlink p s) z') = nr_free (node_zones s z')"
  "nr_free (node_zones (pcp_link z t ps s) z') = nr_free (node_zones s z')"
  "nr_free (node_zones (add_pcp_count z d s) z') = nr_free (node_zones s z')"
  "vm_stat (node_zones (pcp_unlink p s) z') = vm_stat (node_zones s z')"
  "vm_stat (node_zones (pcp_link z t ps s) z') = vm_stat (node_zones s z')"
  "vm_stat (node_zones (add_pcp_count z d s) z') = vm_stat (node_zones s z')"
  by (simp_all add: pcp_unlink_def pcp_link_def add_pcp_count_def upd_pcp_def upd_zone_def)

lemma pcp_op_lists:
  "pcp_lists (pcp (pcp_unlink p s) z') = (\<lambda>t. removeAll p (pcp_lists (pcp s z') t))"
  "pcp_lists (pcp (pcp_link z t ps s) z') = (if z' = z then (pcp_lists (pcp s z))(t := ps) else pcp_lists (pcp s z'))"
  "pcp_lists (pcp (add_pcp_count z d s) z') = pcp_lists (pcp s z')"
  "pcp_count (pcp (pcp_unlink p s) z') = pcp_count (pcp s z')"
  "pcp_count (pcp (pcp_link z t ps s) z') = pcp_count (pcp s z')"
  "pcp_count (pcp (add_pcp_count z d s) z') = pcp_count (pcp s z') + (if z' = z then d else 0)"
  by (simp_all add: pcp_unlink_def pcp_link_def add_pcp_count_def upd_pcp_def upd_zone_def)

lemma pcp_op_frame [simp]:
  "pool_frame A s (pcp_unlink p s)" "pool_frame A s (pcp_link z t ps s)" "pool_frame A s (add_pcp_count z d s)"
  by (simp_all add: pool_frame_def pcp_unlink_def pcp_link_def add_pcp_count_def upd_pcp_def upd_zone_def
      page_zone_def fun_eq_iff)

text \<open>The buddy system does not look at the per-processor lists, nor at counters and events.\<close>

lemma buddy_cong:
  assumes "mem_map s' = mem_map s"
    and "\<And>z. free_list (node_zones s' z) = free_list (node_zones s z)"
    and "\<And>z. nr_free (node_zones s' z) = nr_free (node_zones s z)"
  shows "buddy_upto D s' = buddy_upto D s" "buddy_key s' = buddy_key s" "page_zone s' = page_zone s"
    "free_pages s' = free_pages s" "buddy_clean s' = buddy_clean s"
proof -
  show key: "buddy_key s' = buddy_key s" and zone: "page_zone s' = page_zone s"
    using assms(1) by (simp_all add: fun_eq_iff buddy_key_def page_zone_def PageBuddy_def page_order_def)
  then show free: "free_pages s' = free_pages s" by (simp add: free_pages_def)
  have "free_lists s' = free_lists s" "nr_frees s' = nr_frees s"
    using assms(2,3) by (simp_all add: fun_eq_iff free_lists_def nr_frees_def)
  then show "buddy_upto D s' = buddy_upto D s" using key zone by (simp add: buddy_upto_def)
  show "buddy_clean s' = buddy_clean s" using free assms(1) by (simp add: buddy_clean_def)
qed

lemma pcp_op_buddy [simp]:
  "buddy_upto D (pcp_unlink p s) = buddy_upto D s" "buddy_upto D (pcp_link z t ps s) = buddy_upto D s"
  "buddy_upto D (add_pcp_count z d s) = buddy_upto D s"
  "free_pages (pcp_unlink p s) = free_pages s" "free_pages (pcp_link z t ps s) = free_pages s"
  "free_pages (add_pcp_count z d s) = free_pages s"
  "page_zone (pcp_unlink p s) = page_zone s" "page_zone (pcp_link z t ps s) = page_zone s"
  "page_zone (add_pcp_count z d s) = page_zone s"
  "buddy_key (pcp_unlink p s) = buddy_key s" "buddy_key (pcp_link z t ps s) = buddy_key s"
  "buddy_key (add_pcp_count z d s) = buddy_key s"
  "buddy_clean (pcp_unlink p s) = buddy_clean s" "buddy_clean (pcp_link z t ps s) = buddy_clean s"
  "buddy_clean (add_pcp_count z d s) = buddy_clean s"
  by (rule buddy_cong; simp)+

lemma pcp_op_typed [simp]:
  "typed (pcp_unlink p s) = typed s" "typed (pcp_link z t ps s) = typed s" "typed (add_pcp_count z d s) = typed s"
  by (rule typed_cong; simp add: pcp_unlink_def pcp_link_def add_pcp_count_def upd_pcp_def upd_zone_def
      page_zone_def fun_eq_iff)+


section \<open>From the per-processor lists to the buddy lists\<close>

text \<open>\<open>released z ps s s'\<close>: the pages \<open>ps\<close> moved from the lists of zone \<open>z\<close> to the buddy system.\<close>

definition released :: "nat \<Rightarrow> nat list \<Rightarrow> 'w mm_state \<Rightarrow> 'w mm_state \<Rightarrow> bool" where
  "released z ps s s' \<longleftrightarrow>
     pool_struct s' \<and> distinct ps \<and> set ps \<subseteq> pcp_pages s z \<and>
     free_pages s' = free_pages s \<union> set ps \<and> pcp_pages s' z = pcp_pages s z - set ps \<and>
     (\<forall>z'. z' \<noteq> z \<longrightarrow> pcp_lists (pcp s' z') = pcp_lists (pcp s z')) \<and>
     (\<forall>z'. pcp_count (pcp s' z') = pcp_count (pcp s z') \<and>
           vm_stat (node_zones s' z') = vm_stat (node_zones s z')) \<and>
     pool_frame (free_pages s \<union> pcp_pages s z) s s' \<and> (merged s \<longrightarrow> merged s')"

lemma released_trans:
  assumes "released z ps s s1" "released z qs s1 s2"
  shows "released z (ps @ qs) s s2"
proof -
  have "free_pages s1 \<union> pcp_pages s1 z = free_pages s \<union> pcp_pages s z"
    using assms(1) unfolding released_def by auto
  then have "pool_frame (free_pages s \<union> pcp_pages s z) s s2"
    using assms pool_frame_trans unfolding released_def by metis
  then show ?thesis
    using assms unfolding released_def by auto
qed

lemma removeAll_concat: "removeAll x (concat xss) = concat (map (removeAll x) xss)"
  by (induction xss) simp_all

lemma pcp_all_unlink: "pcp_all (pcp (pcp_unlink p s) z) = removeAll p (pcp_all (pcp s z))"
  by (simp add: pcp_all_def removeAll_concat pcp_op_lists comp_def)

lemma pcp_pages_unlink: "pcp_pages (pcp_unlink p s) z = pcp_pages s z - {p}"
  by (simp add: pcp_pages_def pcp_all_unlink)

lemma pcp_page_ok_cong:
  "mem_map s' p = mem_map s p \<Longrightarrow> page_zone s' p = page_zone s p \<Longrightarrow> (p \<in> free_pages s' \<longleftrightarrow> p \<in> free_pages s) \<Longrightarrow>
   pcp_page_ok s' z p = pcp_page_ok s z p"
  by (simp add: pcp_page_ok_def)

text \<open>A block goes to the buddy system: what is left of the invariant to prove is about the block itself.\<close>

definition ready :: "'w mm_state \<Rightarrow> nat \<Rightarrow> nat \<Rightarrow> nat \<Rightarrow> bool" where
  "ready s z p k \<longleftrightarrow>
     held s z p k \<and> block p k \<inter> pool s = {} \<and>
     (\<forall>q\<in>block p k. clean (mem_map s q) \<and> pg_mapcount (mem_map s q) = -1)"

lemma pool_struct_free_one:
  assumes ok: "pool_struct s" and p: "ready s z p k" and t: "t < MIGRATE_TYPES"
  defines "s' \<equiv> raw_free_one_page p z k t s"
  shows "pool_struct s'" "free_pages s' = free_pages s \<union> block p k" "pcp s' = pcp s"
    "buddy_frame (free_pages s \<union> block p k) s s'" "merged s \<Longrightarrow> merged s'"
proof -
  note P = pool_structD [OF ok]
  have held: "held s z p k" and out: "block p k \<inter> pool s = {}"
    and cl: "\<And>q. q \<in> block p k \<Longrightarrow> clean (mem_map s q) \<and> pg_mapcount (mem_map s q) = -1"
    using p by (simp_all add: ready_def)
  have nc: "\<not> PageCompound s p" using cl [of p] by (simp add: clean_def PageCompound_def PageFlag_def)
  note F = raw_free_one_page_ok [OF P(1) held t nc, folded s'_def]
  show free: "free_pages s' = free_pages s \<union> block p k" by (rule F(2))
  show frame: "buddy_frame (free_pages s \<union> block p k) s s'"
    using frame_raw_free_one_page [OF P(1) held nc, of t] by (simp add: s'_def)
  note B = buddy_frameD [OF frame]
  show pcp: "pcp s' = pcp s" using B(3) by (simp add: fun_eq_iff)
  show "merged s \<Longrightarrow> merged s'" by (rule F(4))
  have "clean (mem_map s' q) = clean (mem_map s q)" for q
    by (simp add: clean_def B(7-9))
  moreover have "pg_mapcount (mem_map s' q) \<in> {-1, PAGE_BUDDY_MAPCOUNT_VALUE}"
    if "pg_mapcount (mem_map s q) \<in> {-1, PAGE_BUDDY_MAPCOUNT_VALUE}" for q
    using B(13) [of q] that by auto
  ultimately have "buddy_clean s'"
    unfolding buddy_clean_def free using P(3) cl by (simp add: buddy_clean_def ball_Un)
  moreover have "pcp_page_ok s' y q" if "q \<in> pcp_pages s y" for q y
  proof -
    have "q \<notin> block p k" using that out by (auto simp: pool_def)
    moreover have "q \<notin> free_pages s" using P(6) [OF that] by (simp add: pcp_page_ok_def)
    ultimately have "pcp_page_ok s' y q = pcp_page_ok s y q"
      by (intro pcp_page_ok_cong) (simp_all add: B(10,12) free)
    then show ?thesis using P(6) [OF that] by simp
  qed
  ultimately show "pool_struct s'"
    using F(1) B(14) [OF P(2)] ok pcp fun_cong [OF pcp]
    unfolding pool_struct_def pcp_struct_def pcp_pages_def by simp
qed

lemma pool_struct_unlink:
  assumes ok: "pool_struct s"
  shows "pool_struct (pcp_unlink p s)"
proof -
  note P = pool_structD [OF ok]
  have "pcp_page_ok (pcp_unlink p s) z q = pcp_page_ok s z q" for z q
    by (rule pcp_page_ok_cong) simp_all
  then show ?thesis
    using P by (auto simp: pool_struct_def pcp_struct_def pcp_all_unlink pcp_pages_unlink pcp_op_lists
        distinct_removeAll)
qed

lemma release_one:
  assumes ok: "pool_struct s" and p: "p \<in> pcp_pages s z"
  shows "released z [p] s (raw_free_one_page p z 0 (unat (pg_private (mem_map s p))) (pcp_unlink p s))"
proof -
  let ?s = "pcp_unlink p s" and ?t = "unat (pg_private (mem_map s p))"
  let ?s' = "raw_free_one_page p z 0 ?t ?s"
  have pp: "page_zone s p = z" "p \<notin> free_pages s" "?t < MIGRATE_TYPES" "clean (mem_map s p)"
    "pg_mapcount (mem_map s p) = -1"
    using pool_structD(6) [OF ok p] by (simp_all add: pcp_page_ok_def)
  have "ready ?s z p 0"
    using pp by (simp add: ready_def held_def pool_def pcp_pages_unlink MAX_ORDER_def)
  note F = pool_struct_free_one [OF pool_struct_unlink [OF ok] this pp(3), simplified pcp_op_buddy]
  have pcp: "pcp ?s' y = pcp ?s y" for y using fun_cong [OF F(3)] .
  have other: "pcp_lists (pcp ?s' y) = pcp_lists (pcp s y)" if "y \<noteq> z" for y
  proof -
    have "p \<notin> set (pcp_lists (pcp s y) u)" for u
      using pcp_other_zone [OF ok p] pcp_mem [OF ok] that by blast
    then show ?thesis by (simp add: pcp pcp_op_lists)
  qed
  have "pool_frame (free_pages s \<union> pcp_pages s z) ?s ?s'"
    using pool_frame_mono [OF pool_frame_buddy [OF F(4)]] p by auto
  then have frame: "pool_frame (free_pages s \<union> pcp_pages s z) s ?s'"
    using pool_frame_trans [OF pcp_op_frame(1)] by blast
  have "pcp_pages ?s' z = pcp_pages s z - {p}"
    using pcp_pages_unlink [of p s z] by (simp add: pcp_pages_def pcp)
  then show ?thesis
    unfolding released_def
    using F(1,2,5) p other frame pcp buddy_frameD(5) [OF F(4)] by (simp add: pcp_op_lists)
qed

lemma released_Nil: "pool_struct s \<Longrightarrow> released z [] s s"
  by (simp add: released_def)

lemma drain_list_ok:
  assumes "pool_struct s" "pcp_lists (pcp s z) t \<noteq> []"
  shows "\<exists>m b' s' ps. pcp_drain_list z t (int (Suc n)) b s = Some (int m, b', s') \<and> m \<le> n \<and>
    released z ps s s' \<and> length ps = Suc n - m"
  using assms
proof (induction n arbitrary: b s)
  case 0
  let ?p = "last (pcp_lists (pcp s z) t)"
  have "?p \<in> pcp_pages s z" using 0 pcp_mem by (metis last_in_set)
  from release_one [OF 0(1) this] show ?case
    by (subst pcp_drain_list.simps) (auto simp: Let_def)
next
  case (Suc n)
  let ?p = "last (pcp_lists (pcp s z) t)"
  let ?s = "raw_free_one_page ?p z 0 (unat (pg_private (mem_map s ?p))) (pcp_unlink ?p s)"
  have "?p \<in> pcp_pages s z" using Suc.prems pcp_mem by (metis last_in_set)
  note R = release_one [OF Suc.prems(1) this]
  have step: "pcp_drain_list z t (int (Suc (Suc n))) b s =
      (if b - 1 = 0 \<or> pcp_lists (pcp ?s z) t = [] then Some (int (Suc n), b - 1, ?s)
       else pcp_drain_list z t (int (Suc n)) (b - 1) ?s)"
    by (subst pcp_drain_list.simps) (simp add: Let_def)
  show ?case
  proof (cases "b - 1 = 0 \<or> pcp_lists (pcp ?s z) t = []")
    case True
    then show ?thesis using R unfolding step by (intro exI [of _ "Suc n"]) auto
  next
    case False
    have "pool_struct ?s" using R by (simp add: released_def)
    from Suc.IH [OF this, of "b - 1"] False obtain m b' s' ps where
      "pcp_drain_list z t (int (Suc n)) (b - 1) ?s = Some (int m, b', s')" "m \<le> n"
      "released z ps ?s s'" "length ps = Suc n - m" by blast
    moreover from released_trans [OF R this(3)] have "released z (?p # ps) s s'" by simp
    ultimately show ?thesis
      unfolding step using False by (intro exI [of _ m] exI [of _ b'] exI [of _ s'] exI [of _ "?p # ps"]) auto
  qed
qed


lemma next_list_ok:
  assumes "\<exists>t<MIGRATE_PCPTYPES. ls t \<noteq> []" "t < MIGRATE_PCPTYPES"
  shows "\<exists>t' b'. pcp_next_list ls t b = Some (t', b') \<and> t' < MIGRATE_PCPTYPES \<and> ls t' \<noteq> []"
proof -
  define n where n: "n = (\<lambda>t. if t + 1 = MIGRATE_PCPTYPES then 0 else t + 1)"
  have step: "ls (n t) = [] \<Longrightarrow> pcp_next_list ls t b = pcp_next_list ls (n t) (b + 1)"
    "ls (n t) \<noteq> [] \<Longrightarrow> pcp_next_list ls t b = Some (n t, b + 1)" for t b
    by (subst pcp_next_list.simps; simp add: Let_def n)+
  have less: "n u < MIGRATE_PCPTYPES" if "u < MIGRATE_PCPTYPES" for u
    using that by (auto simp: MIGRATE_PCPTYPES_def n)
  have "{n t, n (n t), n (n (n t))} = {0, 1, 2}"
    using assms(2) by (auto simp: MIGRATE_PCPTYPES_def n)
  moreover have "\<exists>u\<in>{0, 1, 2}. ls u \<noteq> []"
    using assms(1) by (auto simp: MIGRATE_PCPTYPES_def less_Suc_eq numeral_eq_Suc)
  ultimately have "\<exists>u\<in>{n t, n (n t), n (n (n t))}. ls u \<noteq> []" by simp
  then consider "ls (n t) \<noteq> []" | "ls (n t) = []" "ls (n (n t)) \<noteq> []"
    | "ls (n t) = []" "ls (n (n t)) = []" "ls (n (n (n t))) \<noteq> []"
    by auto
  then show ?thesis
  proof cases
    case 1
    then show ?thesis using step(2) [of t b] less [OF assms(2)] by simp
  next
    case 2
    then show ?thesis
      using step(1) [of t b] step(2) [of "n t" "b + 1"] less [OF less [OF assms(2)]] by simp
  next
    case 3
    then show ?thesis
      using step(1) [of t b] step(1) [of "n t" "b + 1"] step(2) [of "n (n t)" "b + 1 + 1"]
        less [OF less [OF less [OF assms(2)]]] by simp
  qed
qed

lemma card_pcp_pages: "pool_struct s \<Longrightarrow> card (pcp_pages s z) = length (pcp_all (pcp s z))"
  by (simp add: pcp_pages_def distinct_card pool_structD(4))

lemma released_card:
  assumes "released z ps s s'"
  shows "card (pcp_pages s' z) = card (pcp_pages s z) - length ps" "length ps \<le> card (pcp_pages s z)"
proof -
  have fin: "finite (pcp_pages s z)" by (simp add: pcp_pages_def)
  have "set ps \<subseteq> pcp_pages s z" "distinct ps" "pcp_pages s' z = pcp_pages s z - set ps"
    using assms by (simp_all add: released_def)
  then show "card (pcp_pages s' z) = card (pcp_pages s z) - length ps" "length ps \<le> card (pcp_pages s z)"
    using fin card_mono [of "pcp_pages s z" "set ps"] by (simp_all add: card_Diff_subset distinct_card)
qed

lemma free_loop_ok:
  assumes "pool_struct s" "n \<le> card (pcp_pages s z)" "t < MIGRATE_PCPTYPES"
  shows "\<exists>s' ps. pcp_free_loop z t b (int n) s = Some s' \<and> released z ps s s' \<and> length ps = n"
  using assms
proof (induction n arbitrary: t b s rule: less_induct)
  case (less n)
  show ?case
  proof (cases n)
    case 0
    then show ?thesis
      using released_Nil [OF less.prems(1)] by (subst pcp_free_loop.simps) auto
  next
    case (Suc k)
    let ?ls = "pcp_lists (pcp s z)"
    have "pcp_pages s z \<noteq> {}" using less.prems(2) Suc by auto
    then have "\<exists>u<MIGRATE_PCPTYPES. ?ls u \<noteq> []" unfolding ex_in_conv [symmetric] pcp_mem_iff by auto
    from next_list_ok [OF this less.prems(3), of b] obtain u b1 where
      nxt: "pcp_next_list ?ls t b = Some (u, b1)" "u < MIGRATE_PCPTYPES" "?ls u \<noteq> []" by blast
    let ?b = "if b1 = int MIGRATE_PCPTYPES then int n else b1"
    from drain_list_ok [OF less.prems(1) nxt(3), of k ?b] obtain m b2 s1 ps where
      dr: "pcp_drain_list z u (int n) ?b s = Some (int m, b2, s1)" "m \<le> k" "released z ps s s1"
        "length ps = n - m" unfolding Suc by blast
    note C = released_card [OF dr(3)]
    have "pool_struct s1" "m \<le> card (pcp_pages s1 z)" "m < n"
      using dr(2-4) C less.prems(2) Suc by (auto simp: released_def)
    from less.IH [OF this(3,1,2) nxt(2), of b2] obtain s' qs where
      rest: "pcp_free_loop z u b2 (int m) s1 = Some s'" "released z qs s1 s'" "length qs = m" by blast
    have "pcp_free_loop z t b (int n) s = Some s'"
      using nxt(1) dr(1) rest(1) Suc by (subst pcp_free_loop.simps) (simp add: Let_def)
    then show ?thesis
      using released_trans [OF dr(3) rest(2)] dr(2,4) rest(3) Suc by (intro exI [of _ s'] exI [of _ "ps @ qs"]) auto
  qed
qed


section \<open>The counter of free pages\<close>

lemma finite_zone_free:
  assumes "buddy_upto D s"
  shows "finite (zone_free_pages s z)"
proof (rule finite_subset)
  note B = buddy_uptoD [OF assms]
  let ?H = "\<lambda>k. {p. buddy_key s p = Some k \<and> page_zone s p = z}"
  show "zone_free_pages s z \<subseteq> (\<Union>k<MAX_ORDER. \<Union>p\<in>?H k. block p k)"
  proof
    fix q
    assume "q \<in> zone_free_pages s z"
    then obtain p k where p: "buddy_key s p = Some k" "q \<in> block p k" "page_zone s q = z"
      by (auto simp: zone_free_pages_def free_pages_def covered_def)
    note K = blocks_okD [OF B(1) p(1)]
    have "page_zone s p = z" using one_zoneD [OF K(3), of p q] p(2,3) by simp
    then show "q \<in> (\<Union>k<MAX_ORDER. \<Union>p\<in>?H k. block p k)" using p(1,2) K(1) by blast
  qed
  show "finite (\<Union>k<MAX_ORDER. \<Union>p\<in>?H k. block p k)" using B(4) by simp
qed

lemma zone_free_Un:
  assumes "free_pages s' = free_pages s \<union> A" "page_zone s' = page_zone s" "\<And>q. q \<in> A \<Longrightarrow> page_zone s q = z"
  shows "zone_free_pages s' y = zone_free_pages s y \<union> (if y = z then A else {})"
  using assms by (auto simp: zone_free_pages_def)

lemma free_counted_grow:
  assumes ok: "buddy_upto D s" "free_counted s y" and A: "finite A" "A \<inter> free_pages s = {}"
      "\<And>q. q \<in> A \<Longrightarrow> page_zone s q = z" "card A = n"
    and s': "free_pages s' = free_pages s \<union> A" "page_zone s' = page_zone s"
      "\<And>y. vm_stat (node_zones s' y) NR_FREE_PAGES =
         vm_stat (node_zones s y) NR_FREE_PAGES + (if y = z then of_nat n else 0)"
  shows "free_counted s' y"
proof -
  have "card (zone_free_pages s z \<union> A) = card (zone_free_pages s z) + card A"
    using finite_zone_free [OF ok(1)] A(1,2) by (intro card_Un_disjoint) (auto simp: zone_free_pages_def)
  then show ?thesis
    using ok(2) A(4) zone_free_Un [OF s'(1,2) A(3), of y] s'(3) [of y] by (auto simp: free_counted_def)
qed

lemma free_counted_shrink:
  assumes ok: "buddy_upto D s" "free_counted s y" and A: "A \<subseteq> free_pages s"
      "\<And>q. q \<in> A \<Longrightarrow> page_zone s q = z" "card A = n"
    and s': "free_pages s' = free_pages s - A" "page_zone s' = page_zone s"
      "\<And>y. vm_stat (node_zones s' y) NR_FREE_PAGES =
         vm_stat (node_zones s y) NR_FREE_PAGES - (if y = z then of_nat n else 0)"
  shows "free_counted s' y"
proof -
  have sub: "A \<subseteq> zone_free_pages s z" using A(1,2) by (auto simp: zone_free_pages_def)
  have "zone_free_pages s' y = zone_free_pages s y - (if y = z then A else {})"
    using s'(1,2) A(2) by (auto simp: zone_free_pages_def)
  moreover have "card (zone_free_pages s z) = card (zone_free_pages s z - A) + card A"
    using finite_zone_free [OF ok(1), of z] sub by (metis card_Diff_subset card_mono finite_subset le_add_diff_inverse2)
  ultimately show ?thesis
    using ok(2) A(3) s'(3) [of y] by (auto simp: free_counted_def)
qed


section \<open>Changes outside the pool\<close>

lemma pool_struct_cong:
  assumes ok: "pool_struct s"
    and pages: "\<And>q. q \<in> pool s \<Longrightarrow> mem_map s' q = mem_map s q" "page_zone s' = page_zone s"
      "\<And>q. q \<notin> pool s \<Longrightarrow> \<not> PageBuddy s' q"
    and zones: "\<And>z. free_list (node_zones s' z) = free_list (node_zones s z)"
      "\<And>z. nr_free (node_zones s' z) = nr_free (node_zones s z)"
      "\<And>z. pageblock_flags (node_zones s' z) = pageblock_flags (node_zones s z)"
      "\<And>z. zone_start_pfn (node_zones s' z) = zone_start_pfn (node_zones s z)"
      "\<And>z. pcp_lists (pcp s' z) = pcp_lists (pcp s z)"
  shows "pool_struct s'" "free_pages s' = free_pages s" "pcp_pages s' = pcp_pages s" "buddy_key s' = buddy_key s"
proof -
  note P = pool_structD [OF ok]
  have "buddy_key s' q = buddy_key s q" for q
  proof (cases "q \<in> pool s")
    case True
    then show ?thesis using pages(1) by (simp add: buddy_key_def PageBuddy_def page_order_def)
  next
    case False
    then have "buddy_key s q = None" by (simp add: pool_def free_pages_def not_covered_None)
    then show ?thesis using pages(3) [OF False] by (simp add: buddy_key_def)
  qed
  then show key: "buddy_key s' = buddy_key s" by auto
  then show free: "free_pages s' = free_pages s" by (simp add: free_pages_def)
  have all: "pcp_all (pcp s' z) = pcp_all (pcp s z)" for z using zones(5) by (simp add: pcp_all_def)
  then show pcp: "pcp_pages s' = pcp_pages s" by (simp add: fun_eq_iff pcp_pages_def)
  have "free_lists s' = free_lists s" "nr_frees s' = nr_frees s"
    using zones(1,2) by (simp_all add: fun_eq_iff free_lists_def nr_frees_def)
  then have "buddy_ok s'" using P(1) key pages(2) by (simp add: buddy_upto_def)
  moreover have "buddy_clean s'"
    using P(3) pages(1) free by (simp add: buddy_clean_def pool_def)
  moreover have "typed s'" using typed_cong [OF pages(2) zones(3,4)] P(2) by simp
  moreover have "pcp_page_ok s' z q" if "q \<in> pcp_pages s z" for z q
  proof -
    have "q \<in> pool s" using that by (auto simp: pool_def)
    then have "pcp_page_ok s' z q = pcp_page_ok s z q"
      using pages(1,2) free by (intro pcp_page_ok_cong) auto
    then show ?thesis using P(6) [OF that] by simp
  qed
  ultimately show "pool_struct s'"
    using ok pcp all zones(5) by (simp add: pool_struct_def pcp_struct_def)
qed

text \<open>Counters and flags of zones, events, and reports are no business of the pool.\<close>

lemma pool_struct_PageBuddy: "q \<notin> pool s \<Longrightarrow> \<not> PageBuddy s q"
  using not_covered_None [of q "buddy_key s"] by (auto simp: pool_def free_pages_def buddy_key_def split: if_splits)

lemma pool_struct_zone_cong:
  assumes ok: "pool_struct s" and mem: "mem_map s' = mem_map s"
    and zones: "\<And>z. free_list (node_zones s' z) = free_list (node_zones s z)"
      "\<And>z. nr_free (node_zones s' z) = nr_free (node_zones s z)"
      "\<And>z. pageblock_flags (node_zones s' z) = pageblock_flags (node_zones s z)"
      "\<And>z. zone_start_pfn (node_zones s' z) = zone_start_pfn (node_zones s z)"
      "\<And>z. pcp_lists (pcp s' z) = pcp_lists (pcp s z)"
  shows "pool_struct s'" "free_pages s' = free_pages s" "pcp_pages s' = pcp_pages s" "buddy_key s' = buddy_key s"
    "page_zone s' = page_zone s"
proof -
  show zone: "page_zone s' = page_zone s" using mem by (simp add: fun_eq_iff page_zone_def)
  have "\<not> PageBuddy s' q" if "q \<notin> pool s" for q
    using pool_struct_PageBuddy [OF that] mem by (simp add: PageBuddy_def)
  from pool_struct_cong [OF ok _ zone this zones] mem
  show "pool_struct s'" "free_pages s' = free_pages s" "pcp_pages s' = pcp_pages s" "buddy_key s' = buddy_key s"
    by simp_all
qed

lemma mod_state_zone_fields [simp]:
  "free_list (node_zones (mod_zone_page_state z i d s) y) = free_list (node_zones s y)"
  "nr_free (node_zones (mod_zone_page_state z i d s) y) = nr_free (node_zones s y)"
  "pageblock_flags (node_zones (mod_zone_page_state z i d s) y) = pageblock_flags (node_zones s y)"
  "zone_start_pfn (node_zones (mod_zone_page_state z i d s) y) = zone_start_pfn (node_zones s y)"
  "spanned_pages (node_zones (mod_zone_page_state z i d s) y) = spanned_pages (node_zones s y)"
  "present_pages (node_zones (mod_zone_page_state z i d s) y) = present_pages (node_zones s y)"
  "pcp (mod_zone_page_state z i d s) y = pcp s y" "nr_zones (mod_zone_page_state z i d s) = nr_zones s"
  by (simp_all add: mod_zone_page_state_def upd_zone_def)

definition reset_scanned :: "nat \<Rightarrow> 'w mm_state \<Rightarrow> 'w mm_state" where
  "reset_scanned z = upd_zone z (\<lambda>zn. zn\<lparr>all_unreclaimable := False, pages_scanned := 0\<rparr>)"

lemma reset_scanned_fields [simp]:
  "mem_map (reset_scanned z s) = mem_map s" "pcp (reset_scanned z s) y = pcp s y"
  "free_list (node_zones (reset_scanned z s) y) = free_list (node_zones s y)"
  "nr_free (node_zones (reset_scanned z s) y) = nr_free (node_zones s y)"
  "pageblock_flags (node_zones (reset_scanned z s) y) = pageblock_flags (node_zones s y)"
  "zone_start_pfn (node_zones (reset_scanned z s) y) = zone_start_pfn (node_zones s y)"
  "vm_stat (node_zones (reset_scanned z s) y) = vm_stat (node_zones s y)"
  by (simp_all add: reset_scanned_def upd_zone_def)

lemma reset_scanned_frame [simp]: "pool_frame A s (reset_scanned z s)"
  by (simp add: pool_frame_def reset_scanned_def upd_zone_def page_zone_def fun_eq_iff)

lemma mod_free_frame [simp]:
  "pool_frame A s (mod_zone_page_state z NR_FREE_PAGES d s)" "pool_frame A s (mod_zone_page_state z NR_MLOCK d s)"
  by (simp_all add: pool_frame_def)

end
