(* ===== verification/Pool_Free.thy ===== *)
theory Pool_Free
  imports Page_Pool
begin

text \<open>
  Freeing keeps the invariant of the page allocator: \<^verbatim>\<open>free_pcppages_bulk\<close> returns and moves pages to the
  buddy lists, \<^verbatim>\<open>free_hot_cold_page\<close> and \<^verbatim>\<open>__free_pages_ok\<close> add exactly the freed pages to the pool, and a
  page that is still in use is refused.
\<close>

section \<open>Draining the per-processor lists\<close>

lemma pool_split: "pool s = free_pages s \<union> pcp_pages s z \<union> (\<Union>y\<in>-{z}. pcp_pages s y)"
  by (auto simp: pool_def)

lemma bulk_ok:
  assumes ok: "pool_struct s" "\<And>y. free_counted s y" and n: "n \<le> card (pcp_pages s z)"
  shows "\<exists>s'. free_pcppages_bulk z (int n) s = Some s' \<and> pool_struct s' \<and> (\<forall>y. free_counted s' y) \<and>
    pool s' = pool s \<and> card (pcp_pages s' z) = card (pcp_pages s z) - n \<and>
    (\<forall>y. y \<noteq> z \<longrightarrow> pcp_pages s' y = pcp_pages s y) \<and>
    (\<forall>y. pcp_count (pcp s' y) = pcp_count (pcp s y)) \<and> pool_frame (pool s) s s' \<and> (merged s \<longrightarrow> merged s')"
proof -
  let ?s = "reset_scanned z s"
  have R: "pool_struct ?s" "free_pages ?s = free_pages s" "pcp_pages ?s = pcp_pages s" "buddy_key ?s = buddy_key s"
    "page_zone ?s = page_zone s"
    by (rule pool_struct_zone_cong [OF ok(1)]; simp)+
  have "0 < MIGRATE_PCPTYPES" by (simp add: MIGRATE_PCPTYPES_def)
  from free_loop_ok [OF R(1) _ this, of n z 0] n R(3) obtain s1 ps where
    run: "pcp_free_loop z 0 0 (int n) ?s = Some s1" "released z ps ?s s1" "length ps = n" by auto
  let ?s' = "mod_zone_page_state z NR_FREE_PAGES (of_nat n) s1"
  have st: "pool_struct s1" "distinct ps" "set ps \<subseteq> pcp_pages s z" "free_pages s1 = free_pages s \<union> set ps"
    "pcp_pages s1 z = pcp_pages s z - set ps" "\<And>y. y \<noteq> z \<Longrightarrow> pcp_lists (pcp s1 y) = pcp_lists (pcp s y)"
    "\<And>y. pcp_count (pcp s1 y) = pcp_count (pcp s y)" "\<And>y. vm_stat (node_zones s1 y) = vm_stat (node_zones s y)"
    "pool_frame (free_pages s \<union> pcp_pages s z) ?s s1" "merged s \<Longrightarrow> merged s1"
    using run(2) unfolding released_def R by simp_all
  have C: "pool_struct ?s'" "free_pages ?s' = free_pages s1" "pcp_pages ?s' = pcp_pages s1"
    "buddy_key ?s' = buddy_key s1" "page_zone ?s' = page_zone s1"
    by (rule pool_struct_zone_cong [OF st(1)]; simp)+
  have frame1: "pool_frame (free_pages s \<union> pcp_pages s z) s s1"
    by (rule pool_frame_trans [OF reset_scanned_frame st(9)])
  then have zone: "page_zone s1 = page_zone s" by (simp add: pool_frame_def)
  have other: "pcp_pages s1 y = pcp_pages s y" if "y \<noteq> z" for y
    using st(6) [OF that] by (simp add: pcp_pages_def pcp_all_def)
  have "pool s1 = pool s"
    using st(3-5) other unfolding pool_split [of _ z] by auto
  moreover have "free_counted ?s' y" for y
  proof (rule free_counted_grow [where A = "set ps" and z = z and n = n])
    show "buddy_ok s" "free_counted s y" using ok pool_structD(1) by blast+
    show "set ps \<inter> free_pages s = {}" "\<And>q. q \<in> set ps \<Longrightarrow> page_zone s q = z"
      using st(3) pool_structD(6) [OF ok(1)] by (auto simp: pcp_page_ok_def)
  qed (use st C zone run(3) in \<open>simp_all add: distinct_card\<close>)
  moreover have "pool_frame (pool s) s ?s'"
    by (rule pool_frame_trans [OF pool_frame_mono [OF frame1] mod_free_frame(1)]) (auto simp: pool_def)
  moreover have "free_pcppages_bulk z (int n) s = Some ?s'"
    using run(1) by (simp add: free_pcppages_bulk_def Let_def reset_scanned_def)
  ultimately show ?thesis
    using C st(5,7,10) other released_card(1) [OF run(2)] run(3) R(3) by (simp add: pool_def) blast
qed


section \<open>Checks on freed pages\<close>

text \<open>A page that \<^verbatim>\<open>free_pages_check\<close> accepts, and what is left of it.\<close>

definition freeable :: "page \<Rightarrow> bool" where
  "freeable pg \<longleftrightarrow>
     pg_mapcount pg = -1 \<and> pg_mapping pg = Map_NULL \<and> pg_count pg = 0 \<and>
     \<not> list_ex (pg_flags pg) PAGE_FLAGS_CHECK_AT_FREE"

definition scrub :: "page \<Rightarrow> page" where
  "scrub pg = pg\<lparr>pg_flags := \<lambda>_. False\<rparr>"

lemma set_all_pageflags [simp]: "set PAGE_FLAGS_CHECK_AT_PREP = UNIV"
proof -
  have "f \<in> set PAGE_FLAGS_CHECK_AT_PREP" for f
    by (cases f) (simp_all add: PAGE_FLAGS_CHECK_AT_PREP_def all_pageflags_def)
  then show ?thesis by auto
qed

lemma no_flags: "\<not> list_ex (pg_flags pg) PAGE_FLAGS_CHECK_AT_PREP \<longleftrightarrow> pg_flags pg = (\<lambda>_. False)"
  by (auto simp: list_ex_iff)

lemma free_pages_check_ok:
  assumes "freeable (mem_map s p)"
  shows "free_pages_check p s = (False, upd_page p scrub s)"
proof -
  have "upd_page p scrub s = s" if "pg_flags (mem_map s p) = (\<lambda>_. False)"
  proof -
    have "scrub (mem_map s p) = mem_map s p" using that by (cases "mem_map s p") (simp add: scrub_def)
    then show ?thesis by (simp add: upd_page_def)
  qed
  moreover have "(\<lambda>pg. pg\<lparr>pg_flags := \<lambda>f. pg_flags pg f \<and> f \<notin> set PAGE_FLAGS_CHECK_AT_PREP\<rparr>) = scrub"
    by (simp add: fun_eq_iff scrub_def)
  ultimately show ?thesis
    using assms no_flags [of "mem_map s p"]
    by (auto simp: free_pages_check_def freeable_def page_mapcount_def Let_def)
qed


text \<open>
  What the code asks of the pages of a block that is freed: no references, no mappings, no mapping
  pointer (but an anonymous page may still have it), none of the flags of pages in use (but the first
  page may be mlocked, which is cleared before the check).
\<close>

definition may_free :: "'w mm_state \<Rightarrow> nat \<Rightarrow> nat \<Rightarrow> bool" where
  "may_free s p k \<longleftrightarrow>
     (\<forall>q\<in>block p k.
        pg_mapcount (mem_map s q) = -1 \<and> pg_count (mem_map s q) = 0 \<and>
        (pg_mapping (mem_map s q) = Map_NULL \<or> q = p \<and> PageAnon s p) \<and>
        (\<forall>f\<in>set PAGE_FLAGS_CHECK_AT_FREE. pg_flags (mem_map s q) f \<longrightarrow> f = PG_mlocked \<and> q = p))"

definition wipe :: "nat set \<Rightarrow> 'w mm_state \<Rightarrow> 'w mm_state" where
  "wipe A s = s\<lparr>mem_map := \<lambda>q. if q \<in> A then (mem_map s q)\<lparr>pg_mapping := Map_NULL, pg_flags := \<lambda>_. False\<rparr>
                             else mem_map s q\<rparr>"

definition scrub_pages :: "nat set \<Rightarrow> 'w mm_state \<Rightarrow> 'w mm_state" where
  "scrub_pages A s = s\<lparr>mem_map := \<lambda>q. if q \<in> A then scrub (mem_map s q) else mem_map s q\<rparr>"

lemma free_check_loop_ok:
  assumes "\<forall>q\<in>set ps. freeable (mem_map s q)" "distinct ps"
  shows "free_check_loop ps (bad, s) = (bad, scrub_pages (set ps) s)"
  using assms
proof (induction ps arbitrary: s)
  case Nil
  then show ?case by (simp add: scrub_pages_def)
next
  case (Cons p ps)
  let ?s = "upd_page p scrub s"
  have "free_check_loop (p # ps) (bad, s) = free_check_loop ps (bad, ?s)"
    using free_pages_check_ok [of s p] Cons.prems by simp
  also have "\<dots> = (bad, scrub_pages (set ps) ?s)"
    using Cons.prems by (intro Cons.IH) (auto simp: upd_page_def)
  also have "scrub_pages (set ps) ?s = scrub_pages (set (p # ps)) s"
    using Cons.prems(2) by (auto simp: scrub_pages_def upd_page_def fun_eq_iff)
  finally show ?case .
qed

lemma free_pages_prepare_ok:
  assumes "may_free s p k"
  shows "free_pages_prepare p k (ClearPage PG_mlocked p s) = (True, wipe (block p k) s)"
proof -
  let ?s1 = "ClearPage PG_mlocked p s"
  let ?s2 = "if PageAnon ?s1 p then upd_page p (\<lambda>pg. pg\<lparr>pg_mapping := Map_NULL\<rparr>) ?s1 else ?s1"
  have anon: "PageAnon ?s1 p = PageAnon s p" by (simp add: PageAnon_def c_simps)
  have nil: "pg_mapping (mem_map s q) = Map_NULL" if "q \<in> block p k" "\<not> (q = p \<and> PageAnon s p)" for q
    using assms that by (auto simp: may_free_def)
  have flag: "\<not> pg_flags (mem_map s q) f" if "q \<in> block p k" "f \<in> set PAGE_FLAGS_CHECK_AT_FREE"
    "\<not> (q = p \<and> f = PG_mlocked)" for q f
    using assms that by (auto simp: may_free_def)
  have "freeable (mem_map ?s2 q)" if "q \<in> block p k" for q
  proof -
    have "pg_mapcount (mem_map s q) = -1" "pg_count (mem_map s q) = 0"
      using assms that by (simp_all add: may_free_def)
    moreover have "\<not> list_ex (pg_flags (mem_map ?s2 q)) PAGE_FLAGS_CHECK_AT_FREE"
      unfolding list_ex_iff using flag [OF that] by (auto simp: c_simps)
    ultimately show ?thesis
      unfolding freeable_def using nil [OF that] anon by (auto simp: c_simps)
  qed
  then have "free_check_loop [p..<p + 2 ^ k] (0, ?s2) = (0, scrub_pages (block p k) ?s2)"
    using free_check_loop_ok [of "[p..<p + 2 ^ k]" ?s2 0] by (simp add: block_def)
  moreover have "scrub_pages (block p k) ?s2 = wipe (block p k) s"
  proof -
    have "mem_map (scrub_pages (block p k) ?s2) q = mem_map (wipe (block p k) s) q" for q
      using nil [of q] anon
      by (cases "mem_map s q") (auto simp: scrub_pages_def wipe_def scrub_def c_simps clear_flag_def)
    then show ?thesis by (simp add: scrub_pages_def wipe_def upd_page_def c_simps fun_eq_iff)
  qed
  ultimately show ?thesis by (simp add: free_pages_prepare_def Let_def)
qed


section \<open>Freeing a block\<close>

text \<open>
  \<open>prepared s z p k s'\<close>: in \<open>s'\<close> the block is ready for the buddy system, and otherwise the pool, its lists
  and its counters are as in \<open>s\<close>.
\<close>

definition prepared :: "'w mm_state \<Rightarrow> nat \<Rightarrow> nat \<Rightarrow> nat \<Rightarrow> 'w mm_state \<Rightarrow> bool" where
  "prepared s z p k s' \<longleftrightarrow>
     pool_struct s' \<and> free_pages s' = free_pages s \<and> pcp_pages s' = pcp_pages s \<and> buddy_key s' = buddy_key s \<and>
     ready s' z p k \<and> pool_frame (block p k) s s' \<and> (\<forall>y. pcp s' y = pcp s y) \<and>
     (\<forall>y. vm_stat (node_zones s' y) NR_FREE_PAGES = vm_stat (node_zones s y) NR_FREE_PAGES)"

lemma prepared_wipe:
  assumes ok: "pool_struct s" and p: "may_free s p k" "held s z p k" "block p k \<inter> pool s = {}"
  shows "prepared s z p k (wipe (block p k) s)"
proof -
  let ?s = "wipe (block p k) s"
  have zone: "page_zone ?s = page_zone s" by (simp add: fun_eq_iff wipe_def page_zone_def)
  have keep: "mem_map ?s q = mem_map s q" if "q \<in> pool s" for q
    using that p(3) by (auto simp: wipe_def)
  have nb: "\<not> PageBuddy ?s q" if "q \<notin> pool s" for q
    using pool_struct_PageBuddy [OF that] by (simp add: PageBuddy_def wipe_def)
  note C = pool_struct_cong [OF ok keep zone nb]
  have S: "pool_struct ?s" "free_pages ?s = free_pages s" "pcp_pages ?s = pcp_pages s" "buddy_key ?s = buddy_key s"
    by (rule C; simp add: wipe_def)+
  moreover have "ready ?s z p k"
    using p S(2,3) zone unfolding ready_def held_def pool_def may_free_def by (simp add: wipe_def clean_def)
  ultimately show ?thesis
    using zone by (simp add: prepared_def pool_frame_def wipe_def)
qed

lemma ready_cong:
  assumes "ready s z p k" "page_zone s' = page_zone s" "free_pages s' = free_pages s" "pcp_pages s' = pcp_pages s"
    and "\<And>q. q \<in> block p k \<Longrightarrow> clean (mem_map s' q) = clean (mem_map s q) \<and>
      pg_mapcount (mem_map s' q) = pg_mapcount (mem_map s q)"
  shows "ready s' z p k"
  using assms by (simp add: ready_def held_def pool_def)

text \<open>Accounting between the check and the buddy lists does not matter.\<close>

lemma prepared_account:
  assumes prep: "prepared s z p k s1" and s': "mem_map s' = mem_map s1" "\<And>y. pcp s' y = pcp s1 y"
    "\<And>y. free_list (node_zones s' y) = free_list (node_zones s1 y)"
    "\<And>y. nr_free (node_zones s' y) = nr_free (node_zones s1 y)"
    "\<And>y. pageblock_flags (node_zones s' y) = pageblock_flags (node_zones s1 y)"
    "\<And>y. zone_start_pfn (node_zones s' y) = zone_start_pfn (node_zones s1 y)"
    "\<And>y. vm_stat (node_zones s' y) NR_FREE_PAGES = vm_stat (node_zones s1 y) NR_FREE_PAGES"
    "pool_frame (block p k) s1 s'"
  shows "prepared s z p k s'"
proof -
  have S: "pool_struct s1" using prep by (simp add: prepared_def)
  have C: "pool_struct s'" "free_pages s' = free_pages s1" "pcp_pages s' = pcp_pages s1" "buddy_key s' = buddy_key s1"
    "page_zone s' = page_zone s1"
    by (rule pool_struct_zone_cong [OF S]; simp add: s')+
  have "ready s' z p k"
    by (rule ready_cong [of s1]) (use prep C s'(1) in \<open>simp_all add: prepared_def\<close>)
  then show ?thesis
    using prep C s' pool_frame_trans [of "block p k" s s1 s'] by (simp add: prepared_def)
qed

lemma prepared_mlock_count:
  assumes "prepared s z p k s1"
  shows "prepared s z p k (count_vm_events e n (if b then free_page_mlock p s1 else s1))"
  by (rule prepared_account [OF assms])
    (auto simp: free_page_mlock_def count_vm_events_def pool_frame_def page_zone_def fun_eq_iff)

lemma free_one_page_ok:
  assumes prep: "prepared s z p k s1" and cnt: "\<And>y. free_counted s y" and t: "t < MIGRATE_TYPES"
  defines "s' \<equiv> free_one_page z p k t s1"
  shows "pool_struct s'" "\<And>y. free_counted s' y" "\<And>y. pcp s' y = pcp s y"
    "free_pages s' = free_pages s \<union> block p k" "merged s \<Longrightarrow> merged s'" "pool_frame (free_pages s \<union> block p k) s s'"
proof -
  let ?s2 = "reset_scanned z s1" and ?s3 = "raw_free_one_page p z k t (reset_scanned z s1)"
  have s': "s' = mod_zone_page_state z NR_FREE_PAGES (2 ^ k) ?s3"
    by (simp add: s'_def free_one_page_def reset_scanned_def Let_def)
  have "prepared s z p k ?s2" by (rule prepared_account [OF prep]) simp_all
  then have P: "pool_struct ?s2" "ready ?s2 z p k" "free_pages ?s2 = free_pages s" "buddy_key ?s2 = buddy_key s"
    "pool_frame (block p k) s ?s2" "\<And>y. pcp ?s2 y = pcp s y"
    "\<And>y. vm_stat (node_zones ?s2 y) NR_FREE_PAGES = vm_stat (node_zones s y) NR_FREE_PAGES"
    by (simp_all add: prepared_def)
  note F = pool_struct_free_one [OF P(1,2) t] and fr = pool_frame_buddy
  have C: "pool_struct s'" "free_pages s' = free_pages ?s3" "pcp_pages s' = pcp_pages ?s3"
    "buddy_key s' = buddy_key ?s3" "page_zone s' = page_zone ?s3"
    unfolding s' by (rule pool_struct_zone_cong [OF F(1)]; simp)+
  have z2: "page_zone ?s2 = page_zone s" using P(5) by (simp add: pool_frame_def)
  have z3: "page_zone ?s3 = page_zone s" using buddy_frameD(10) [OF F(4)] z2 by simp
  show "pool_struct s'" by (rule C(1))
  show free: "free_pages s' = free_pages s \<union> block p k" using C(2) F(2) P(3) by simp
  show "pcp s' y = pcp s y" for y using fun_cong [OF F(3), of y] P(6) [of y] by (simp add: s')
  show "merged s \<Longrightarrow> merged s'" using F(5) C(4,5) z2 z3 P(4) by simp
  show "pool_frame (free_pages s \<union> block p k) s s'"
    unfolding s' using P(3,5) pool_frame_buddy [OF F(4)] pool_frame_mono pool_frame_trans mod_free_frame(1)
    by (metis Un_upper2)
  have H: "held ?s2 z p k" using P(2) by (simp add: ready_def)
  show "free_counted s' y" for y
  proof (rule free_counted_grow [where A = "block p k" and z = z and n = "2 ^ k"])
    show "buddy_ok ?s2" "free_counted ?s2 y"
      using pool_structD(1) [OF P(1)] cnt [of y] P(3,7) z2 by (simp_all add: free_counted_def zone_free_pages_def)
    show "block p k \<inter> free_pages ?s2 = {}" by (rule heldD(5) [OF H])
    show "page_zone ?s2 q = z" if "q \<in> block p k" for q
      using one_zoneD [OF heldD(4) [OF H] that head_in_block] heldD(3) [OF H] by simp
    show "vm_stat (node_zones s' y) NR_FREE_PAGES =
        vm_stat (node_zones ?s2 y) NR_FREE_PAGES + (if y = z then of_nat (2 ^ k) else 0)" for y
      using buddy_frameD(5) [OF F(4), of y] by (simp add: s')
  qed (use free P(3) z2 z3 C(5) in simp_all)
qed


text \<open>\<open>gains s A s'\<close>: the pool grows by exactly the pages \<open>A\<close>, and nothing else changes.\<close>

definition gains :: "'w mm_state \<Rightarrow> nat set \<Rightarrow> 'w mm_state \<Rightarrow> bool" where
  "gains s A s' \<longleftrightarrow>
     pool_ok s' \<and> pool s' = pool s \<union> A \<and> (merged s \<longrightarrow> merged s') \<and> pool_frame (pool s \<union> A) s s'"

lemma pool_okD:
  assumes "pool_ok s"
  shows "pool_struct s" "pcp_counted s z" "free_counted s z"
  using assms by (simp_all add: pool_ok_def)

lemma gains_free_one:
  assumes ok: "pool_ok s" and prep: "prepared s z p k s1" and t: "t < MIGRATE_TYPES"
  shows "gains s (block p k) (free_one_page z p k t s1)"
proof -
  note F = free_one_page_ok [OF prep pool_okD(3) [OF ok] t]
  let ?s = "free_one_page z p k t s1"
  have pcp: "pcp_pages ?s = pcp_pages s" using F(3) by (simp add: fun_eq_iff pcp_pages_def)
  have "pcp_counted ?s y" for y
    using pool_okD(2) [OF ok, of y] F(3) pcp by (simp add: pcp_counted_def)
  then have "pool_ok ?s" using F(1,2) by (simp add: pool_ok_def)
  moreover have "pool ?s = pool s \<union> block p k" using F(4) pcp by (auto simp: pool_def)
  moreover have "pool_frame (pool s \<union> block p k) s ?s"
    by (rule pool_frame_mono [OF F(6)]) (auto simp: pool_def)
  ultimately show ?thesis using F(5) by (simp add: gains_def)
qed

lemma migratetype_typed: "pool_struct s \<Longrightarrow> get_pageblock_migratetype s p < MIGRATE_TYPES"
  using pool_structD(2) by (auto simp: typed_def)

lemma raw_free_pages_ok_gains:
  assumes ok: "pool_ok s" and p: "may_free s p k" "held s (page_zone s p) p k" "block p k \<inter> pool s = {}"
  shows "gains s (block p k) (raw_free_pages_ok p k s)"
proof -
  let ?s1 = "wipe (block p k) s"
  let ?s2 = "count_vm_events PGFREE (2 ^ k) (if PageMlocked s p then free_page_mlock p ?s1 else ?s1)"
  have "prepared s (page_zone s p) p k ?s2"
    by (rule prepared_mlock_count [OF prepared_wipe [OF pool_okD(1) [OF ok] p]])
  moreover from this have "page_zone ?s2 p = page_zone s p" "pool_struct ?s2"
    by (simp_all add: prepared_def pool_frame_def)
  moreover have "raw_free_pages_ok p k s =
      free_one_page (page_zone ?s2 p) p k (get_pageblock_migratetype ?s2 p) ?s2"
    using free_pages_prepare_ok [OF p(1)] by (simp add: raw_free_pages_ok_def Let_def)
  ultimately show ?thesis using gains_free_one [OF ok] migratetype_typed by metis
qed


section \<open>Freeing a single page\<close>

lemma pcp_all_three: "pcp_all pc = pcp_lists pc 0 @ pcp_lists pc 1 @ pcp_lists pc 2"
  by (simp add: pcp_all_def MIGRATE_PCPTYPES_def numeral_eq_Suc)

lemma pcp_all_insert:
  assumes "t < MIGRATE_PCPTYPES" "ps = p # pcp_lists pc t \<or> ps = pcp_lists pc t @ [p]"
  shows "set (pcp_all (pc\<lparr>pcp_lists := (pcp_lists pc)(t := ps)\<rparr>)) = insert p (set (pcp_all pc))"
    "p \<notin> set (pcp_all pc) \<Longrightarrow> distinct (pcp_all pc) \<Longrightarrow>
       distinct (pcp_all (pc\<lparr>pcp_lists := (pcp_lists pc)(t := ps)\<rparr>))"
proof -
  have "t = 0 \<or> t = 1 \<or> t = 2" using assms(1) by (auto simp: MIGRATE_PCPTYPES_def)
  then show "set (pcp_all (pc\<lparr>pcp_lists := (pcp_lists pc)(t := ps)\<rparr>)) = insert p (set (pcp_all pc))"
    "p \<notin> set (pcp_all pc) \<Longrightarrow> distinct (pcp_all pc) \<Longrightarrow>
       distinct (pcp_all (pc\<lparr>pcp_lists := (pcp_lists pc)(t := ps)\<rparr>))"
    using assms(2) by (auto simp: pcp_all_three)
qed

lemma pcp_link_pcp: "pcp (pcp_link z t ps s) y =
    (if y = z then (pcp s z)\<lparr>pcp_lists := (pcp_lists (pcp s z))(t := ps)\<rparr> else pcp s y)"
  by (simp add: pcp_link_def upd_pcp_def upd_zone_def)

lemma pool_struct_link:
  assumes ok: "pool_struct s" and t: "t < MIGRATE_PCPTYPES"
    and ps: "ps = p # pcp_lists (pcp s z) t \<or> ps = pcp_lists (pcp s z) t @ [p]"
    and p: "p \<notin> pool s" "pcp_page_ok s z p"
  shows "pool_struct (pcp_link z t ps s)"
    and "pcp_pages (pcp_link z t ps s) y = (if y = z then insert p (pcp_pages s z) else pcp_pages s y)"
proof -
  let ?s = "pcp_link z t ps s"
  note P = pool_structD [OF ok] and A = pcp_all_insert [OF t ps]
  have pages: "pcp_pages ?s y = (if y = z then insert p (pcp_pages s z) else pcp_pages s y)" for y
    using A(1) by (simp add: pcp_pages_def pcp_link_pcp)
  then show "pcp_pages ?s y = (if y = z then insert p (pcp_pages s z) else pcp_pages s y)" .
  have "p \<notin> set (pcp_all (pcp s z))" using p(1) by (auto simp: pool_def pcp_pages_def)
  then have dist: "distinct (pcp_all (pcp ?s y))" for y
    using A(2) P(4) by (simp add: pcp_link_pcp)
  have ok_page: "pcp_page_ok ?s y q = pcp_page_ok s y q" for y q
    by (rule pcp_page_ok_cong) simp_all
  have "pcp_struct ?s y" for y
    unfolding pcp_struct_def pages ok_page
    using dist P(5,6) p(2) t by (simp add: pcp_link_pcp)
  then show "pool_struct ?s" using P(1-3) by (simp add: pool_struct_def)
qed

text \<open>The page is checked, its migrate type is stored in it, and it is accounted.\<close>

definition hot_cold_prepared :: "nat \<Rightarrow> 'w mm_state \<Rightarrow> 'w mm_state" where
  "hot_cold_prepared p s =
     (let s1 = wipe {p} s;
          s2 = set_page_private p (of_nat (get_pageblock_migratetype s1 p)) s1
      in count_vm_events PGFREE 1 (if PageMlocked s p then free_page_mlock p s2 else s2))"

lemma hot_cold_prepared_ok:
  assumes ok: "pool_ok s" and p: "may_free s p 0" "p \<notin> pool s"
  defines "s' \<equiv> hot_cold_prepared p s"
  shows "prepared s (page_zone s p) p 0 s'" "pcp_page_ok s' (page_zone s p) p"
proof -
  let ?z = "page_zone s p" and ?s1 = "wipe {p} s"
  let ?t = "get_pageblock_migratetype ?s1 p"
  let ?s2 = "set_page_private p (of_nat ?t) ?s1"
  have "held s ?z p 0" using p(2) by (simp add: held_def MAX_ORDER_def pool_def)
  then have W: "prepared s ?z p 0 ?s1"
    using prepared_wipe [OF pool_okD(1) [OF ok] p(1), of ?z] p(2) by simp
  then have S: "pool_struct ?s1" "p \<notin> pool ?s1" "page_zone ?s1 = page_zone s" "ready ?s1 ?z p 0"
    using p(2) by (simp_all add: prepared_def pool_def pool_frame_def)
  have z2: "page_zone ?s2 = page_zone ?s1" by (simp add: fun_eq_iff page_zone_def c_simps)
  have keep: "mem_map ?s2 q = mem_map ?s1 q" if "q \<in> pool ?s1" for q
    using that S(2) by (auto simp: c_simps)
  have nb: "\<not> PageBuddy ?s2 q" if "q \<notin> pool ?s1" for q
    using pool_struct_PageBuddy [OF that] by (auto simp: PageBuddy_def c_simps)
  have C: "pool_struct ?s2" "free_pages ?s2 = free_pages ?s1" "pcp_pages ?s2 = pcp_pages ?s1"
    "buddy_key ?s2 = buddy_key ?s1"
    by (rule pool_struct_cong [OF S(1) keep z2 nb]; simp add: c_simps)+
  have R: "ready ?s2 ?z p 0"
    by (rule ready_cong [OF S(4) z2 C(2,3)]) (simp add: clean_def c_simps)
  have "pool_frame (block p 0) ?s1 ?s2" using z2 by (simp add: pool_frame_def upd_page_def c_simps)
  then have P2: "prepared s ?z p 0 ?s2"
    using W C R pool_frame_trans [of "block p 0" s ?s1 ?s2] by (simp add: prepared_def c_simps)
  then show P': "prepared s ?z p 0 s'"
    unfolding s'_def hot_cold_prepared_def Let_def by (rule prepared_mlock_count)
  have mem: "mem_map s' p = mem_map ?s2 p"
    by (simp add: s'_def hot_cold_prepared_def Let_def free_page_mlock_def)
  have "?t < MIGRATE_TYPES" by (rule migratetype_typed [OF S(1)])
  then have "unat (pg_private (mem_map s' p)) < MIGRATE_TYPES"
    unfolding mem by (simp add: c_simps unat_of_nat_ulong MIGRATE_TYPES_def)
  then show "pcp_page_ok s' ?z p"
    using P' by (auto simp: prepared_def ready_def pcp_page_ok_def held_def)
qed


lemma free_hot_cold_page_unfold:
  fixes cold :: bool
  assumes "may_free s p 0"
  defines "s1 \<equiv> hot_cold_prepared p s" and "z \<equiv> page_zone s p" and "t \<equiv> get_pageblock_migratetype (wipe {p} s) p"
  defines "u \<equiv> if t \<ge> MIGRATE_PCPTYPES then MIGRATE_MOVABLE else t"
  defines "s2 \<equiv> add_pcp_count z 1 (pcp_link z u
      (if cold then pcp_lists (pcp s1 z) u @ [p] else p # pcp_lists (pcp s1 z) u) s1)"
  shows "free_hot_cold_page p cold s =
    (if t = MIGRATE_ISOLATE then Some (free_one_page z p 0 t s1)
     else if pcp_count (pcp s2 z) \<ge> pcp_high (pcp s2 z)
     then case free_pcppages_bulk z (pcp_batch (pcp s2 z)) s2 of
         None \<Rightarrow> None
       | Some s \<Rightarrow> Some (add_pcp_count z (- pcp_batch (pcp s z)) s)
     else Some s2)"
  using free_pages_prepare_ok [OF assms(1)]
  unfolding free_hot_cold_page_def assms(2-) hot_cold_prepared_def Let_def by simp

lemma pcp_count_card:
  assumes "pool_struct s" "\<And>y. free_counted s y"
    "\<And>y. pcp_count (pcp s y) = int (card (pcp_pages s y))"
    "\<And>y. 0 < pcp_batch (pcp s y) \<and> pcp_batch (pcp s y) \<le> pcp_high (pcp s y)"
  shows "pool_ok s"
  using assms by (simp add: pool_ok_def pcp_counted_def)

lemma gains_pcp_link:
  assumes ok: "pool_ok s" and prep: "prepared s z p 0 s1" "pcp_page_ok s1 z p" and t: "t < MIGRATE_PCPTYPES"
    and ps: "ps = p # pcp_lists (pcp s1 z) t \<or> ps = pcp_lists (pcp s1 z) t @ [p]"
  shows "gains s {p} (add_pcp_count z 1 (pcp_link z t ps s1))"
proof -
  let ?s2 = "pcp_link z t ps s1" and ?s = "add_pcp_count z 1 (pcp_link z t ps s1)"
  have P: "pool_struct s1" "free_pages s1 = free_pages s" "pcp_pages s1 = pcp_pages s" "buddy_key s1 = buddy_key s"
    "ready s1 z p 0" "pool_frame {p} s s1" "\<And>y. pcp s1 y = pcp s y"
    "\<And>y. vm_stat (node_zones s1 y) NR_FREE_PAGES = vm_stat (node_zones s y) NR_FREE_PAGES"
    using prep(1) by (simp_all add: prepared_def)
  have out: "p \<notin> pool s1" using P(5) by (simp add: ready_def)
  note L = pool_struct_link [OF P(1) t ps out prep(2)]
  have C: "pool_struct ?s" "free_pages ?s = free_pages ?s2" "pcp_pages ?s = pcp_pages ?s2"
    "buddy_key ?s = buddy_key ?s2" "page_zone ?s = page_zone ?s2"
    by (rule pool_struct_zone_cong [OF L(1)]; simp add: pcp_op_lists add_pcp_count_def upd_pcp_def upd_zone_def)+
  have zone: "page_zone s1 = page_zone s" using P(6) by (simp add: pool_frame_def)
  have fr: "pool_frame (pool s \<union> {p}) s ?s"
    using pool_frame_trans [OF pool_frame_trans [OF pool_frame_mono [OF P(6), of "pool s \<union> {p}"] pcp_op_frame(2)]
        pcp_op_frame(3)] by simp
  have "card (insert p (pcp_pages s z)) = Suc (card (pcp_pages s z))"
    using out P(2,3) by (intro card_insert_disjoint) (auto simp: pool_def pcp_pages_def)
  then have "pcp_count (pcp ?s y) = int (card (pcp_pages ?s y))" for y
    using pool_okD(2) [OF ok, of y] P(3,7) L(2) [of y] C(3) by (auto simp: pcp_op_lists pcp_counted_def)
  moreover have "0 < pcp_batch (pcp ?s y) \<and> pcp_batch (pcp ?s y) \<le> pcp_high (pcp ?s y)" for y
    using pool_okD(2) [OF ok, of y] fr by (simp add: pcp_counted_def pool_frame_def)
  moreover have "free_counted ?s y" for y
    using pool_okD(3) [OF ok, of y] P(2,8) C(2,5) zone by (simp add: free_counted_def zone_free_pages_def)
  ultimately have "pool_ok ?s" using C(1) by (intro pcp_count_card)
  moreover have "pool ?s = pool s \<union> {p}"
    using C(2,3) P(2,3) L(2) unfolding pool_split [of _ z] by auto
  moreover have "merged s \<Longrightarrow> merged ?s" using C(4,5) P(4) zone by simp
  ultimately show ?thesis using fr by (simp add: gains_def)
qed

text \<open>Spilling a batch of pages when the lists are full.\<close>

lemma gains_bulk:
  fixes z :: nat
  assumes g: "gains s A s1"
  defines "b \<equiv> pcp_batch (pcp s1 z)"
  assumes b: "b \<le> pcp_count (pcp s1 z)"
  shows "\<exists>s2. free_pcppages_bulk z b s1 = Some s2 \<and> gains s A (add_pcp_count z (- pcp_batch (pcp s2 z)) s2)"
proof -
  have ok: "pool_ok s1" using g by (simp add: gains_def)
  have cnt: "pcp_count (pcp s1 z) = int (card (pcp_pages s1 z))" "0 < b"
    using pool_okD(2) [OF ok, of z] by (simp_all add: pcp_counted_def b_def)
  define n where n: "n = nat b"
  have "b = int n" "n \<le> card (pcp_pages s1 z)" using cnt b n by simp_all
  from bulk_ok [OF pool_okD(1,3) [OF ok] this(2)] this obtain s2 where
    s2: "free_pcppages_bulk z b s1 = Some s2" "pool_struct s2" "\<And>y. free_counted s2 y" "pool s2 = pool s1"
      "card (pcp_pages s2 z) = card (pcp_pages s1 z) - n" "\<And>y. y \<noteq> z \<Longrightarrow> pcp_pages s2 y = pcp_pages s1 y"
      "\<And>y. pcp_count (pcp s2 y) = pcp_count (pcp s1 y)" "pool_frame (pool s1) s1 s2" "merged s1 \<Longrightarrow> merged s2"
    by (auto simp del: of_nat_le_iff)
  have batch: "pcp_batch (pcp s2 y) = pcp_batch (pcp s1 y)" "pcp_high (pcp s2 y) = pcp_high (pcp s1 y)" for y
    using s2(8) by (simp_all add: pool_frame_def)
  let ?s = "add_pcp_count z (- pcp_batch (pcp s2 z)) s2"
  have C: "pool_struct ?s" "free_pages ?s = free_pages s2" "pcp_pages ?s = pcp_pages s2"
    "buddy_key ?s = buddy_key s2" "page_zone ?s = page_zone s2"
    by (rule pool_struct_zone_cong [OF s2(2)]; simp add: pcp_op_lists add_pcp_count_def upd_pcp_def upd_zone_def)+
  have "pcp_count (pcp ?s y) = int (card (pcp_pages ?s y))" for y
    using pool_okD(2) [OF ok, of y] s2(5-7) cnt batch \<open>b = int n\<close> \<open>n \<le> _\<close> C(3) b_def
    by (cases "y = z") (simp_all add: pcp_op_lists pcp_counted_def of_nat_diff)
  moreover have "0 < pcp_batch (pcp ?s y) \<and> pcp_batch (pcp ?s y) \<le> pcp_high (pcp ?s y)" for y
    using pool_okD(2) [OF ok, of y] batch by (auto simp: add_pcp_count_def upd_pcp_def upd_zone_def pcp_counted_def)
  moreover have "free_counted ?s y" for y
    using s2(3) [of y] C(2,5) by (simp add: free_counted_def zone_free_pages_def)
  ultimately have "pool_ok ?s" using C(1) by (intro pcp_count_card)
  moreover have "pool ?s = pool s \<union> A" using s2(4) C(2,3) g by (simp add: pool_def gains_def)
  moreover have "pool_frame (pool s \<union> A) s ?s"
    using g pool_frame_trans [OF pool_frame_trans [OF _ s2(8)] pcp_op_frame(3)] by (simp add: gains_def)
  moreover have "merged s \<Longrightarrow> merged ?s" using g s2(9) C(4,5) by (simp add: gains_def)
  ultimately show ?thesis using s2(1) by (simp add: gains_def)
qed

lemma free_hot_cold_page_gains:
  assumes ok: "pool_ok s" and p: "may_free s p 0" "p \<notin> pool s"
  shows "\<exists>s'. free_hot_cold_page p cold s = Some s' \<and> gains s {p} s'"
proof -
  let ?z = "page_zone s p" and ?s1 = "hot_cold_prepared p s" and ?t = "get_pageblock_migratetype (wipe {p} s) p"
  let ?u = "if ?t \<ge> MIGRATE_PCPTYPES then MIGRATE_MOVABLE else ?t"
  let ?s2 = "add_pcp_count ?z 1 (pcp_link ?z ?u
      (if cold then pcp_lists (pcp ?s1 ?z) ?u @ [p] else p # pcp_lists (pcp ?s1 ?z) ?u) ?s1)"
  note H = hot_cold_prepared_ok [OF ok p] and U = free_hot_cold_page_unfold [OF p(1), of cold]
  have iso: "gains s {p} (free_one_page ?z p 0 ?t ?s1)" if "?t = MIGRATE_ISOLATE"
    using gains_free_one [OF ok H(1), of ?t] that by (simp add: migrate_defs)
  have "?u < MIGRATE_PCPTYPES" by (simp add: migrate_defs)
  then have G: "gains s {p} ?s2" by (intro gains_pcp_link [OF ok H]) auto
  show ?thesis
  proof (cases "?t = MIGRATE_ISOLATE \<or> \<not> pcp_count (pcp ?s2 ?z) \<ge> pcp_high (pcp ?s2 ?z)")
    case True
    then show ?thesis using U iso G by auto
  next
    case False
    moreover have "pool_ok ?s2" using G by (simp add: gains_def)
    from pool_okD(2) [OF this, of ?z] have "pcp_batch (pcp ?s2 ?z) \<le> pcp_high (pcp ?s2 ?z)"
      unfolding pcp_counted_def by blast
    ultimately show ?thesis using U gains_bulk [OF G, of ?z] by auto
  qed
qed

end
