(* ===== verification/Pool_Alloc.thy ===== *)
theory Pool_Alloc
  imports Pool_Free
begin

text \<open>
  Allocating keeps the invariant of the page allocator: \<^verbatim>\<open>__rmqueue\<close>, the refill of the per-processor lists
  and \<^verbatim>\<open>buffered_rmqueue\<close> take exactly the pages they return out of the pool, hand out clean pages, and fail
  only when the zone has no block that is large enough.
\<close>

section \<open>Blocks from the buddy lists\<close>

lemma takesD:
  assumes "takes s z p k s'"
  shows "held s' z p k" "block p k \<subseteq> free_pages s" "free_pages s' = free_pages s - block p k"
    "merged s \<Longrightarrow> merged s'" "buddy_frame (free_pages s) s s'"
  using assms by (simp_all add: takes_def)

lemma not_buddy_mapcount:
  assumes "buddy_key s q = None" "pg_mapcount (mem_map s q) \<in> {-1, PAGE_BUDDY_MAPCOUNT_VALUE}"
  shows "pg_mapcount (mem_map s q) = -1"
  using assms by (auto simp: buddy_key_def PageBuddy_def split: if_splits)

lemma takes_pool:
  assumes ok: "pool_struct s" and t: "buddy_ok s'" "takes s z p k s'"
  shows "pool_struct s'" "ready s' z p k" "pcp s' = pcp s"
proof -
  note P = pool_structD [OF ok] and T = takesD [OF t(2)] and B = buddy_frameD [OF takesD(5) [OF t(2)]]
  show pcp: "pcp s' = pcp s" using B(3) by (simp add: fun_eq_iff)
  have pages: "pcp_pages s' y = pcp_pages s y" for y by (simp add: pcp_pages_def B(3))
  have apart: "q \<notin> free_pages s" if "q \<in> pcp_pages s y" for q y
    using P(6) [OF that] by (simp add: pcp_page_ok_def)
  have cl: "clean (mem_map s' q)" "pg_mapcount (mem_map s' q) \<in> {-1, PAGE_BUDDY_MAPCOUNT_VALUE}"
    if "q \<in> free_pages s" for q
    using P(3) that B(13) [of q] by (auto simp: buddy_clean_def clean_def B(7-9))
  have "pcp_page_ok s' y q" if "q \<in> pcp_pages s y" for q y
  proof -
    have "pcp_page_ok s' y q = pcp_page_ok s y q"
      using apart [OF that] by (intro pcp_page_ok_cong) (simp_all add: B(10,12) T(3))
    then show ?thesis using P(6) [OF that] by simp
  qed
  moreover have "buddy_clean s'" using cl by (auto simp: buddy_clean_def T(3))
  ultimately show "pool_struct s'"
    using t(1) B(14) [OF P(2)] P(4,5) by (simp add: pool_struct_def pcp_struct_def pages B(3))
  have "pg_mapcount (mem_map s' q) = -1" if "q \<in> block p k" for q
  proof -
    have "q \<notin> free_pages s'" using T(3) that by simp
    then have "buddy_key s' q = None" by (simp add: free_pages_def not_covered_None)
    then show ?thesis using not_buddy_mapcount cl(2) T(2) that by blast
  qed
  moreover have "block p k \<inter> pool s' = {}"
    using T(2,3) apart by (auto simp: pool_def pages)
  ultimately show "ready s' z p k" using T(1,2) cl(1) by (auto simp: ready_def)
qed

lemma pcp_pages_cong: "pcp s' = pcp s \<Longrightarrow> pcp_pages s' = pcp_pages s"
  by (simp add: fun_eq_iff pcp_pages_def)

lemma takes_vm_stat: "takes s z p k s' \<Longrightarrow> vm_stat (node_zones s' y) = vm_stat (node_zones s y)"
  using buddy_frameD(5) [OF takesD(5)] .

lemma takes_free_counted:
  assumes ok: "buddy_ok s" "free_counted s y" and t: "takes s z p k s1"
    and s': "free_pages s' = free_pages s1" "page_zone s' = page_zone s1"
      "\<And>y. vm_stat (node_zones s' y) NR_FREE_PAGES =
         vm_stat (node_zones s1 y) NR_FREE_PAGES - (if y = z then of_nat (2 ^ k) else 0)"
  shows "free_counted s' y"
proof (rule free_counted_shrink [OF ok, where A = "block p k" and z = z and n = "2 ^ k"])
  note T = takesD [OF t]
  have zone: "page_zone s1 = page_zone s" by (rule buddy_frameD(10) [OF T(5)])
  show "page_zone s q = z" if "q \<in> block p k" for q
    using one_zoneD [OF heldD(4) [OF T(1)] that head_in_block] heldD(3) [OF T(1)] zone by simp
  show "free_pages s' = free_pages s - block p k" "page_zone s' = page_zone s" using s' T(3) zone by simp_all
qed (use takesD(2) [OF t] s'(3) takes_vm_stat [OF t] in simp_all)

text \<open>\<open>loses s z p k s'\<close>: exactly the block leaves the pool.\<close>

definition loses :: "'w mm_state \<Rightarrow> nat \<Rightarrow> nat \<Rightarrow> nat \<Rightarrow> 'w mm_state \<Rightarrow> bool" where
  "loses s z p k s' \<longleftrightarrow>
     pool_ok s' \<and> block p k \<subseteq> pool s \<and> pool s' = pool s - block p k \<and> ready s' z p k \<and>
     (merged s \<longrightarrow> merged s') \<and> pool_frame (pool s) s s'"

definition no_block :: "'w mm_state \<Rightarrow> nat \<Rightarrow> nat \<Rightarrow> bool" where
  "no_block s z k \<longleftrightarrow> (\<forall>j u. k \<le> j \<and> j < MAX_ORDER \<and> u < MIGRATE_ISOLATE \<longrightarrow> zone_free s z j u = [])"

lemma rmqueue_block_ok:
  assumes ok: "pool_ok s" "zone_spans s z" "t < MIGRATE_PCPTYPES"
  shows "(rmqueue_block z k t s = Some (None, s) \<and> no_block s z k) \<or>
    (\<exists>p s'. rmqueue_block z k t s = Some (Some p, s') \<and> loses s z p k s')"
proof -
  note S = pool_okD(1) [OF ok(1)]
  from raw_rmqueue_ok [OF pool_structD(1) [OF S] ok(2,3), of k] show ?thesis
  proof (elim disjE exE conjE)
    fix p s1
    assume run: "raw_rmqueue z k t s = Some (Some p, s1)" "buddy_ok s1" "takes s z p k s1"
    let ?s = "mod_zone_page_state z NR_FREE_PAGES (- (2 ^ k)) s1"
    note T = takes_pool [OF S run(2,3)] and D = takesD [OF run(3)]
    have C: "pool_struct ?s" "free_pages ?s = free_pages s1" "pcp_pages ?s = pcp_pages s1"
      "buddy_key ?s = buddy_key s1" "page_zone ?s = page_zone s1"
      by (rule pool_struct_zone_cong [OF T(1)]; simp)+
    note pages = pcp_pages_cong [OF T(3)]
    have "free_counted ?s y" for y
      by (rule takes_free_counted [OF pool_structD(1) [OF S] pool_okD(3) [OF ok(1)] run(3)])
        (use C in simp_all)
    moreover have "pcp_counted ?s y" for y
      using pool_okD(2) [OF ok(1), of y] fun_cong [OF T(3), of y] C(3) pages by (simp add: pcp_counted_def)
    ultimately have "pool_ok ?s" using C(1) by (simp add: pool_ok_def)
    moreover have "ready ?s z p k" by (rule ready_cong [OF T(2) C(5,2,3)]) simp
    moreover have "pool ?s = pool s - block p k" "block p k \<subseteq> pool s"
      using D(2,3) C(2,3) pages pool_structD(6) [OF S] by (auto simp: pool_def pcp_page_ok_def)
    moreover have "pool_frame (pool s) s ?s"
      using pool_frame_trans [OF pool_frame_mono [OF pool_frame_buddy [OF D(5)]] mod_free_frame(1)]
      by (simp add: pool_def)
    moreover have "merged s \<Longrightarrow> merged ?s" using D(4) C(4,5) by simp
    ultimately have "loses s z p k ?s" by (simp add: loses_def)
    then show ?thesis using run(1) by (simp add: rmqueue_block_def)
  qed (auto simp: rmqueue_block_def no_block_def)
qed


section \<open>Refilling the per-processor lists\<close>

lemma add_after_set:
  assumes "case c of None \<Rightarrow> True | Some q \<Rightarrow> q \<in> set ps"
  shows "set (add_after c p ps) = insert p (set ps)" "length (add_after c p ps) = Suc (length ps)"
    "distinct ps \<Longrightarrow> p \<notin> set ps \<Longrightarrow> distinct (add_after c p ps)"
proof -
  show s: "set (add_after c p ps) = insert p (set ps)" and l: "length (add_after c p ps) = Suc (length ps)"
    using assms by (induction c p ps rule: add_after.induct) auto
  show "distinct (add_after c p ps)" if "distinct ps" "p \<notin> set ps"
    using s l that by (simp add: card_distinct distinct_card)
qed

lemma add_before_set:
  assumes "case c of None \<Rightarrow> True | Some q \<Rightarrow> q \<in> set ps"
  shows "set (add_before c p ps) = insert p (set ps)" "length (add_before c p ps) = Suc (length ps)"
    "distinct ps \<Longrightarrow> p \<notin> set ps \<Longrightarrow> distinct (add_before c p ps)"
proof -
  show s: "set (add_before c p ps) = insert p (set ps)" and l: "length (add_before c p ps) = Suc (length ps)"
    using assms by (induction c p ps rule: add_before.induct) auto
  show "distinct (add_before c p ps)" if "distinct ps" "p \<notin> set ps"
    using s l that by (simp add: card_distinct distinct_card)
qed

text \<open>Pages on their way from the buddy lists to a per-processor list.\<close>

definition pending :: "'w mm_state \<Rightarrow> nat \<Rightarrow> nat list \<Rightarrow> bool" where
  "pending s z ps \<longleftrightarrow> distinct ps \<and> (\<forall>q\<in>set ps. q \<notin> pool s \<and> pcp_page_ok s z q)"

definition fetched :: "nat \<Rightarrow> nat list \<Rightarrow> 'w mm_state \<Rightarrow> nat list \<Rightarrow> 'w mm_state \<Rightarrow> bool" where
  "fetched z ps s ps' s' \<longleftrightarrow>
     pool_struct s' \<and> pending s' z ps' \<and> free_pages s' \<union> set ps' = free_pages s \<union> set ps \<and>
     pcp s' = pcp s \<and> (\<forall>y. vm_stat (node_zones s' y) = vm_stat (node_zones s y)) \<and>
     (merged s \<longrightarrow> merged s') \<and> pool_frame (free_pages s \<union> set ps) s s'"

lemma fetched_trans: "fetched z ps s qs s1 \<Longrightarrow> fetched z qs s1 rs s2 \<Longrightarrow> fetched z ps s rs s2"
  unfolding fetched_def using pool_frame_trans by (metis (no_types, lifting))

lemma fetch_one:
  assumes ok: "pool_struct s" "pending s z ps" and t: "buddy_ok s1" "takes s z p 0 s1" "t < MIGRATE_TYPES"
    and ps': "set ps' = insert p (set ps)" "p \<notin> set ps \<Longrightarrow> distinct ps'"
  shows "fetched z ps s ps' (set_page_private p (of_nat t) s1)" "p \<notin> set ps"
proof -
  let ?s = "set_page_private p (of_nat t) s1"
  note T = takes_pool [OF ok(1) t(1,2)] and D = takesD [OF t(2)]
  have pF: "p \<in> free_pages s" using D(2) by simp
  then show new: "p \<notin> set ps" using ok(2) by (auto simp: pending_def pool_def)
  have out: "p \<notin> pool s1" using T(2) by (simp add: ready_def)
  have z2: "page_zone ?s = page_zone s1" by (simp add: fun_eq_iff page_zone_def c_simps)
  have keep: "mem_map ?s q = mem_map s1 q" if "q \<in> pool s1" for q using that out by (auto simp: c_simps)
  have nb: "\<not> PageBuddy ?s q" if "q \<notin> pool s1" for q
    using pool_struct_PageBuddy [OF that] by (auto simp: PageBuddy_def c_simps)
  have C: "pool_struct ?s" "free_pages ?s = free_pages s1" "pcp_pages ?s = pcp_pages s1" "buddy_key ?s = buddy_key s1"
    by (rule pool_struct_cong [OF T(1) keep z2 nb]; simp add: c_simps)+
  have pool: "pool ?s = pool s1" using C(2,3) by (simp add: pool_def)
  have sub: "pool s1 \<subseteq> pool s" using D(3) pcp_pages_cong [OF T(3)] by (auto simp: pool_def)
  have "pcp_page_ok ?s z p"
    using T(2) C(2) t(3) out z2
    by (auto simp: pcp_page_ok_def ready_def held_def c_simps clean_def page_zone_def unat_of_nat_ulong
        MIGRATE_TYPES_def pool_def)
  moreover have "pcp_page_ok ?s z q" if "q \<in> set ps" for q
  proof -
    have q: "q \<notin> pool s" "pcp_page_ok s z q" using ok(2) that by (simp_all add: pending_def)
    then have "mem_map ?s q = mem_map s q"
      using buddy_frameD(12) [OF D(5), of q] that new by (auto simp: c_simps pool_def)
    moreover have "page_zone ?s q = page_zone s q" using z2 buddy_frameD(10) [OF D(5)] by simp
    moreover have "q \<in> free_pages ?s \<longleftrightarrow> q \<in> free_pages s" using q(1) C(2) D(3) by (auto simp: pool_def)
    ultimately show ?thesis using q(2) pcp_page_ok_cong by blast
  qed
  ultimately have "pending ?s z ps'"
    using ps' new ok(2) out sub pool by (auto simp: pending_def)
  moreover have "pool_frame (free_pages s \<union> set ps) s1 ?s"
    using pF z2 by (simp add: pool_frame_def c_simps upd_page_def)
  then have "pool_frame (free_pages s \<union> set ps) s ?s"
    using pool_frame_trans [OF pool_frame_mono [OF pool_frame_buddy [OF D(5)]]] by simp
  moreover have "pcp ?s = pcp s" using T(3) by (simp add: fun_eq_iff c_simps)
  ultimately show "fetched z ps s ps' ?s"
    using C D(2-4) ps'(1) z2 takes_vm_stat [OF t(2)] by (auto simp: fetched_def c_simps)
qed


lemma zone_spans_pool_frame: "pool_frame A s s' \<Longrightarrow> zone_spans s' z = zone_spans s z"
  by (simp add: zone_spans_def Let_def pool_frame_def)

lemma bulk_loop_ok:
  assumes "pool_struct s" "zone_spans s z" "t < MIGRATE_PCPTYPES" "pending s z ps"
    "case c of None \<Rightarrow> True | Some q \<Rightarrow> q \<in> set ps"
  shows "\<exists>i' ps' s'. rmqueue_bulk_loop z 0 t cold n i c ps s = Some (i', ps', s') \<and>
    fetched z ps s ps' s' \<and> i' + length ps = i + length ps' \<and> set ps \<subseteq> set ps' \<and>
    (0 < n \<and> ps' = [] \<longrightarrow> no_block s z 0)"
  using assms
proof (induction n arbitrary: i c ps s)
  case 0
  then show ?case by (simp add: fetched_def)
next
  case (Suc n)
  have t: "t < MIGRATE_TYPES" using Suc.prems(3) by (simp add: migrate_defs)
  from raw_rmqueue_ok [OF pool_structD(1) [OF Suc.prems(1)] Suc.prems(2,3), of 0] show ?case
  proof (elim disjE exE conjE)
    assume "raw_rmqueue z 0 t s = Some (None, s)"
      "\<forall>j u. 0 \<le> j \<and> j < MAX_ORDER \<and> u < MIGRATE_ISOLATE \<longrightarrow> zone_free s z j u = []"
    then show ?thesis using Suc.prems by (simp add: fetched_def no_block_def)
  next
    fix p s1
    assume run: "raw_rmqueue z 0 t s = Some (Some p, s1)" "buddy_ok s1" "takes s z p 0 s1"
    let ?ps = "if \<not> cold then add_after c p ps else add_before c p ps"
    let ?s = "set_page_private p (of_nat t) s1"
    have ps: "set ?ps = insert p (set ps)" "length ?ps = Suc (length ps)" "p \<notin> set ps \<Longrightarrow> distinct ?ps"
      using add_after_set [OF Suc.prems(5), of p] add_before_set [OF Suc.prems(5), of p] Suc.prems(4)
      by (simp_all add: pending_def)
    note F = fetch_one [OF Suc.prems(1,4) run(2,3) t ps(1,3)]
    have st: "pool_struct ?s" "pending ?s z ?ps" "pool_frame (free_pages s \<union> set ps) s ?s"
      using F(1) by (simp_all add: fetched_def)
    have "zone_spans ?s z" using zone_spans_pool_frame [OF st(3)] Suc.prems(2) by simp
    from Suc.IH [OF st(1) this Suc.prems(3) st(2), of "Some p" "i + 1"] ps(1) obtain i' ps' s' where
      rest: "rmqueue_bulk_loop z 0 t cold n (i + 1) (Some p) ?ps ?s = Some (i', ps', s')"
        "fetched z ?ps ?s ps' s'" "i' + length ?ps = i + 1 + length ps'" "set ?ps \<subseteq> set ps'"
      by auto
    have "rmqueue_bulk_loop z 0 t cold (Suc n) i c ps s = Some (i', ps', s')"
      using run(1) rest(1) by (simp add: Let_def)
    then show ?thesis
      using fetched_trans [OF F(1) rest(2)] rest(3,4) ps(1,2)
      by (intro exI [of _ i'] exI [of _ ps'] exI [of _ s']) auto
  qed
qed

lemma pcp_all_fill:
  assumes "t < MIGRATE_PCPTYPES" "pcp_lists pc t = []"
  shows "set (pcp_all (pc\<lparr>pcp_lists := (pcp_lists pc)(t := ps)\<rparr>)) = set ps \<union> set (pcp_all pc)"
    "distinct ps \<Longrightarrow> set ps \<inter> set (pcp_all pc) = {} \<Longrightarrow> distinct (pcp_all pc) \<Longrightarrow>
       distinct (pcp_all (pc\<lparr>pcp_lists := (pcp_lists pc)(t := ps)\<rparr>))"
proof -
  have "t = 0 \<or> t = 1 \<or> t = 2" using assms(1) by (auto simp: MIGRATE_PCPTYPES_def)
  then show "set (pcp_all (pc\<lparr>pcp_lists := (pcp_lists pc)(t := ps)\<rparr>)) = set ps \<union> set (pcp_all pc)"
    "distinct ps \<Longrightarrow> set ps \<inter> set (pcp_all pc) = {} \<Longrightarrow> distinct (pcp_all pc) \<Longrightarrow>
       distinct (pcp_all (pc\<lparr>pcp_lists := (pcp_lists pc)(t := ps)\<rparr>))"
    using assms(2) by (auto simp: pcp_all_three)
qed

lemma pool_struct_fill:
  assumes ok: "pool_struct s" and t: "t < MIGRATE_PCPTYPES" "pcp_lists (pcp s z) t = []" and ps: "pending s z ps"
  shows "pool_struct (pcp_link z t ps s)"
    and "pcp_pages (pcp_link z t ps s) y = (if y = z then set ps \<union> pcp_pages s z else pcp_pages s y)"
proof -
  let ?s = "pcp_link z t ps s"
  note P = pool_structD [OF ok] and A = pcp_all_fill [OF t]
  have pages: "pcp_pages ?s y = (if y = z then set ps \<union> pcp_pages s z else pcp_pages s y)" for y
    using A(1) by (simp add: pcp_pages_def pcp_link_pcp)
  then show "pcp_pages ?s y = (if y = z then set ps \<union> pcp_pages s z else pcp_pages s y)" .
  have "distinct ps" "set ps \<inter> set (pcp_all (pcp s z)) = {}"
    using ps by (auto simp: pending_def pool_def pcp_pages_def)
  then have dist: "distinct (pcp_all (pcp ?s y))" for y
    using A(2) P(4) by (simp add: pcp_link_pcp)
  have ok_page: "pcp_page_ok ?s y q = pcp_page_ok s y q" for y q
    by (rule pcp_page_ok_cong) simp_all
  have "pcp_struct ?s y" for y
    unfolding pcp_struct_def pages ok_page
    using dist P(5,6) t(1) ps by (auto simp: pcp_link_pcp pending_def)
  then show "pool_struct ?s" using P(1-3) by (simp add: pool_struct_def)
qed

definition fetched_counted :: "nat \<Rightarrow> 'w mm_state \<Rightarrow> nat list \<Rightarrow> 'w mm_state \<Rightarrow> bool" where
  "fetched_counted z s ps s' \<longleftrightarrow>
     pool_struct s' \<and> (\<forall>y. free_counted s' y) \<and> pending s' z ps \<and> free_pages s' \<union> set ps = free_pages s \<and>
     pcp s' = pcp s \<and> (merged s \<longrightarrow> merged s') \<and> pool_frame (free_pages s) s s'"

text \<open>\<open>same_pool s s'\<close>: pages may have moved within the pool.\<close>

definition same_pool :: "'w mm_state \<Rightarrow> 'w mm_state \<Rightarrow> bool" where
  "same_pool s s' \<longleftrightarrow> pool_ok s' \<and> pool s' = pool s \<and> (merged s \<longrightarrow> merged s') \<and> pool_frame (pool s) s s'"

lemma rmqueue_bulk_ok:
  assumes ok: "pool_struct s" "\<And>y. free_counted s y" "zone_spans s z" and t: "t < MIGRATE_PCPTYPES" and n: "0 < n"
  shows "\<exists>ps s'. rmqueue_bulk z 0 n [] t cold s = Some (length ps, ps, s') \<and> fetched_counted z s ps s' \<and>
    (ps = [] \<longrightarrow> no_block s z 0)"
proof -
  have "pending s z []" by (simp add: pending_def)
  from bulk_loop_ok [OF ok(1,3) t this, of None cold n 0] n obtain ps s1 where
    run: "rmqueue_bulk_loop z 0 t cold n 0 None [] s = Some (length ps, ps, s1)" "fetched z [] s ps s1"
      "ps = [] \<longrightarrow> no_block s z 0" by auto
  have F: "pool_struct s1" "pending s1 z ps" "free_pages s1 \<union> set ps = free_pages s" "pcp s1 = pcp s"
    "\<And>y. vm_stat (node_zones s1 y) = vm_stat (node_zones s y)" "merged s \<Longrightarrow> merged s1" "pool_frame (free_pages s) s s1"
    using run(2) by (simp_all add: fetched_def)
  let ?s = "mod_zone_page_state z NR_FREE_PAGES (- of_nat (length ps)) s1"
  have C: "pool_struct ?s" "free_pages ?s = free_pages s1" "pcp_pages ?s = pcp_pages s1"
    "buddy_key ?s = buddy_key s1" "page_zone ?s = page_zone s1"
    by (rule pool_struct_zone_cong [OF F(1)]; simp)+
  have zone: "page_zone s1 = page_zone s" using F(7) by (simp add: pool_frame_def)
  have fresh: "set ps \<inter> free_pages s1 = {}" "distinct ps" "\<And>q. q \<in> set ps \<Longrightarrow> page_zone s q = z"
    using F(2) zone by (auto simp: pending_def pcp_page_ok_def)
  have "free_counted ?s y" for y
  proof (rule free_counted_shrink [where A = "set ps" and z = z and n = "length ps"])
    show "buddy_ok s" "free_counted s y" using pool_structD(1) [OF ok(1)] ok(2) by blast+
    show "free_pages ?s = free_pages s - set ps" "set ps \<subseteq> free_pages s" using F(3) fresh(1) C(2) by auto
    show "card (set ps) = length ps" using fresh(2) by (rule distinct_card)
  qed (use F(5) fresh(3) C(5) zone in simp_all)
  moreover have "pending ?s z ps" using F(2) C by (simp add: pending_def pool_def pcp_page_ok_def)
  moreover have "pool_frame (free_pages s) s ?s" by (rule pool_frame_trans [OF F(7) mod_free_frame(1)])
  moreover have "pcp ?s = pcp s" using F(4) by (simp add: fun_eq_iff)
  ultimately have "fetched_counted z s ps ?s" using C F(3,6) by (simp add: fetched_counted_def)
  moreover have "rmqueue_bulk z 0 n [] t cold s = Some (length ps, ps, ?s)"
    using run(1) by (simp add: rmqueue_bulk_def)
  ultimately show ?thesis using run(3) by blast
qed

lemma pcp_refill_ok:
  assumes ok: "pool_ok s" "zone_spans s z" and t: "t < MIGRATE_PCPTYPES" "pcp_lists (pcp s z) t = []"
  shows "\<exists>s'. pcp_refill z t cold s = Some s' \<and> same_pool s s' \<and>
    (pcp_lists (pcp s' z) t = [] \<longrightarrow> no_block s z 0)"
proof -
  note S = pool_okD [OF ok(1)]
  have "0 < nat (pcp_batch (pcp s z))" using S(2) [of z] by (simp add: pcp_counted_def)
  from rmqueue_bulk_ok [OF S(1,3) ok(2) t(1) this, of cold] obtain ps s2 where
    run: "rmqueue_bulk z 0 (nat (pcp_batch (pcp s z))) [] t cold s = Some (length ps, ps, s2)"
      "fetched_counted z s ps s2" "ps = [] \<longrightarrow> no_block s z 0" by blast
  have F: "pool_struct s2" "\<And>y. free_counted s2 y" "pending s2 z ps" "free_pages s2 \<union> set ps = free_pages s"
    "pcp s2 = pcp s" "merged s \<Longrightarrow> merged s2" "pool_frame (free_pages s) s s2"
    using run(2) by (simp_all add: fetched_counted_def)
  let ?s3 = "pcp_link z t ps s2" and ?s = "add_pcp_count z (int (length ps)) (pcp_link z t ps s2)"
  have pages: "pcp_pages s2 = pcp_pages s" by (rule pcp_pages_cong [OF F(5)])
  have "pcp_lists (pcp s2 z) t = []" using t(2) fun_cong [OF F(5), of z] by simp
  note L = pool_struct_fill [OF F(1) t(1) this F(3)]
  have C: "pool_struct ?s" "free_pages ?s = free_pages ?s3" "pcp_pages ?s = pcp_pages ?s3"
    "buddy_key ?s = buddy_key ?s3" "page_zone ?s = page_zone ?s3"
    by (rule pool_struct_zone_cong [OF L(1)]; simp add: pcp_op_lists add_pcp_count_def upd_pcp_def upd_zone_def)+
  have fr: "pool_frame (free_pages s) s ?s"
    by (rule pool_frame_trans [OF F(7) pool_frame_trans [OF pcp_op_frame(2) pcp_op_frame(3)]])
  have "card (set ps \<union> pcp_pages s z) = length ps + card (pcp_pages s z)"
    using F(3) pages by (subst card_Un_disjoint) (auto simp: pending_def pool_def pcp_pages_def distinct_card)
  then have "pcp_count (pcp ?s y) = int (card (pcp_pages ?s y))" for y
    using S(2) [of y] L(2) [of y] C(3) pages fun_cong [OF F(5), of y]
    by (cases "y = z") (simp_all add: pcp_op_lists pcp_counted_def)
  moreover have "0 < pcp_batch (pcp ?s y) \<and> pcp_batch (pcp ?s y) \<le> pcp_high (pcp ?s y)" for y
    using S(2) [of y] fr by (simp add: pcp_counted_def pool_frame_def)
  moreover have "free_counted ?s y" for y
    using F(2) [of y] C(2,5) by (simp add: free_counted_def zone_free_pages_def)
  ultimately have "pool_ok ?s" using C(1) by (intro pcp_count_card)
  moreover have "pool ?s = pool s"
    using C(2,3) L(2) pages F(4) unfolding pool_split [of _ z] by auto
  moreover have "pool_frame (pool s) s ?s" by (rule pool_frame_mono [OF fr]) (simp add: pool_def)
  ultimately have "same_pool s ?s" using F(6) C(4,5) by (simp add: same_pool_def)
  moreover have "pcp_refill z t cold s = Some ?s" using run(1) t(2) by (simp add: pcp_refill_def)
  moreover have "pcp_lists (pcp ?s z) t = ps" by (simp add: pcp_op_lists)
  ultimately show ?thesis using run(3) by (intro exI [of _ ?s] conjI) simp_all
qed


section \<open>Handing out pages\<close>

lemma pcp_unlink_loses:
  assumes ok: "pool_ok s" and p: "p \<in> pcp_pages s z"
  shows "loses s z p 0 (add_pcp_count z (-1) (pcp_unlink p s))"
proof -
  let ?s2 = "pcp_unlink p s" and ?s = "add_pcp_count z (-1) (pcp_unlink p s)"
  note S = pool_okD [OF ok]
  have C: "pool_struct ?s" "free_pages ?s = free_pages ?s2" "pcp_pages ?s = pcp_pages ?s2"
    "buddy_key ?s = buddy_key ?s2" "page_zone ?s = page_zone ?s2"
    by (rule pool_struct_zone_cong [OF pool_struct_unlink [OF S(1), of p]];
        simp add: pcp_op_lists add_pcp_count_def upd_pcp_def upd_zone_def)+
  have pages: "pcp_pages ?s y = pcp_pages s y - {p}" for y using C(3) pcp_pages_unlink by simp
  have other: "p \<notin> pcp_pages s y" if "y \<noteq> z" for y using pcp_other_zone [OF S(1) p] that by blast
  have pp: "pcp_page_ok s z p" by (rule pool_structD(6) [OF S(1) p])
  have "finite (pcp_pages s z)" by (simp add: pcp_pages_def)
  then have "card (pcp_pages s z) = Suc (card (pcp_pages s z - {p}))" using p by (rule card.remove)
  then have "pcp_count (pcp ?s y) = int (card (pcp_pages ?s y))" for y
    using S(2) [of y] other [of y] pages [of y] by (cases "y = z") (simp_all add: pcp_op_lists pcp_counted_def)
  moreover have fr: "pool_frame (pool s) s ?s" by (rule pool_frame_trans [OF pcp_op_frame(1) pcp_op_frame(3)])
  then have "0 < pcp_batch (pcp ?s y) \<and> pcp_batch (pcp ?s y) \<le> pcp_high (pcp ?s y)" for y
    using S(2) [of y] by (simp add: pcp_counted_def pool_frame_def)
  moreover have "free_counted ?s y" for y
    using S(3) [of y] C(2,5) by (simp add: free_counted_def zone_free_pages_def)
  ultimately have "pool_ok ?s" using C(1) by (intro pcp_count_card)
  moreover have "p \<in> pool s" "pool ?s = pool s - {p}"
    using p pp C(2) pages by (auto simp: pool_def pcp_page_ok_def)
  moreover have "ready ?s z p 0"
    using pp calculation(3) C(2,5) by (auto simp: ready_def held_def pcp_page_ok_def MAX_ORDER_def)
  ultimately show ?thesis using fr C(4,5) by (simp add: loses_def)
qed

lemma pcp_take_ok:
  assumes ok: "pool_ok s" "zone_spans s z" and t: "t < MIGRATE_PCPTYPES"
  shows "(\<exists>s'. pcp_take z t cold s = Some (None, s') \<and> same_pool s s' \<and> no_block s z 0 \<and> pcp_lists (pcp s z) t = []) \<or>
    (\<exists>p s'. pcp_take z t cold s = Some (Some p, s') \<and> loses s z p 0 s')"
proof -
  obtain s1 where s1: "(if pcp_lists (pcp s z) t = [] then pcp_refill z t cold s else Some s) = Some s1"
    "same_pool s s1" "pcp_lists (pcp s1 z) t = [] \<longrightarrow> no_block s z 0 \<and> pcp_lists (pcp s z) t = []"
    using pcp_refill_ok [OF ok t] ok(1) that [of s]
    by (cases "pcp_lists (pcp s z) t = []") (auto simp: same_pool_def)
  let ?ps = "pcp_lists (pcp s1 z) t"
  have ok1: "pool_ok s1" "pool s1 = pool s" "merged s \<Longrightarrow> merged s1" "pool_frame (pool s) s s1"
    using s1(2) by (simp_all add: same_pool_def)
  show ?thesis
  proof (cases "?ps = []")
    case True
    then show ?thesis using s1 by (simp add: pcp_take_def)
  next
    case False
    let ?p = "if cold then last ?ps else hd ?ps"
    have "?p \<in> set ?ps" using False by simp
    then have "?p \<in> pcp_pages s1 z" by (rule pcp_mem [OF pool_okD(1) [OF ok1(1)]])
    from pcp_unlink_loses [OF ok1(1) this] have "loses s z ?p 0 (add_pcp_count z (-1) (pcp_unlink ?p s1))"
      using ok1(2-4) pool_frame_trans [OF ok1(4)] by (simp add: loses_def)
    then show ?thesis using s1(1) False by (simp add: pcp_take_def Let_def)
  qed
qed


text \<open>Changes to pages outside the pool, as long as they stay in their zone and do not claim to be free.\<close>

lemma pool_ok_outside:
  assumes ok: "pool_ok s" and M: "\<And>q. q \<in> pool s \<Longrightarrow> M q = mem_map s q"
      "\<And>q. pg_zonenum (M q) = pg_zonenum (mem_map s q)"
      "\<And>q. q \<notin> pool s \<Longrightarrow> pg_mapcount (M q) \<noteq> PAGE_BUDDY_MAPCOUNT_VALUE"
  defines "s' \<equiv> s\<lparr>mem_map := M\<rparr>"
  shows "pool_ok s'" "free_pages s' = free_pages s" "pool s' = pool s" "buddy_key s' = buddy_key s"
    "page_zone s' = page_zone s"
proof -
  note S = pool_okD [OF ok]
  show zone: "page_zone s' = page_zone s" using M(2) by (simp add: fun_eq_iff page_zone_def s'_def)
  have nb: "\<not> PageBuddy s' q" if "q \<notin> pool s" for q
    using M(3) [OF that] by (simp add: PageBuddy_def s'_def)
  have keep: "mem_map s' q = mem_map s q" if "q \<in> pool s" for q using M(1) [OF that] by (simp add: s'_def)
  have C: "pool_struct s'" "free_pages s' = free_pages s" "pcp_pages s' = pcp_pages s" "buddy_key s' = buddy_key s"
    by (rule pool_struct_cong [OF S(1) keep zone nb]; simp add: s'_def)+
  then show "free_pages s' = free_pages s" "pool s' = pool s" "buddy_key s' = buddy_key s"
    by (simp_all add: pool_def)
  have "pcp_counted s' y" "free_counted s' y" for y
    using S(2,3) [of y] C zone by (simp_all add: pcp_counted_def free_counted_def zone_free_pages_def s'_def)
  then show "pool_ok s'" using C(1) by (simp add: pool_ok_def)
qed

lemma check_new_pages_ok:
  assumes "\<forall>q\<in>set ps. clean (mem_map s q) \<and> pg_mapcount (mem_map s q) = -1"
  shows "check_new_pages ps s = (False, s)"
  using assms
proof (induction ps)
  case (Cons p ps)
  then have "check_new_page p s = (False, s)"
    by (simp add: check_new_page_def page_mapcount_def clean_def Let_def list_ex_iff)
  then show ?case using Cons by simp
qed simp

definition tail_page :: "nat \<Rightarrow> page \<Rightarrow> page" where
  "tail_page p pg = (set_flag PG_tail pg)\<lparr>pg_count := 0, pg_first_page := p\<rparr>"

lemma fold_prep_tail:
  "fold (prep_tail p) xs s =
     s\<lparr>mem_map := \<lambda>q. if q \<in> (+) p ` set xs then tail_page p (mem_map s q) else mem_map s q\<rparr>"
proof (induction xs arbitrary: s)
  case (Cons i xs)
  have "tail_page p (tail_page p pg) = tail_page p pg" for pg by (simp add: tail_page_def set_flag_def)
  moreover have "prep_tail p i s = s\<lparr>mem_map := (mem_map s)(p + i := tail_page p (mem_map s (p + i)))\<rparr>"
    by (simp add: prep_tail_def tail_page_def set_flag_def upd_page_def c_simps Let_def)
  ultimately show ?case by (simp add: Cons.IH fun_eq_iff)
qed simp

definition head_page :: "nat \<Rightarrow> nat \<Rightarrow> nat \<Rightarrow> page \<Rightarrow> page" where
  "head_page p k q pg =
     (let pg = (if q = p + 1 then pg\<lparr>pg_lru_next := Some Dtor_free_compound_page, pg_lru_prev := k\<rparr> else pg);
          pg = (if q = p then set_flag PG_head pg else pg)
      in if p < q \<and> q < p + 2 ^ k then tail_page p pg else pg)"

lemma prep_compound_page_eq:
  "prep_compound_page p k s = s\<lparr>mem_map := \<lambda>q. head_page p k q (mem_map s q)\<rparr>"
proof -
  have "q \<in> (+) p ` set [1..<2 ^ k] \<longleftrightarrow> p < q \<and> q < p + 2 ^ k" for q
    by (auto simp: image_iff)
  then show ?thesis
    by (simp add: prep_compound_page_def fold_prep_tail Let_def upd_page_def c_simps fun_eq_iff head_page_def
        del: set_upt)
qed


text \<open>
  \<open>handed s z p k cmp s'\<close>: the block has left the pool and its pages are as a caller of the allocator expects
  them, one reference on the first, no flag but those of a compound page if one was asked for.
\<close>

definition handed :: "'w mm_state \<Rightarrow> nat \<Rightarrow> nat \<Rightarrow> nat \<Rightarrow> bool \<Rightarrow> 'w mm_state \<Rightarrow> bool" where
  "handed s z p k cmp s' \<longleftrightarrow>
     pool_ok s' \<and> block p k \<subseteq> pool s \<and> pool s' = pool s - block p k \<and> held s' z p k \<and>
     (merged s \<longrightarrow> merged s') \<and> pool_frame (pool s) s s' \<and> pg_count (mem_map s' p) = 1 \<and>
     (\<forall>q\<in>block p k.
        pg_mapcount (mem_map s' q) = -1 \<and> pg_mapping (mem_map s' q) = Map_NULL \<and>
        (q \<noteq> p \<longrightarrow> pg_count (mem_map s' q) = 0) \<and>
        (\<forall>f. pg_flags (mem_map s' q) f \<longleftrightarrow> cmp \<and> f = (if q = p then PG_head else PG_tail)))"

lemma handed_change:
  assumes l: "loses s z p k s1"
    and M: "\<And>q. q \<notin> block p k \<Longrightarrow> M q = mem_map s1 q"
      "\<And>q. pg_zonenum (M q) = pg_zonenum (mem_map s1 q)" "\<And>q. pg_mapcount (M q) = pg_mapcount (mem_map s1 q)"
      "\<And>q. pg_mapping (M q) = pg_mapping (mem_map s1 q)"
    and c: "pg_count (M p) = 1" "\<And>q. q \<in> block p k \<Longrightarrow> q \<noteq> p \<Longrightarrow> pg_count (M q) = 0"
    and fl: "\<And>q f. q \<in> block p k \<Longrightarrow> pg_flags (M q) f \<longleftrightarrow> cmp \<and> f = (if q = p then PG_head else PG_tail)"
  shows "handed s z p k cmp (s1\<lparr>mem_map := M\<rparr>)"
proof -
  let ?s = "s1\<lparr>mem_map := M\<rparr>"
  have L: "pool_ok s1" "block p k \<subseteq> pool s" "pool s1 = pool s - block p k" "ready s1 z p k" "merged s \<Longrightarrow> merged s1"
    "pool_frame (pool s) s s1"
    using l by (simp_all add: loses_def)
  have "M q = mem_map s1 q" if "q \<in> pool s1" for q using M(1) that L(3) by auto
  moreover have "pg_mapcount (M q) \<noteq> PAGE_BUDDY_MAPCOUNT_VALUE" if "q \<notin> pool s1" for q
    using pool_struct_PageBuddy [OF that] M(3) by (simp add: PageBuddy_def)
  ultimately have C: "pool_ok ?s" "free_pages ?s = free_pages s1" "pool ?s = pool s1" "buddy_key ?s = buddy_key s1"
    "page_zone ?s = page_zone s1"
    using pool_ok_outside [OF L(1) _ M(2)] by blast+
  have fr: "pool_frame (pool s) s1 ?s" using M(1) L(2) C(5) by (auto simp: pool_frame_def)
  have "held ?s z p k" using L(4) C(2,5) by (simp add: ready_def held_def)
  moreover have "merged s \<Longrightarrow> merged ?s" using L(5) C(4,5) by simp
  moreover have "pg_mapcount (M q) = -1 \<and> pg_mapping (M q) = Map_NULL" if "q \<in> block p k" for q
    using L(4) that M(3,4) by (simp add: ready_def clean_def)
  ultimately show ?thesis
    unfolding handed_def using C(1,3) L(2,3) pool_frame_trans [OF L(6) fr] c fl by simp
qed

lemma loses_events: "loses s z p k s1 \<Longrightarrow> loses s z p k (count_vm_events e n s1)"
proof -
  assume l: "loses s z p k s1"
  let ?s = "count_vm_events e n s1"
  have ok: "pool_ok s1" using l by (simp add: loses_def)
  have C: "pool_struct ?s" "free_pages ?s = free_pages s1" "pcp_pages ?s = pcp_pages s1" "buddy_key ?s = buddy_key s1"
    "page_zone ?s = page_zone s1"
    by (rule pool_struct_zone_cong [OF pool_okD(1) [OF ok]]; simp)+
  have "pool_ok ?s"
    using ok C by (simp add: pool_ok_def pcp_counted_def free_counted_def zone_free_pages_def)
  moreover have "pool_frame (pool s) s1 ?s" using C(5) by (simp add: pool_frame_def count_vm_events_def)
  moreover have "ready ?s z p k" by (rule ready_cong [of s1]) (use l C in \<open>simp_all add: loses_def\<close>)
  ultimately show ?thesis
    using l C pool_frame_trans [of "pool s" s s1 ?s] by (simp add: loses_def pool_def)
qed

lemma prep_new_page_ok:
  assumes l: "loses s z p k s1"
  shows "\<exists>s'. prep_new_page p k gfp_flags s1 = (False, s') \<and>
    handed s z p k (k \<noteq> 0 \<and> gfp_flags AND GFP_COMP \<noteq> 0) s'"
proof -
  let ?comp = "k \<noteq> 0 \<and> gfp_flags AND GFP_COMP \<noteq> 0"
  let ?one = "\<lambda>q. if q = p then (mem_map s1 q)\<lparr>pg_private := 0, pg_count := 1\<rparr> else mem_map s1 q"
  let ?M = "\<lambda>q. if ?comp then head_page p k q (?one q) else ?one q"
  have cl: "clean (mem_map s1 q)" "pg_mapcount (mem_map s1 q) = -1" if "q \<in> block p k" for q
    using l that by (simp_all add: loses_def ready_def)
  then have "check_new_pages [p..<p + 2 ^ k] s1 = (False, s1)"
    by (intro check_new_pages_ok) (simp add: block_def)
  then have "prep_new_page p k gfp_flags s1 = (False, s1\<lparr>mem_map := ?M\<rparr>)"
    by (auto simp: prep_new_page_def Let_def prep_compound_page_eq upd_page_def c_simps fun_eq_iff)
  moreover have "handed s z p k ?comp (s1\<lparr>mem_map := ?M\<rparr>)"
  proof (rule handed_change [OF l])
    fix q
    assume "q \<notin> block p k"
    then have "q \<noteq> p" "\<not> (p < q \<and> q < p + 2 ^ k)" by (auto simp: block_def)
    moreover have "?comp \<Longrightarrow> q \<noteq> p + 1"
    proof -
      assume "?comp"
      then have "(2 :: nat) \<le> 2 ^ k" by (cases k) simp_all
      then show ?thesis using \<open>q \<notin> block p k\<close> by (auto simp: block_def)
    qed
    ultimately show "?M q = mem_map s1 q" by (auto simp: head_page_def)
  next
    show "pg_flags (?M q) f \<longleftrightarrow> ?comp \<and> f = (if q = p then PG_head else PG_tail)" if "q \<in> block p k" for q f
      using cl(1) [OF that] that by (auto simp: clean_def head_page_def tail_page_def Let_def block_def)
    show "pg_count (?M q) = 0" if "q \<in> block p k" "q \<noteq> p" for q
      using cl(1) [OF that(1)] that by (auto simp: clean_def head_page_def tail_page_def Let_def)
  qed (auto simp: head_page_def tail_page_def Let_def)
  ultimately show ?thesis by blast
qed

lemma buffered_rmqueue_ok:
  assumes ok: "pool_ok s" "zone_spans s z" and t: "t < MIGRATE_PCPTYPES"
  shows "(\<exists>s'. buffered_rmqueue z k gfp_flags t s = Some (None, s') \<and> same_pool s s' \<and> no_block s z k) \<or>
    (\<exists>p s'. buffered_rmqueue z k gfp_flags t s = Some (Some p, s') \<and>
       handed s z p k (k \<noteq> 0 \<and> gfp_flags AND GFP_COMP \<noteq> 0) s')"
proof -
  let ?cold = "gfp_flags AND GFP_COLD \<noteq> 0"
  let ?get = "if k = 0 then pcp_take z t ?cold s else rmqueue_block z k t s"
  have "(\<exists>s'. ?get = Some (None, s') \<and> same_pool s s' \<and> no_block s z k) \<or>
      (\<exists>p s'. ?get = Some (Some p, s') \<and> loses s z p k s')"
    using pcp_take_ok [OF ok t, of ?cold] rmqueue_block_ok [OF ok t, of k] ok(1)
    by (cases "k = 0") (auto simp: same_pool_def)
  then show ?thesis
  proof (elim disjE exE conjE)
    fix p s1
    assume get: "?get = Some (Some p, s1)" "loses s z p k s1"
    from prep_new_page_ok [OF loses_events [OF get(2), of "PGALLOC z" "2 ^ k"], of gfp_flags] show ?thesis
      using get(1) by (subst (1 2) buffered_rmqueue.simps) auto
  next
    fix s1
    assume "?get = Some (None, s1)" "same_pool s s1" "no_block s z k"
    then show ?thesis by (subst (1 2) buffered_rmqueue.simps) auto
  qed
qed

end
