(* ===== verification/Pool_Spec.thy ===== *)
theory Pool_Spec
  imports Pool_Alloc Swap_Spec
begin

text \<open>
  The properties of the page allocator: what freeing and allocating do to the set of free pages, that
  freeing undoes allocating, that the operations return, and that they leave the LRU lists alone.
\<close>

section \<open>Freeing lists of pages\<close>

text \<open>
  The interface of anything that takes pages back one at a time, for a caller that gives back a list:
  it returns, it keeps its invariant, it owns exactly the additional page, and pages that could be given
  back before still can. \<open>give_all\<close> is any loop over the list.
\<close>

locale page_sink =
  fixes inv :: "'s \<Rightarrow> bool" and owned :: "'s \<Rightarrow> nat set" and may :: "'s \<Rightarrow> nat \<Rightarrow> bool"
    and give :: "nat \<Rightarrow> 's \<Rightarrow> 's option" and give_all :: "nat list \<Rightarrow> 's \<Rightarrow> 's option"
    and keeps :: "nat set \<Rightarrow> 's \<Rightarrow> 's \<Rightarrow> bool"
  assumes give_ok: "inv s \<Longrightarrow> may s p \<Longrightarrow> p \<notin> owned s \<Longrightarrow>
      \<exists>s'. give p s = Some s' \<and> inv s' \<and> owned s' = insert p (owned s) \<and> keeps (insert p (owned s)) s s'"
    and may_kept: "keeps A s s' \<Longrightarrow> q \<notin> A \<Longrightarrow> may s q \<Longrightarrow> may s' q"
    and keeps_refl: "keeps A s s" and keeps_trans: "keeps A s t \<Longrightarrow> keeps A t u \<Longrightarrow> keeps A s u"
    and keeps_mono: "keeps A s t \<Longrightarrow> A \<subseteq> B \<Longrightarrow> keeps B s t"
    and give_all_Nil: "give_all [] s = Some s"
    and give_all_Cons: "give_all (p # ps) s = (case give p s of None \<Rightarrow> None | Some s \<Rightarrow> give_all ps s)"
begin

lemma give_all_ok:
  assumes "inv s" "distinct ps" "set ps \<inter> owned s = {}" "\<And>p. p \<in> set ps \<Longrightarrow> may s p"
  shows "\<exists>s'. give_all ps s = Some s' \<and> inv s' \<and> owned s' = owned s \<union> set ps \<and> keeps (owned s \<union> set ps) s s'"
  using assms
proof (induction ps arbitrary: s)
  case Nil
  then show ?case by (simp add: give_all_Nil keeps_refl)
next
  case (Cons p ps)
  obtain s1 where s1: "give p s = Some s1" "inv s1" "owned s1 = insert p (owned s)" "keeps (insert p (owned s)) s s1"
    using give_ok [of s p] Cons.prems by auto
  have "may s1 q" if "q \<in> set ps" for q
    by (rule may_kept [OF s1(4)]) (use Cons.prems that in auto)
  moreover have "set ps \<inter> owned s1 = {}" using Cons.prems s1(3) by auto
  ultimately obtain s' where s': "give_all ps s1 = Some s'" "inv s'" "owned s' = owned s1 \<union> set ps"
    "keeps (owned s1 \<union> set ps) s1 s'"
    using Cons.IH [OF s1(2)] Cons.prems(2) by auto
  moreover have "keeps (owned s \<union> set (p # ps)) s s'"
    by (rule keeps_trans [OF keeps_mono [OF s1(4)] keeps_mono [OF s'(4)]]) (use s1(3) in auto)
  ultimately show ?case using s1(1,3) by (simp add: give_all_Cons insert_commute)
qed

end

lemma may_free_cong:
  "mem_map s' p = mem_map s p \<Longrightarrow> may_free s' p 0 = may_free s p 0"
  by (simp add: may_free_def PageAnon_def)

interpretation hot_cold: page_sink pool_ok pool "\<lambda>s p. may_free s p 0" "\<lambda>p. free_hot_cold_page p cold"
    "\<lambda>ps. free_hot_cold_page_list ps cold" pool_frame for cold
proof unfold_locales
  show "\<exists>s'. free_hot_cold_page p cold s = Some s' \<and> pool_ok s' \<and> pool s' = insert p (pool s) \<and>
      pool_frame (insert p (pool s)) s s'" if "pool_ok s" "may_free s p 0" "p \<notin> pool s" for s :: "'a mm_state" and p
    using free_hot_cold_page_gains [OF that, of cold] by (auto simp: gains_def)
  show "may_free s' q 0" if "pool_frame A s s'" "q \<notin> A" "may_free s q 0" for A and s s' :: "'a mm_state" and q
    using that may_free_cong [of s' q s] by (simp add: pool_frame_def)
qed (auto intro: pool_frame_trans pool_frame_mono)


section \<open>Draining\<close>

lemma drain_zone_ok:
  assumes ok: "pool_ok s"
  shows "\<exists>s'. drain_zone z (Some s) = Some s' \<and> same_pool s s' \<and>
    (populated_zone s z \<longrightarrow> pcp_pages s' z = {}) \<and> (\<forall>y. pcp_pages s' y \<subseteq> pcp_pages s y)"
proof (cases "populated_zone s z \<and> pcp_count (pcp s z) \<noteq> 0")
  case False
  note S = pool_okD [OF ok]
  have "finite (pcp_pages s z)" by (simp add: pcp_pages_def)
  then have "pcp_pages s z = {}" if "pcp_count (pcp s z) = 0"
    using S(2) [of z] that by (simp add: pcp_counted_def)
  then show ?thesis using False ok by (auto simp: drain_zone_def same_pool_def)
next
  case True
  note S = pool_okD [OF ok]
  let ?n = "card (pcp_pages s z)"
  have cnt: "pcp_count (pcp s y) = int (card (pcp_pages s y))" for y using S(2) [of y] by (simp add: pcp_counted_def)
  from bulk_ok [OF S(1,3) order_refl, of z] obtain s1 where
    s1: "free_pcppages_bulk z (int ?n) s = Some s1" "pool_struct s1" "\<And>y. free_counted s1 y" "pool s1 = pool s"
      "card (pcp_pages s1 z) = 0" "\<And>y. y \<noteq> z \<Longrightarrow> pcp_pages s1 y = pcp_pages s y"
      "\<And>y. pcp_count (pcp s1 y) = pcp_count (pcp s y)" "pool_frame (pool s) s s1" "merged s \<Longrightarrow> merged s1"
    by auto
  let ?s = "upd_pcp z (\<lambda>pc. pc\<lparr>pcp_count := 0\<rparr>) s1"
  have C: "pool_struct ?s" "free_pages ?s = free_pages s1" "pcp_pages ?s = pcp_pages s1"
    "buddy_key ?s = buddy_key s1" "page_zone ?s = page_zone s1"
    by (rule pool_struct_zone_cong [OF s1(2)]; simp add: upd_pcp_def upd_zone_def)+
  have "finite (pcp_pages s1 z)" by (simp add: pcp_pages_def)
  then have empty: "pcp_pages s1 z = {}" using s1(5) by simp
  have fr: "pool_frame (pool s) s1 ?s"
    using C(5) by (simp add: pool_frame_def upd_pcp_def upd_zone_def)
  have "pcp_count (pcp ?s y) = int (card (pcp_pages ?s y))" for y
    using cnt [of y] C(3) empty s1(6,7) [of y] by (auto simp: upd_pcp_def)
  moreover have "0 < pcp_batch (pcp ?s y) \<and> pcp_batch (pcp ?s y) \<le> pcp_high (pcp ?s y)" for y
    using S(2) [of y] pool_frame_trans [OF s1(8) fr] by (simp add: pcp_counted_def pool_frame_def)
  moreover have "free_counted ?s y" for y
    using s1(3) [of y] C(2,5) by (auto simp: free_counted_def zone_free_pages_def upd_pcp_def)
  ultimately have "pool_ok ?s" using C(1) by (intro pcp_count_card)
  then have "same_pool s ?s"
    using C s1(4,9) pool_frame_trans [OF s1(8) fr] by (simp add: same_pool_def pool_def)
  moreover have "drain_zone z (Some s) = Some ?s"
    using True s1(1) cnt [of z] by (simp add: drain_zone_def)
  moreover have "pcp_pages ?s y \<subseteq> pcp_pages s y" for y
    using C(3) empty s1(6) [of y] by (cases "y = z") simp_all
  ultimately show ?thesis using C(3) empty by auto
qed

lemma same_pool_trans: "same_pool s t \<Longrightarrow> same_pool t u \<Longrightarrow> same_pool s u"
  by (auto simp: same_pool_def intro: pool_frame_trans)

lemma populated_frame: "pool_frame A s s' \<Longrightarrow> populated_zone s' z = populated_zone s z"
  by (simp add: pool_frame_def populated_zone_def)

lemma drain_zones_ok:
  assumes "pool_ok s"
  shows "\<exists>s'. fold drain_zone zs (Some s) = Some s' \<and> same_pool s s' \<and>
    (\<forall>z. pcp_pages s' z \<subseteq> pcp_pages s z) \<and> (\<forall>z\<in>set zs. populated_zone s z \<longrightarrow> pcp_pages s' z = {})"
  using assms
proof (induction zs arbitrary: s)
  case Nil
  then show ?case by (simp add: same_pool_def)
next
  case (Cons z zs)
  obtain s1 where s1: "drain_zone z (Some s) = Some s1" "same_pool s s1"
    "populated_zone s z \<longrightarrow> pcp_pages s1 z = {}" "\<forall>y. pcp_pages s1 y \<subseteq> pcp_pages s y"
    using drain_zone_ok [OF Cons.prems] by blast
  have fr: "pool_ok s1" "pool_frame (pool s) s s1" using s1(2) by (simp_all add: same_pool_def)
  note ok1 = fr(1) populated_frame [OF fr(2)]
  obtain s' where s': "fold drain_zone zs (Some s1) = Some s'" "same_pool s1 s'"
    "\<forall>z. pcp_pages s' z \<subseteq> pcp_pages s1 z" "\<forall>z\<in>set zs. populated_zone s1 z \<longrightarrow> pcp_pages s' z = {}"
    using Cons.IH [OF ok1(1)] by blast
  have "pcp_pages s' y \<subseteq> pcp_pages s y" for y using s'(3) s1(4) by blast
  moreover have "populated_zone s y \<longrightarrow> pcp_pages s' y = {}" if "y \<in> set (z # zs)" for y
    using that s'(3,4) s1(3) ok1(2) by (cases "y = z") (force, auto)
  ultimately show ?case using s1(1) s'(1) same_pool_trans [OF s1(2) s'(2)] by auto
qed


section \<open>Giving back what was allocated\<close>

lemma handed_give_back:
  assumes h: "handed s z p k cmp s1"
  defines "s2 \<equiv> add_count (-1) p s1"
  shows "pool_ok s2" "may_free s2 p k" "held s2 z p k" "block p k \<inter> pool s2 = {}" "pool s2 = pool s - block p k"
    "put_page_testzero p s1 = (True, s2)" "pool_frame (block p k) s1 s2" "merged s \<Longrightarrow> merged s2"
proof -
  let ?M = "(mem_map s1)(p := (mem_map s1 p)\<lparr>pg_count := 0\<rparr>)"
  have H: "pool_ok s1" "pool s1 = pool s - block p k" "held s1 z p k" "merged s \<Longrightarrow> merged s1"
    "pg_count (mem_map s1 p) = 1"
    "\<And>q. q \<in> block p k \<Longrightarrow> pg_mapcount (mem_map s1 q) = -1 \<and> pg_mapping (mem_map s1 q) = Map_NULL \<and>
       (q \<noteq> p \<longrightarrow> pg_count (mem_map s1 q) = 0) \<and>
       (\<forall>f. pg_flags (mem_map s1 q) f \<longleftrightarrow> cmp \<and> f = (if q = p then PG_head else PG_tail))"
    using h by (simp_all add: handed_def)
  have s2: "s2 = s1\<lparr>mem_map := ?M\<rparr>" using H(5) by (simp add: s2_def add_count_def upd_page_def)
  have out: "p \<notin> pool s1" using H(2) by simp
  have "?M q = mem_map s1 q" if "q \<in> pool s1" for q using that out by auto
  moreover have "pg_zonenum (?M q) = pg_zonenum (mem_map s1 q)" for q by simp
  moreover have "pg_mapcount (?M q) \<noteq> PAGE_BUDDY_MAPCOUNT_VALUE" if "q \<notin> pool s1" for q
    using pool_struct_PageBuddy [OF that] by (auto simp: PageBuddy_def)
  ultimately have C: "pool_ok s2" "free_pages s2 = free_pages s1" "pool s2 = pool s1" "buddy_key s2 = buddy_key s1"
    "page_zone s2 = page_zone s1"
    unfolding s2 using pool_ok_outside [OF H(1), of ?M] by blast+
  then show "pool_ok s2" "pool s2 = pool s - block p k" "held s2 z p k" "block p k \<inter> pool s2 = {}"
    "merged s \<Longrightarrow> merged s2"
    using H(2-4) by (auto simp: held_def)
  show "may_free s2 p k"
    unfolding may_free_def using H(6) by (auto simp: s2 PAGE_FLAGS_CHECK_AT_FREE_def)
  show "put_page_testzero p s1 = (True, s2)"
    using H(5) by (simp add: put_page_testzero_def s2_def add_count_def)
  show "pool_frame (block p k) s1 s2"
    using C(5) by (auto simp: pool_frame_def s2)
qed

lemma give_back_gains:
  assumes h: "handed s z p k cmp s1"
  shows "\<exists>s2. raw_free_pages p k s1 = Some s2 \<and> gains (add_count (-1) p s1) (block p k) s2"
proof -
  note G = handed_give_back [OF h]
  let ?s = "add_count (-1) p s1"
  have zone: "page_zone ?s p = z" by (rule heldD(3) [OF G(3)])
  show ?thesis
  proof (cases "k = 0")
    case True
    then show ?thesis
      using free_hot_cold_page_gains [OF G(1), of p False] G(2,4,6) by (auto simp: raw_free_pages_def)
  next
    case False
    then show ?thesis
      using raw_free_pages_ok_gains [OF G(1,2) _ G(4)] G(3,6) zone by (simp add: raw_free_pages_def)
  qed
qed


section \<open>The LRU lists\<close>

lemma pool_clean:
  assumes "pool_struct s" "q \<in> pool s"
  shows "clean (mem_map s q)"
  using assms pool_structD(3,6) [OF assms(1)] by (auto simp: pool_def buddy_clean_def pcp_page_ok_def)

lemma lru_kept:
  assumes fr: "pool_frame B s s'" and B: "\<And>q. q \<in> B \<Longrightarrow> \<not> PageLRU s q \<and> \<not> PageLRU s' q"
  shows "lru_inv_upto D s' = lru_inv_upto D s"
proof (rule lru_inv_cong)
  show "lru_place (mem_map s' q) = lru_place (mem_map s q)" for q
    using fr B [of q] by (cases "q \<in> B") (simp_all add: lru_place_def PageFlag_def pool_frame_def)
  show "lists (node_zones s' z) = lists (node_zones s z)" for z using fr by (simp add: pool_frame_def)
  have "nr_lru l \<notin> {NR_FREE_PAGES, NR_MLOCK}" for l by (cases l) simp_all
  then show "vm_stat (node_zones s' z) (nr_lru l) = vm_stat (node_zones s z) (nr_lru l)" for z l
    using fr by (simp add: pool_frame_def)
qed

lemma clean_not_lru: "pool_ok s \<Longrightarrow> q \<in> pool s \<Longrightarrow> \<not> PageLRU s q"
  using pool_clean pool_okD(1) by (fastforce simp: clean_def PageFlag_def)

lemma gains_lru:
  assumes "pool_ok s" "gains s A s'" "\<And>q. q \<in> A \<Longrightarrow> \<not> PageLRU s q"
  shows "lru_inv_upto D s' = lru_inv_upto D s"
  by (rule lru_kept [of "pool s \<union> A"]) (use assms clean_not_lru in \<open>auto simp: gains_def\<close>)

lemma may_free_not_lru: "may_free s p k \<Longrightarrow> q \<in> block p k \<Longrightarrow> \<not> PageLRU s q"
  by (auto simp: may_free_def PAGE_FLAGS_CHECK_AT_FREE_def PageFlag_def)

lemma handed_lru:
  assumes "pool_ok s" "handed s z p k cmp s'"
  shows "lru_inv_upto D s' = lru_inv_upto D s"
proof (rule lru_kept)
  show "pool_frame (pool s) s s'" using assms(2) by (simp add: handed_def)
  fix q
  assume q: "q \<in> pool s"
  have "\<not> PageLRU s' q"
  proof (cases "q \<in> block p k")
    case True
    then show ?thesis using assms(2) by (auto simp: handed_def PageFlag_def)
  next
    case False
    then show ?thesis using assms(2) q clean_not_lru [of s' q] by (simp add: handed_def)
  qed
  then show "\<not> PageLRU s q \<and> \<not> PageLRU s' q" using clean_not_lru [OF assms(1) q] by simp
qed

lemma same_pool_lru:
  assumes "pool_ok s" "same_pool s s'"
  shows "lru_inv_upto D s' = lru_inv_upto D s"
  by (rule lru_kept [of "pool s"]) (use assms clean_not_lru [of s] clean_not_lru [of s'] in \<open>auto simp: same_pool_def\<close>)


section \<open>A small example\<close>

text \<open>Eight free pages, given to the allocator as one block; and the state before.\<close>

definition blank :: "unit mm_state" where
  "blank = (idle_state ())\<lparr>mem_map := \<lambda>_. idle_page\<lparr>pg_count := 0\<rparr>\<rparr>"

definition eight_pages :: "unit mm_state" where
  "eight_pages = raw_free_pages_ok 8 3 blank"

lemma blank_fields [simp]:
  "mem_map blank q = idle_page\<lparr>pg_count := 0\<rparr>" "node_zones blank z = idle_zone" "page_zone blank q = 0"
  by (simp_all add: blank_def idle_state_def idle_page_def page_zone_def)

lemma blank_key [simp]: "buddy_key blank = (\<lambda>_. None)" "free_pages blank = {}" "pcp_pages blank z = {}" "pool blank = {}"
proof -
  show key: "buddy_key blank = (\<lambda>_. None)"
    by (simp add: fun_eq_iff buddy_key_def PageBuddy_def idle_page_def PAGE_BUDDY_MAPCOUNT_VALUE_def)
  then show free: "free_pages blank = {}" by (simp add: free_pages_def covered_def)
  show pcp: "pcp_pages blank z = {}" for z by (simp add: pcp_pages_def pcp_all_def idle_zone_def)
  then show "pool blank = {}" using free by (simp add: pool_def)
qed

lemma blank_type [simp]: "get_pageblock_migratetype blank p = 0"
  by (simp add: get_migratetype_bits Let_def idle_zone_def)

lemma pool_ok_blank: "pool_ok blank"
proof -
  have "buddy_ok blank"
    by (simp add: buddy_upto_def blocks_ok_def listed_def counted_def free_lists_def nr_frees_def idle_zone_def)
  moreover have "pcp_struct blank z" for z by (simp add: pcp_struct_def pcp_all_three idle_zone_def)
  ultimately have "pool_struct blank" by (simp add: pool_struct_def typed_def buddy_clean_def MIGRATE_TYPES_def)
  moreover have "pcp_counted blank z" "free_counted blank z" for z
    by (simp_all add: pcp_counted_def free_counted_def zone_free_pages_def idle_zone_def)
  ultimately show ?thesis by (simp add: pool_ok_def)
qed

lemma blank_may_free: "may_free blank p k"
  by (simp add: may_free_def idle_page_def)

lemma blank_held: "2 ^ k dvd p \<Longrightarrow> k < MAX_ORDER \<Longrightarrow> held blank 0 p k"
  by (simp add: held_def one_zone_def)

lemma eight_pages_gains: "gains blank (block 8 3) eight_pages"
  unfolding eight_pages_def
  by (rule raw_free_pages_ok_gains [OF pool_ok_blank blank_may_free]) (simp_all add: blank_held MAX_ORDER_def)

lemma eight_pages_ok:
  "pool_ok eight_pages" "pool eight_pages = block 8 3" "merged eight_pages" "zone_spans eight_pages z = zone_spans blank z"
  "page_zone eight_pages = (\<lambda>_. 0)" "zone_spans eight_pages 0" "nr_zones eight_pages = 3"
proof -
  have "merged blank" by (simp add: coalesced_def)
  then show "pool_ok eight_pages" "pool eight_pages = block 8 3" "merged eight_pages"
    using eight_pages_gains by (simp_all add: gains_def)
  have fr: "pool_frame (block 8 3) blank eight_pages" using eight_pages_gains by (simp add: gains_def)
  from zone_spans_pool_frame [OF fr] show "zone_spans eight_pages z = zone_spans blank z" for z .
  moreover have "zone_spans blank 0" by (auto simp: zone_spans_def idle_zone_def)
  ultimately show "zone_spans eight_pages 0" by simp
  have "page_zone blank = (\<lambda>_. 0)" "nr_zones blank = 3" by (simp add: fun_eq_iff) (simp add: blank_def idle_state_def)
  then show "page_zone eight_pages = (\<lambda>_. 0)" "nr_zones eight_pages = 3" using fr unfolding pool_frame_def by metis+
qed

lemma eight_pages_listed: "zone_free eight_pages 0 3 0 = [8]"
proof -
  let ?w = "count_vm_events PGFREE 8 (wipe (block 8 3) blank)"
  let ?s1 = "reset_scanned 0 ?w"
  have key: "buddy_key ?s1 = (\<lambda>_. None)"
    by (simp add: fun_eq_iff buddy_key_def PageBuddy_def wipe_def idle_page_def PAGE_BUDDY_MAPCOUNT_VALUE_def)
  have "8 = take_bit MAX_ORDER (8 :: nat)" by (simp add: MAX_ORDER_def)
  from free_merge_stop [OF this, of 3 ?s1 0 0]
  obtain b where merge: "free_merge 0 8 8 0 3 ?s1 = ((8, 8, b, 3), ?s1)" by (simp add: page_is_buddy_key key)
  have place: "zone_free (free_place 0 0 ((8, 8, b, 3), ?s1)) 0 3 0 = [8]"
    by (simp add: free_place_def Let_def free_link_def free_link_tail_def add_nr_free_def set_page_order_def
        upd_zone_def c_simps wipe_def count_vm_events_def idle_zone_def)
  have type: "get_pageblock_migratetype ?w 8 = 0"
    by (simp add: get_migratetype_bits Let_def idle_zone_def wipe_def)
  have "\<not> PageMlocked blank 8" by (simp add: PageFlag_def idle_page_def)
  then have "eight_pages = free_one_page (page_zone ?w 8) 8 3 0 ?w"
    using free_pages_prepare_ok [OF blank_may_free, of 8 3] type by (simp add: eight_pages_def raw_free_pages_ok_def Let_def)
  moreover have "page_zone ?w 8 = 0" by (simp add: page_zone_def wipe_def idle_page_def)
  moreover have "\<not> PageCompound ?s1 8" by (simp add: PageCompound_def PageFlag_def wipe_def idle_page_def)
  ultimately have eq: "eight_pages = mod_zone_page_state 0 NR_FREE_PAGES 8 (free_place 0 0 ((8, 8, b, 3), ?s1))"
    using merge by (simp add: free_one_page_def raw_free_one_page_def MAX_ORDER_def flip: reset_scanned_def)
  show ?thesis unfolding eq using place by simp
qed

lemma eight_pages_block: "k \<le> 3 \<Longrightarrow> \<not> no_block eight_pages 0 k"
  using eight_pages_listed unfolding no_block_def MAX_ORDER_def MIGRATE_ISOLATE_def
  by (intro notI) (drule spec [of _ 3], drule spec [of _ 0], simp)

lemma eight_pages_allocates:
  assumes "k \<le> 3" "t < MIGRATE_PCPTYPES"
  shows "\<exists>p s'. buffered_rmqueue 0 k gfp_flags t eight_pages = Some (Some p, s')"
  using eight_pages_block [OF assms(1)] buffered_rmqueue_ok [OF eight_pages_ok(1,6) assms(2), of k gfp_flags] by blast


section \<open>Refusing pages in use\<close>

lemma calls_kcall: "calls (kcall c s) = calls s @ [c]"
  by (simp add: kcall_def)

lemma pool_ok_kcall [simp]: "pool_ok (kcall c s) = pool_ok s" "pool (kcall c s) = pool s"
proof -
  have eq: "buddy_key (kcall c s) = buddy_key s" "page_zone (kcall c s) = page_zone s"
    "pcp_pages (kcall c s) = pcp_pages s" "free_lists (kcall c s) = free_lists s" "nr_frees (kcall c s) = nr_frees s"
    by (simp_all add: fun_eq_iff buddy_key_def PageBuddy_def page_order_def page_zone_def pcp_pages_def
        free_lists_def nr_frees_def)
  then have free: "free_pages (kcall c s) = free_pages s" by (simp add: free_pages_def)
  then show "pool (kcall c s) = pool s" using eq by (simp add: pool_def)
  have "pool_struct (kcall c s) = pool_struct s"
    using eq free typed_cong [of "kcall c s" s]
    by (simp add: pool_struct_def buddy_upto_def buddy_clean_def pcp_struct_def pcp_page_ok_def)
  then show "pool_ok (kcall c s) = pool_ok s"
    using eq free by (simp add: pool_ok_def pcp_counted_def free_counted_def zone_free_pages_def)
qed

text \<open>The reasons for which \<^verbatim>\<open>free_pages_check\<close> takes a page for being in use.\<close>

definition in_use :: "'w mm_state \<Rightarrow> nat \<Rightarrow> bool" where
  "in_use s p \<longleftrightarrow>
     pg_mapcount (mem_map s p) \<noteq> -1 \<or> pg_count (mem_map s p) \<noteq> 0 \<or>
     (\<exists>a. pg_mapping (mem_map s p) = Map_as a) \<or>
     list_ex (\<lambda>f. pg_flags (mem_map s p) f \<and> f \<noteq> PG_mlocked) PAGE_FLAGS_CHECK_AT_FREE"

lemma prepare_in_use:
  assumes "in_use s p"
  shows "\<exists>M. free_pages_prepare p 0 (ClearPage PG_mlocked p s) = (False, kcall (Bad_page p) (s\<lparr>mem_map := M\<rparr>)) \<and>
    (\<forall>q. q \<noteq> p \<longrightarrow> M q = mem_map s q) \<and> pg_zonenum (M p) = pg_zonenum (mem_map s p) \<and> pg_mapcount (M p) = -1 \<and>
    pg_count (M p) = pg_count (mem_map s p)"
proof -
  let ?s1 = "ClearPage PG_mlocked p s"
  let ?s2 = "if PageAnon ?s1 p then upd_page p (\<lambda>pg. pg\<lparr>pg_mapping := Map_NULL\<rparr>) ?s1 else ?s1"
  let ?pg = "mem_map ?s2 p"
  have "list_ex (pg_flags ?pg) PAGE_FLAGS_CHECK_AT_FREE"
    if "list_ex (\<lambda>f. pg_flags (mem_map s p) f \<and> f \<noteq> PG_mlocked) PAGE_FLAGS_CHECK_AT_FREE"
    using that by (auto simp: list_ex_iff c_simps)
  moreover have "pg_mapping ?pg \<noteq> Map_NULL" if "pg_mapping (mem_map s p) = Map_as a" for a
    using that by (simp add: PageAnon_def c_simps)
  moreover have "pg_mapcount ?pg = pg_mapcount (mem_map s p)" "pg_count ?pg = pg_count (mem_map s p)"
    by (simp_all add: c_simps)
  ultimately have "free_pages_check p ?s2 = (True, bad_page p ?s2)"
    using assms by (auto simp: in_use_def free_pages_check_def page_mapcount_def Let_def)
  then have "free_pages_prepare p 0 ?s1 = (False, bad_page p ?s2)"
    by (simp add: free_pages_prepare_def Let_def upt_conv_Cons)
  moreover have "bad_page p ?s2 = kcall (Bad_page p) (s\<lparr>mem_map := (mem_map s)(p := ?pg\<lparr>pg_mapcount := -1\<rparr>)\<rparr>)"
    by (simp add: bad_page_def upd_page_def c_simps)
  ultimately show ?thesis by (intro exI [of _ "(mem_map s)(p := ?pg\<lparr>pg_mapcount := -1\<rparr>)"]) (simp add: c_simps)
qed


section \<open>Properties\<close>

text \<open>
  C2. \<^verbatim>\<open>buffered_rmqueue\<close> returns. It takes exactly the block it hands out from the pool, keeps the invariant of
  the allocator, and hands out pages that are mapped nowhere, belong to no file, have one reference on the
  first page, and have no flag but those of a compound page when one was asked for. It fails only when the zone has
  no block of the order or above in the lists of any type but isolated, and then changes no ownership.
\<close>

theorem buffered_rmqueue_spec:
  assumes "pool_ok s" "zone_spans s z" "t < MIGRATE_PCPTYPES"
  shows "(\<exists>s'. buffered_rmqueue z k gfp_flags t s = Some (None, s') \<and> same_pool s s' \<and> no_block s z k) \<or>
    (\<exists>p s'. buffered_rmqueue z k gfp_flags t s = Some (Some p, s') \<and>
       handed s z p k (k \<noteq> 0 \<and> gfp_flags AND GFP_COMP \<noteq> 0) s')"
  by (rule buffered_rmqueue_ok [OF assms])

theorem buffered_rmqueue_spec_witness:
  "\<exists>p s'. buffered_rmqueue 0 2 GFP_COMP 2 eight_pages = Some (Some p, s') \<and> handed eight_pages 0 p 2 True s' \<and>
     pool s' = block 8 3 - block p 2"
proof -
  have "(2 :: nat) < MIGRATE_PCPTYPES" by (simp add: MIGRATE_PCPTYPES_def)
  note B = buffered_rmqueue_spec [OF eight_pages_ok(1,6) this, of 2 GFP_COMP]
    and A = eight_pages_allocates [OF _ this, of 2 GFP_COMP]
  have "GFP_COMP AND GFP_COMP \<noteq> 0" by (simp add: GFP_COMP_def)
  then show ?thesis using A B by (auto simp: handed_def eight_pages_ok(2))
qed

text \<open>
  C3. \<^verbatim>\<open>free_hot_cold_page_list\<close> returns for every list of pages that may be freed, keeps the invariant of the
  allocator, adds exactly these pages to the pool, and changes no other page.
\<close>

theorem free_list_spec:
  assumes "pool_ok s" "distinct ps" "set ps \<inter> pool s = {}" "\<And>p. p \<in> set ps \<Longrightarrow> may_free s p 0"
  shows "\<exists>s'. free_hot_cold_page_list ps cold s = Some s' \<and> pool_ok s' \<and> pool s' = pool s \<union> set ps \<and>
    (\<forall>q. q \<notin> pool s \<union> set ps \<longrightarrow> mem_map s' q = mem_map s q)"
  using hot_cold.give_all_ok [OF assms, of cold] by (auto simp: pool_frame_def)

theorem free_list_spec_witness:
  "\<exists>s'. free_hot_cold_page_list [3, 5, 4] False blank = Some s' \<and> pool_ok s' \<and> pool s' = {3, 4, 5}"
  using free_list_spec [of blank "[3, 5, 4]" False] pool_ok_blank blank_may_free by auto

text \<open>
  C4. \<^verbatim>\<open>__free_one_page\<close> on the free lists is the union with the freed block on sets of pages. It keeps the lists,
  the page fields and the counters consistent, and if no two free buddies were apart before, none are
  afterwards, below the largest order.
\<close>

theorem free_merges_buddies:
  assumes "buddy_ok s" "merged s" "held s z p k" "t < MIGRATE_TYPES" "\<not> PageCompound s p"
  defines "s' \<equiv> raw_free_one_page p z k t s"
  shows "buddy_ok s' \<and> free_pages s' = free_pages s \<union> block p k \<and>
    (\<forall>q j. buddy_key s' q = Some j \<and> buddy_key s' (flip_bit j q) = Some j \<and>
       page_zone s' (flip_bit j q) = page_zone s' q \<longrightarrow> j = MAX_ORDER - 1)"
proof -
  note F = raw_free_one_page_ok [OF assms(1,3-5), folded s'_def]
  have "j = MAX_ORDER - 1" if "buddy_key s' q = Some j" "buddy_key s' (flip_bit j q) = Some j"
    "page_zone s' (flip_bit j q) = page_zone s' q" for q j
    using F(4) [OF assms(2)] that blocks_okD(1) [OF buddy_uptoD(1) [OF F(1)] that(1)]
    by (force simp: coalesced_def)
  then show ?thesis using F(1,2) by blast
qed

theorem free_merges_buddies_witness:
  "buddy_ok (raw_free_one_page 0 0 3 0 eight_pages) \<and>
   free_pages (raw_free_one_page 0 0 3 0 eight_pages) = free_pages eight_pages \<union> block 0 3"
proof -
  have fr: "pool_frame (block 8 3) blank eight_pages" using eight_pages_gains by (simp add: gains_def)
  have out: "block 0 3 \<inter> block 8 3 = {}" by (auto simp: block_def)
  have "mem_map eight_pages 0 = mem_map blank 0" using fr by (simp add: pool_frame_def block_def)
  then have "\<not> PageCompound eight_pages 0" by (simp add: PageCompound_def PageFlag_def idle_page_def)
  moreover have "held eight_pages 0 0 3"
    using out eight_pages_ok(2,5) by (auto simp: held_def one_zone_def MAX_ORDER_def pool_def)
  ultimately show ?thesis
    using free_merges_buddies [of eight_pages 0 0 3 0] eight_pages_ok(3) pool_structD(1) [OF pool_okD(1) [OF eight_pages_ok(1)]]
    by (auto simp: MIGRATE_TYPES_def)
qed

text \<open>
  C5. Freeing undoes allocating: \<^verbatim>\<open>__free_pages\<close> on the block that \<^verbatim>\<open>buffered_rmqueue\<close> just handed out, compound or
  not and of any order, returns, keeps the invariant of the allocator and gives the pool it had.
\<close>

theorem alloc_free_restores_pool:
  assumes "pool_ok s" "zone_spans s z" "t < MIGRATE_PCPTYPES"
    and "buffered_rmqueue z k gfp_flags t s = Some (Some p, s1)"
  shows "\<exists>s2. raw_free_pages p k s1 = Some s2 \<and> pool_ok s2 \<and> pool s2 = pool s \<and>
    (\<forall>q. q \<notin> pool s \<longrightarrow> mem_map s2 q = mem_map s q)"
proof -
  let ?s = "add_count (-1) p s1"
  obtain cmp where h: "handed s z p k cmp s1" using buffered_rmqueue_ok [OF assms(1-3), of k gfp_flags] assms(4) by auto
  then have sub: "block p k \<subseteq> pool s" and fr: "pool_frame (pool s) s s1" by (simp_all add: handed_def)
  note G = handed_give_back [OF h]
  obtain s2 where s2: "raw_free_pages p k s1 = Some s2" "gains ?s (block p k) s2" using give_back_gains [OF h] by blast
  have restored: "pool ?s \<union> block p k = pool s" using sub G(5) by auto
  then have "pool_frame (pool s) ?s s2" using s2(2) by (simp add: gains_def)
  then have "pool_frame (pool s) s s2"
    by (rule pool_frame_trans [OF pool_frame_trans [OF fr pool_frame_mono [OF G(7) sub]]])
  then show ?thesis using s2 restored by (simp add: gains_def pool_frame_def)
qed

theorem alloc_free_restores_pool_witness:
  "\<exists>p s1 s2. buffered_rmqueue 0 0 GFP_COLD 1 eight_pages = Some (Some p, s1) \<and> raw_free_pages p 0 s1 = Some s2 \<and>
     pool_ok s2 \<and> pool s2 = block 8 3"
proof -
  have t: "(1 :: nat) < MIGRATE_PCPTYPES" by (simp add: MIGRATE_PCPTYPES_def)
  from eight_pages_allocates [OF _ t, of 0 GFP_COLD] obtain p s1
    where run: "buffered_rmqueue 0 0 GFP_COLD 1 eight_pages = Some (Some p, s1)" by auto
  from alloc_free_restores_pool [OF eight_pages_ok(1,6) t run] show ?thesis using run eight_pages_ok(2) by auto
qed

text \<open>
  C6. On the buddy lists the round trip is exact: after \<^verbatim>\<open>__rmqueue\<close> split a block, whatever fallback it took, freeing the
  page it returned merges the pieces back, and every page heads a free block of the order it had before.
\<close>

theorem rmqueue_free_restores_blocks:
  assumes "pool_ok s" "merged s" "zone_spans s z" "t < MIGRATE_PCPTYPES" "u < MIGRATE_TYPES"
    and "raw_rmqueue z k t s = Some (Some p, s1)"
  shows "buddy_ok (raw_free_one_page p z k u s1) \<and> buddy_key (raw_free_one_page p z k u s1) = buddy_key s"
proof -
  let ?s = "raw_free_one_page p z k u s1"
  note S = pool_okD(1) [OF assms(1)] and B = pool_structD(1) [OF pool_okD(1) [OF assms(1)]]
  have T: "buddy_ok s1" "takes s z p k s1" using raw_rmqueue_ok [OF B assms(3,4), of k] assms(6) by auto
  note T' = takesD [OF T(2)]
  have "\<not> PageCompound s1 p"
    using takes_pool(2) [OF S T] by (auto simp: ready_def clean_def PageCompound_def PageFlag_def)
  note F = raw_free_one_page_ok [OF T(1) T'(1) assms(5) this]
  have "free_pages ?s = free_pages s" using F(2) T'(2,3) by auto
  moreover have "page_zone ?s = page_zone s" using F(3) buddy_frameD(10) [OF T'(5)] by simp
  ultimately have "buddy_key ?s = buddy_key s"
    using buddy_uptoD(1) [OF F(1)] buddy_uptoD(1) [OF B] F(4) [OF T'(4) [OF assms(2)]] assms(2)
    by (intro covered_determines_blocks [of "page_zone s"]) (simp_all add: free_pages_def)
  then show ?thesis using F(1) by simp
qed

theorem rmqueue_free_restores_blocks_witness:
  "\<exists>p s1. raw_rmqueue 0 1 2 eight_pages = Some (Some p, s1) \<and>
     buddy_key (raw_free_one_page p 0 1 0 s1) = buddy_key eight_pages"
proof -
  have t: "(2 :: nat) < MIGRATE_PCPTYPES" by (simp add: MIGRATE_PCPTYPES_def)
  have "\<not> no_block eight_pages 0 1" by (rule eight_pages_block) simp
  then obtain p s1 where run: "raw_rmqueue 0 1 2 eight_pages = Some (Some p, s1)"
    using raw_rmqueue_ok [OF pool_structD(1) [OF pool_okD(1) [OF eight_pages_ok(1)]] eight_pages_ok(6) t, of 1]
    unfolding no_block_def by blast
  then show ?thesis
    using rmqueue_free_restores_blocks [OF eight_pages_ok(1,3,6) t _ run, of 0] by (auto simp: MIGRATE_TYPES_def)
qed

text \<open>
  C7. \<^verbatim>\<open>drain_all_pages\<close> returns: its loops, which would spin on empty lists, are never asked for more pages than the
  lists hold. Afterwards no populated zone has a page on a per-processor list, the pool is the same, and no
  page outside it changed.
\<close>

theorem drain_all_pages_spec:
  assumes "pool_ok s"
  shows "\<exists>s'. drain_all_pages s = Some s' \<and> pool_ok s' \<and> pool s' = pool s \<and>
    (\<forall>z < nr_zones s. populated_zone s z \<longrightarrow> pcp_pages s' z = {}) \<and> (\<forall>q. q \<notin> pool s \<longrightarrow> mem_map s' q = mem_map s q)"
proof (cases "list_ex (\<lambda>z. populated_zone s z \<and> pcp_count (pcp s z) \<noteq> 0) [0..<nr_zones s]")
  case True
  then show ?thesis
    using drain_zones_ok [OF assms, of "[0..<nr_zones s]"]
    by (auto simp: drain_all_pages_def drain_local_pages_def drain_pages_def same_pool_def pool_frame_def)
next
  case False
  have "pcp_pages s z = {}" if "z < nr_zones s" "populated_zone s z" for z
  proof -
    have "pcp_count (pcp s z) = 0" using False that by (auto simp: list_ex_iff)
    moreover have "finite (pcp_pages s z)" by (simp add: pcp_pages_def)
    ultimately show ?thesis using pool_okD(2) [OF assms, of z] by (simp add: pcp_counted_def)
  qed
  moreover have "drain_all_pages s = Some s" using False by (simp add: drain_all_pages_def)
  ultimately show ?thesis using assms by simp
qed

theorem drain_all_pages_spec_witness:
  "\<exists>s1 s2. free_hot_cold_page_list [3, 5, 4] False blank = Some s1 \<and> drain_all_pages s1 = Some s2 \<and> pool_ok s2 \<and>
     pool s2 = {3, 4, 5}"
proof -
  obtain s1 where "free_hot_cold_page_list [3, 5, 4] False blank = Some s1" "pool_ok s1" "pool s1 = {3, 4, 5}"
    using hot_cold.give_all_ok [of blank "[3, 5, 4]" False] pool_ok_blank blank_may_free by auto
  then show ?thesis using drain_all_pages_spec [of s1] by auto
qed

text \<open>
  C15. The allocator and the LRU lists do not disturb each other: allocating from any zone and freeing a page that is
  not on an LRU list both keep the invariant of the LRU lists and their counters.
\<close>

theorem allocator_keeps_lru:
  assumes "pool_ok s" "lru_inv s" "zone_spans s z" "t < MIGRATE_PCPTYPES" "may_free s p 0" "p \<notin> pool s"
  shows "(\<exists>r s'. buffered_rmqueue z k gfp_flags t s = Some (r, s') \<and> lru_inv s' \<and> pool_ok s') \<and>
    (\<exists>s'. free_hot_cold_page p cold s = Some s' \<and> lru_inv s' \<and> pool_ok s')"
proof
  show "\<exists>r s'. buffered_rmqueue z k gfp_flags t s = Some (r, s') \<and> lru_inv s' \<and> pool_ok s'"
    using buffered_rmqueue_ok [OF assms(1,3,4), of k gfp_flags]
  proof (elim disjE exE conjE)
    fix s'
    assume run: "buffered_rmqueue z k gfp_flags t s = Some (None, s')" "same_pool s s'"
    then have "pool_ok s'" by (simp add: same_pool_def)
    then show ?thesis using run(1) same_pool_lru [OF assms(1) run(2)] assms(2) by blast
  next
    fix q s'
    assume run: "buffered_rmqueue z k gfp_flags t s = Some (Some q, s')"
      "handed s z q k (k \<noteq> 0 \<and> gfp_flags AND GFP_COMP \<noteq> 0) s'"
    then have "pool_ok s'" by (simp add: handed_def)
    then show ?thesis using run(1) handed_lru [OF assms(1) run(2)] assms(2) by blast
  qed
  obtain s' where s': "free_hot_cold_page p cold s = Some s'" "gains s {p} s'"
    using free_hot_cold_page_gains [OF assms(1,5,6)] by blast
  have "\<not> PageLRU s q" if "q \<in> {p}" for q using may_free_not_lru [OF assms(5), of q] that by simp
  then have "lru_inv s'" using gains_lru [OF assms(1) s'(2)] assms(2) by simp
  then show "\<exists>s'. free_hot_cold_page p cold s = Some s' \<and> lru_inv s' \<and> pool_ok s'"
    using s' by (auto simp: gains_def)
qed

theorem allocator_keeps_lru_witness:
  "\<exists>r s'. buffered_rmqueue 0 3 0 0 eight_pages = Some (r, s') \<and> lru_inv s' \<and> pool_ok s'"
proof -
  have fr: "pool_frame (block 8 3) blank eight_pages" using eight_pages_gains by (simp add: gains_def)
  have "lru_boot blank" by (simp add: lru_boot_def idle_page_def idle_zone_def PageFlag_def) (simp add: blank_def idle_state_def pagevec_init_def)
  then have "lru_inv blank" using mm_inv_boot [of blank] by (simp add: mm_inv_def)
  moreover have "\<not> PageLRU blank q" for q by (simp add: PageFlag_def idle_page_def)
  ultimately have inv: "lru_inv eight_pages" using gains_lru [OF pool_ok_blank eight_pages_gains] by simp
  have out: "(0 :: nat) \<notin> pool eight_pages" by (simp add: eight_pages_ok(2) block_def)
  moreover have "may_free eight_pages 0 0"
    using blank_may_free [of 0 0] fr may_free_cong [of eight_pages 0 blank] by (simp add: pool_frame_def block_def)
  moreover have "(0 :: nat) < MIGRATE_PCPTYPES" by (simp add: MIGRATE_PCPTYPES_def)
  ultimately show ?thesis using allocator_keeps_lru [OF eight_pages_ok(1) inv eight_pages_ok(6)] by blast
qed



text \<open>
  C17. A page that is still mapped, referenced, in a file, locked, or on an LRU list is not freed: \<^verbatim>\<open>free_hot_cold_page\<close>
  reports it with \<^verbatim>\<open>bad_page\<close>, never adds it to the pool, and keeps the invariant of the allocator. Its
  mapping count is reset and its reference count kept, so it is lost rather than reused.
\<close>

theorem bad_page_not_freed:
  assumes "pool_ok s" "p \<notin> pool s" "in_use s p"
  shows "\<exists>s'. free_hot_cold_page p cold s = Some s' \<and> pool_ok s' \<and> pool s' = pool s \<and>
    calls s' = calls s @ [Bad_page p] \<and> pg_mapcount (mem_map s' p) = -1 \<and>
    pg_count (mem_map s' p) = pg_count (mem_map s p) \<and> (\<forall>q. q \<noteq> p \<longrightarrow> mem_map s' q = mem_map s q)"
proof -
  obtain M where M: "free_pages_prepare p 0 (ClearPage PG_mlocked p s) = (False, kcall (Bad_page p) (s\<lparr>mem_map := M\<rparr>))"
    "\<forall>q. q \<noteq> p \<longrightarrow> M q = mem_map s q" "pg_zonenum (M p) = pg_zonenum (mem_map s p)" "pg_mapcount (M p) = -1"
    "pg_count (M p) = pg_count (mem_map s p)"
    using prepare_in_use [OF assms(3)] by blast
  have "free_hot_cold_page p cold s = Some (kcall (Bad_page p) (s\<lparr>mem_map := M\<rparr>))"
    using M(1) by (simp add: free_hot_cold_page_def Let_def)
  moreover have "M q = mem_map s q" if "q \<in> pool s" for q using that assms(2) M(2) by metis
  moreover have "pg_zonenum (M q) = pg_zonenum (mem_map s q)" for q using M(2,3) by (cases "q = p") simp_all
  moreover have "pg_mapcount (M q) \<noteq> PAGE_BUDDY_MAPCOUNT_VALUE" if "q \<notin> pool s" for q
    using that M(2,4) pool_struct_PageBuddy [OF that]
    by (cases "q = p") (auto simp: PageBuddy_def PAGE_BUDDY_MAPCOUNT_VALUE_def)
  ultimately show ?thesis using pool_ok_outside(1,3) [OF assms(1), of M] M(2,4,5) by (simp add: calls_kcall)
qed

theorem bad_page_not_freed_witness:
  "\<exists>s'. free_hot_cold_page 5 True (SetPage PG_lru 5 blank) = Some s' \<and> pool_ok s' \<and> pool s' = {} \<and>
     calls s' = [Bad_page 5]"
proof -
  let ?s = "SetPage PG_lru 5 blank"
  have s: "?s = blank\<lparr>mem_map := mem_map ?s\<rparr>" by (simp add: SetPage_def upd_page_def)
  have "pool_ok (blank\<lparr>mem_map := mem_map ?s\<rparr>)" "pool (blank\<lparr>mem_map := mem_map ?s\<rparr>) = pool blank"
    using pool_ok_outside(1,3) [OF pool_ok_blank, of "mem_map ?s"]
    by (simp_all add: c_simps idle_page_def PAGE_BUDDY_MAPCOUNT_VALUE_def)
  then have ok: "pool_ok ?s" "pool ?s = {}" using s by (metis, metis blank_key(4))
  have use: "in_use ?s 5" by (simp add: in_use_def c_simps PAGE_FLAGS_CHECK_AT_FREE_def)
  have "calls ?s = []" by (simp add: SetPage_def upd_page_def blank_def idle_state_def)
  then show ?thesis using bad_page_not_freed [OF ok(1) _ use, of True] ok(2) by auto
qed

end
