(* ===== verification/Vmscan_Page.thy ===== *)
theory Vmscan_Page
  imports Mm_Swap
begin

text \<open>
  \<^verbatim>\<open>mm/vmscan.c\<close>, first part: the fate of one page. The scan control structure, putting pages back on
  the LRU, the reference check with this kernel's aging counter, writing a page out, detaching it from
  its mapping, and \<^verbatim>\<open>shrink_page_list\<close>, which decides for each page of an isolated list between
  freeing, activating and keeping it.

  Reverse mapping (\<^verbatim>\<open>mm/rmap.c\<close>), swap (\<^verbatim>\<open>mm/swap_state.c\<close>, \<^verbatim>\<open>mm/swapfile.c\<close>), the page cache
  (\<^verbatim>\<open>mm/filemap.c\<close>), the file systems and the block layer are functions on the state, gathered in the
  record \<open>mm_env\<close>.
\<close>

section \<open>Scan control\<close>

definition RECLAIM_MODE_SINGLE :: ulong where "RECLAIM_MODE_SINGLE = 0x01"
definition RECLAIM_MODE_ASYNC :: ulong where "RECLAIM_MODE_ASYNC = 0x02"
definition RECLAIM_MODE_SYNC :: ulong where "RECLAIM_MODE_SYNC = 0x04"
definition RECLAIM_MODE_LUMPYRECLAIM :: ulong where "RECLAIM_MODE_LUMPYRECLAIM = 0x08"
definition RECLAIM_MODE_COMPACTION :: ulong where "RECLAIM_MODE_COMPACTION = 0x10"

definition GFP_IO :: ulong where "GFP_IO = 0x40"
definition GFP_FS :: ulong where "GFP_FS = 0x80"
definition VM_EXEC :: ulong where "VM_EXEC = 0x4"
definition VM_LOCKED :: ulong where "VM_LOCKED = 0x2000"

lemmas mode_defs = RECLAIM_MODE_SINGLE_def RECLAIM_MODE_ASYNC_def RECLAIM_MODE_SYNC_def
  RECLAIM_MODE_LUMPYRECLAIM_def RECLAIM_MODE_COMPACTION_def

definition PAGE_ALLOC_COSTLY_ORDER :: int where "PAGE_ALLOC_COSTLY_ORDER = 3"
definition DEF_PRIORITY :: int where "DEF_PRIORITY = 12"

text \<open>\<^verbatim>\<open>a & b\<close> as a condition.\<close>

definition has_bits :: "ulong \<Rightarrow> ulong \<Rightarrow> bool" where
  "has_bits a b \<longleftrightarrow> a AND b \<noteq> 0"

record scan_control =
  sc_nr_scanned :: ulong
  sc_nr_reclaimed :: ulong
  sc_nr_to_reclaim :: ulong
  sc_hibernation_mode :: bool
  sc_gfp_mask :: ulong
  sc_may_writepage :: bool
  sc_may_unmap :: bool
  sc_may_swap :: bool
  sc_order :: int
  sc_reclaim_mode :: ulong

definition set_reclaim_mode :: "int \<Rightarrow> bool \<Rightarrow> scan_control \<Rightarrow> scan_control" where
  "set_reclaim_mode priority sync sc =
     (let syncmode = (if sync then RECLAIM_MODE_SYNC else RECLAIM_MODE_ASYNC);
          mode = RECLAIM_MODE_LUMPYRECLAIM
      in sc\<lparr>sc_reclaim_mode :=
           (if sc_order sc > PAGE_ALLOC_COSTLY_ORDER then mode OR syncmode
            else if sc_order sc \<noteq> 0 \<and> priority < DEF_PRIORITY - 2 then mode OR syncmode
            else RECLAIM_MODE_SINGLE OR RECLAIM_MODE_ASYNC)\<rparr>)"

definition reset_reclaim_mode :: "scan_control \<Rightarrow> scan_control" where
  "reset_reclaim_mode sc = sc\<lparr>sc_reclaim_mode := RECLAIM_MODE_SINGLE OR RECLAIM_MODE_ASYNC\<rparr>"


section \<open>The code outside\<close>

datatype swap_result = SWAP_SUCCESS | SWAP_AGAIN | SWAP_FAIL | SWAP_MLOCK

record 'w mm_env =
  e_page_referenced :: "nat \<Rightarrow> bool \<Rightarrow> 'w mm_state \<Rightarrow> (int \<times> ulong) \<times> 'w mm_state"
  e_try_to_unmap :: "nat \<Rightarrow> 'w mm_state \<Rightarrow> swap_result \<times> 'w mm_state"
  e_add_to_swap :: "nat \<Rightarrow> 'w mm_state \<Rightarrow> bool \<times> 'w mm_state"
  e_try_to_free_swap :: "nat \<Rightarrow> 'w mm_state \<Rightarrow> bool \<times> 'w mm_state"
  e_try_to_free_buffers :: "nat \<Rightarrow> 'w mm_state \<Rightarrow> bool \<times> 'w mm_state"
  e_try_to_release_page :: "nat \<Rightarrow> ulong \<Rightarrow> 'w mm_state \<Rightarrow> bool \<times> 'w mm_state"
  e_clear_page_dirty_for_io :: "nat \<Rightarrow> 'w mm_state \<Rightarrow> bool \<times> 'w mm_state"
  e_writepage :: "address_space \<Rightarrow> nat \<Rightarrow> 'w mm_state \<Rightarrow> int \<times> 'w mm_state"
  e_wait_on_page_writeback :: "nat \<Rightarrow> 'w mm_state \<Rightarrow> 'w mm_state"
  e_delete_from_swap_cache :: "nat \<Rightarrow> 'w mm_state \<Rightarrow> 'w mm_state"
  e_swapcache_free :: "ulong \<Rightarrow> nat \<Rightarrow> 'w mm_state \<Rightarrow> 'w mm_state"
  e_delete_from_page_cache :: "nat \<Rightarrow> 'w mm_state \<Rightarrow> 'w mm_state"
  e_freepage :: "address_space \<Rightarrow> nat \<Rightarrow> 'w mm_state \<Rightarrow> 'w mm_state"
  e_bdi_write_congested :: "address_space \<Rightarrow> 'w mm_state \<Rightarrow> bool"
  e_bdi_is_current :: "address_space \<Rightarrow> bool"
  e_pf_swapwrite :: bool
  e_current_is_kswapd :: bool
  e_congestion_wait :: "'w mm_state \<Rightarrow> 'w mm_state"
  e_fatal_signal_pending :: "'w mm_state \<Rightarrow> bool"
  e_buffer_heads_over_limit :: "'w mm_state \<Rightarrow> bool"


section \<open>Evictable pages\<close>

definition page_evictable :: "'w mm_state \<Rightarrow> nat \<Rightarrow> bool" where
  "page_evictable s p \<longleftrightarrow> \<not> mapping_unevictable s (page_mapping s p) \<and> \<not> PageMlocked s p"

definition isolate_lru_page :: "nat \<Rightarrow> 'w mm_state \<Rightarrow> bool \<times> 'w mm_state" where
  "isolate_lru_page p s =
     (if PageLRU s p then
        let z = page_zone s p;
            lru = page_lru (mem_map s p);
            s = get_page p s;
            s = ClearPage PG_lru p s
        in (True, del_page_from_lru_list z p lru s)
      else (False, s))"

text \<open>
  Adding a page to the unevictable list does not make it evictable, so the loop \<^verbatim>\<open>redo\<close> of
  \<^verbatim>\<open>putback_lru_page\<close>, which another thread may restart, ends at once here.
\<close>

lemma page_evictable_after_add:
  "page_evictable (add_page_to_unevictable_list p s) p = page_evictable s p"
proof -
  have "as_infos (add_page_to_unevictable_list p s) = as_infos s"
    by (simp add: add_page_to_unevictable_list_def SetPage_def Let_def add_page_to_lru_list_def
        lru_link_def mod_zone_page_state_def upd_zone_def upd_page_def)
  then have "mapping_unevictable (add_page_to_unevictable_list p s) = mapping_unevictable s"
    by (simp add: mapping_unevictable_def fun_eq_iff split: option.split)
  moreover have "mem_map (add_page_to_unevictable_list p s) p =
      set_flag PG_lru (set_flag PG_unevictable (mem_map s p))"
    by (simp add: add_page_to_unevictable_list_def SetPage_def Let_def)
  ultimately show ?thesis
    by (simp add: page_evictable_def page_mapping_def PageFlag_def)
qed

function putback_redo :: "bool \<Rightarrow> nat \<Rightarrow> 'w mm_state \<Rightarrow> lru_list \<times> 'w mm_state" where
  "putback_redo active p s =
     (let s = ClearPage PG_unevictable p s
      in if page_evictable s p then
           let lru = lru_plus (page_lru_base_type (mem_map s p)) (of_bool active)
           in (lru, lru_cache_add_lru p lru s)
         else
           let s = add_page_to_unevictable_list p s
           in if page_evictable s p then
                let (isolated, s) = isolate_lru_page p s
                in if isolated then putback_redo active p (put_page p s) else (LRU_UNEVICTABLE, s)
              else (LRU_UNEVICTABLE, s))"
  by pat_completeness auto
termination
  by (relation "{}") (simp_all add: page_evictable_after_add)

declare putback_redo.simps [simp del]

definition putback_lru_page :: "nat \<Rightarrow> 'w mm_state \<Rightarrow> 'w mm_state" where
  "putback_lru_page p s =
     (let active = PageActive s p;
          s = ClearPage PG_active p s;
          was_unevictable = PageUnevictable s p;
          (lru, s) = putback_redo active p s;
          s = (if was_unevictable \<and> lru \<noteq> LRU_UNEVICTABLE then count_vm_events UNEVICTABLE_PGRESCUED 1 s
               else if \<not> was_unevictable \<and> lru = LRU_UNEVICTABLE
               then count_vm_events UNEVICTABLE_PGCULLED 1 s else s)
      in put_page p s)"


section \<open>The reference check\<close>

datatype page_references = PAGEREF_RECLAIM | PAGEREF_RECLAIM_CLEAN | PAGEREF_KEEP | PAGEREF_ACTIVATE

definition add_referenced :: "ulong \<Rightarrow> nat \<Rightarrow> 'w mm_state \<Rightarrow> 'w mm_state" where
  "add_referenced d p = upd_page p (\<lambda>pg. pg\<lparr>pg_referenced := pg_referenced pg + d\<rparr>)"

definition page_check_references ::
    "'w mm_env \<Rightarrow> scan_control \<Rightarrow> nat \<Rightarrow> 'w mm_state \<Rightarrow> page_references \<times> 'w mm_state" where
  "page_check_references env sc p s =
     (let ((referenced_ptes, vm_flags), s) = e_page_referenced env p True s;
          referenced_time = pg_referenced (mem_map s p);
          s = add_referenced 1 p s
      in if has_bits (sc_reclaim_mode sc) RECLAIM_MODE_LUMPYRECLAIM then (PAGEREF_RECLAIM, s)
         else if has_bits vm_flags VM_LOCKED then (PAGEREF_RECLAIM, s)
         else if referenced_ptes \<noteq> 0 then
           if PageSwapBacked s p then (PAGEREF_ACTIVATE, s)
           else
             let s = add_referenced (-1) p s
             in if referenced_time < 1 \<or> referenced_ptes > 1 then (PAGEREF_ACTIVATE, s)
                else if has_bits vm_flags VM_EXEC then (PAGEREF_ACTIVATE, s)
                else (PAGEREF_KEEP, s)
         else if referenced_time < 1 \<and> \<not> PageSwapBacked s p then (PAGEREF_RECLAIM_CLEAN, s)
         else (PAGEREF_RECLAIM, s))"


section \<open>Writing a page out\<close>

datatype pageout_t = PAGE_KEEP | PAGE_ACTIVATE | PAGE_SUCCESS | PAGE_CLEAN

definition is_page_cache_freeable :: "'w mm_state \<Rightarrow> nat \<Rightarrow> bool" where
  "is_page_cache_freeable s p \<longleftrightarrow> page_count s p - of_bool (page_has_private s p) = 2"

definition may_write_to_queue ::
    "'w mm_env \<Rightarrow> address_space \<Rightarrow> scan_control \<Rightarrow> 'w mm_state \<Rightarrow> bool" where
  "may_write_to_queue env mapping sc s \<longleftrightarrow>
     e_pf_swapwrite env \<or> \<not> e_bdi_write_congested env mapping s \<or> e_bdi_is_current env mapping \<or>
     sc_order sc > PAGE_ALLOC_COSTLY_ORDER"

definition ENOSPC :: int where "ENOSPC = 28"
definition AOP_WRITEPAGE_ACTIVATE :: int where "AOP_WRITEPAGE_ACTIVATE = 0x80000"

definition mapping_set_error :: "address_space \<Rightarrow> int \<Rightarrow> 'w mm_state \<Rightarrow> 'w mm_state" where
  "mapping_set_error m error s =
     (if error \<noteq> 0 then
        s\<lparr>as_infos := (as_infos s)(m :=
            (if error = - ENOSPC then (as_infos s m)\<lparr>AS_ENOSPC := True\<rparr>
             else (as_infos s m)\<lparr>AS_EIO := True\<rparr>))\<rparr>
      else s)"

text \<open>\<^verbatim>\<open>lock_page\<close> sleeps until the lock is free and returns with the page locked.\<close>

definition lock_page :: "nat \<Rightarrow> 'w mm_state \<Rightarrow> 'w mm_state" where
  "lock_page p s = SetPage PG_locked p s"

definition handle_write_error :: "address_space \<Rightarrow> nat \<Rightarrow> int \<Rightarrow> 'w mm_state \<Rightarrow> 'w mm_state" where
  "handle_write_error m p error s =
     (let s = lock_page p s;
          s = (if page_mapping s p = Some m then mapping_set_error m error s else s)
      in unlock_page p s)"

definition inc_zone_page_state :: "nat \<Rightarrow> zone_stat_item \<Rightarrow> 'w mm_state \<Rightarrow> 'w mm_state" where
  "inc_zone_page_state p i s = mod_zone_page_state (page_zone s p) i 1 s"

definition pageout ::
    "'w mm_env \<Rightarrow> nat \<Rightarrow> address_space option \<Rightarrow> scan_control \<Rightarrow> 'w mm_state \<Rightarrow>
     pageout_t \<times> 'w mm_state" where
  "pageout env p mapping sc s =
     (if \<not> is_page_cache_freeable s p then (PAGE_KEEP, s)
      else case mapping of
        None \<Rightarrow>
          if page_has_private s p then
            let (freed, s) = e_try_to_free_buffers env p s
            in if freed then (PAGE_CLEAN, ClearPage PG_dirty p s) else (PAGE_KEEP, s)
          else (PAGE_KEEP, s)
      | Some m \<Rightarrow>
          if \<not> has_writepage (as_infos s m) then (PAGE_ACTIVATE, s)
          else if \<not> may_write_to_queue env m sc s then (PAGE_KEEP, s)
          else
            let (dirty, s) = e_clear_page_dirty_for_io env p s
            in if dirty then
                 let s = SetPage PG_reclaim p s;
                     (res, s) = e_writepage env m p s;
                     s = (if res < 0 then handle_write_error m p res s else s)
                 in if res = AOP_WRITEPAGE_ACTIVATE then (PAGE_ACTIVATE, ClearPage PG_reclaim p s)
                    else
                      let s = (if \<not> PageWriteback s p then ClearPage PG_reclaim p s else s)
                      in (PAGE_SUCCESS, inc_zone_page_state p NR_VMSCAN_WRITE s)
               else (PAGE_CLEAN, s))"


section \<open>Detaching a page from its mapping\<close>

text \<open>\<open>None\<close> is the kernel stopping at a \<^verbatim>\<open>BUG_ON\<close>.\<close>

definition raw_remove_mapping ::
    "'w mm_env \<Rightarrow> address_space \<Rightarrow> nat \<Rightarrow> 'w mm_state \<Rightarrow> (bool \<times> 'w mm_state) option" where
  "raw_remove_mapping env mapping p s =
     (if \<not> PageLocked s p \<or> Some mapping \<noteq> page_mapping s p then None
      else let (frozen, s) = page_freeze_refs p 2 s
      in if \<not> frozen then Some (False, s)
         else if PageDirty s p then Some (False, page_unfreeze_refs p 2 s)
         else if PageSwapCache s p then
           let swap = pg_private (mem_map s p);
               s = e_delete_from_swap_cache env p s
           in Some (True, e_swapcache_free env swap p s)
         else
           let freepage = has_freepage (as_infos s mapping);
               s = e_delete_from_page_cache env p s
           in Some (True, if freepage then e_freepage env mapping p s else s))"

definition remove_mapping ::
    "'w mm_env \<Rightarrow> address_space \<Rightarrow> nat \<Rightarrow> 'w mm_state \<Rightarrow> (bool \<times> 'w mm_state) option" where
  "remove_mapping env mapping p s =
     (case raw_remove_mapping env mapping p s of
        None \<Rightarrow> None
      | Some (removed, s) \<Rightarrow>
          if removed then Some (True, page_unfreeze_refs p 1 s) else Some (False, s))"



section \<open>Shrinking a list of isolated pages\<close>

text \<open>The labels that the body of the loop jumps to.\<close>

datatype spl_label =
    L_free_it | L_freed_elsewhere | L_cull_mlocked | L_activate_locked | L_keep_locked | L_keep
  | L_keep_lumpy

text \<open>The local variables of \<^verbatim>\<open>shrink_page_list\<close>.\<close>

record spl_locals =
  ret_pages :: "nat list"
  free_pages :: "nat list"
  pgactivate :: ulong
  nr_dirty :: ulong
  nr_congested :: ulong
  nr_reclaimed :: ulong
  nr_writeback :: ulong

type_synonym 'w spl_state = "spl_locals \<times> scan_control \<times> 'w mm_state"

text \<open>From \<^verbatim>\<open>if (page_has_private(page))\<close> to the label \<^verbatim>\<open>free_it\<close>.\<close>

definition spl_release ::
    "'w mm_env \<Rightarrow> nat \<Rightarrow> address_space option \<Rightarrow> 'w spl_state \<Rightarrow> (spl_label \<times> 'w spl_state) option" where
  "spl_release env p mapping st =
     (let (v, sc, s) = st;
          private = page_has_private s p;
          (released, s) = (if private then e_try_to_release_page env p (sc_gfp_mask sc) s else (True, s))
      in if private \<and> \<not> released then Some (L_activate_locked, v, sc, s)
         else if private \<and> mapping = None \<and> page_count s p = 1 then
           let s = unlock_page p s;
               (zero, s) = put_page_testzero p s
           in if zero then Some (L_free_it, v, sc, s) else Some (L_freed_elsewhere, v, sc, s)
         else case mapping of
             None \<Rightarrow> Some (L_keep_locked, v, sc, s)
           | Some m \<Rightarrow>
               (case raw_remove_mapping env m p s of
                  None \<Rightarrow> None
                | Some (removed, s) \<Rightarrow>
                    if removed then Some (L_free_it, v, sc, ClearPage PG_locked p s)
                    else Some (L_keep_locked, v, sc, s)))"

text \<open>From \<^verbatim>\<open>if (PageDirty(page))\<close>.\<close>

definition spl_dirty ::
    "'w mm_env \<Rightarrow> int \<Rightarrow> nat \<Rightarrow> page_references \<Rightarrow> bool \<Rightarrow> address_space option \<Rightarrow> 'w spl_state \<Rightarrow>
     (spl_label \<times> 'w spl_state) option" where
  "spl_dirty env priority p references may_enter_fs mapping st =
     (let (v, sc, s) = st
      in if PageDirty s p then
           let v = v\<lparr>nr_dirty := nr_dirty v + 1\<rparr>
           in if page_is_file_cache (mem_map s p) \<and>
                 (\<not> e_current_is_kswapd env \<or> priority \<ge> DEF_PRIORITY - 2) then
                let s = inc_zone_page_state p NR_VMSCAN_IMMEDIATE s;
                    s = SetPage PG_reclaim p s
                in Some (L_keep_locked, v, sc, s)
              else if references = PAGEREF_RECLAIM_CLEAN then Some (L_keep_locked, v, sc, s)
              else if \<not> may_enter_fs then Some (L_keep_locked, v, sc, s)
              else if \<not> sc_may_writepage sc then Some (L_keep_locked, v, sc, s)
              else
                let (out, s) = pageout env p mapping sc s
                in case out of
                     PAGE_KEEP \<Rightarrow> Some (L_keep_locked, v\<lparr>nr_congested := nr_congested v + 1\<rparr>, sc, s)
                   | PAGE_ACTIVATE \<Rightarrow> Some (L_activate_locked, v, sc, s)
                   | PAGE_SUCCESS \<Rightarrow>
                       if PageWriteback s p then Some (L_keep_lumpy, v, sc, s)
                       else if PageDirty s p then Some (L_keep, v, sc, s)
                       else
                         let (locked, s) = trylock_page p s
                         in if \<not> locked then Some (L_keep, v, sc, s)
                            else if PageDirty s p \<or> PageWriteback s p then Some (L_keep_locked, v, sc, s)
                            else spl_release env p (page_mapping s p) (v, sc, s)
                   | PAGE_CLEAN \<Rightarrow> spl_release env p mapping (v, sc, s)
         else spl_release env p mapping (v, sc, s))"

text \<open>From \<^verbatim>\<open>if (PageAnon(page) && !PageSwapCache(page))\<close>.\<close>

definition spl_unmap ::
    "'w mm_env \<Rightarrow> int \<Rightarrow> nat \<Rightarrow> page_references \<Rightarrow> bool \<Rightarrow> 'w spl_state \<Rightarrow>
     (spl_label \<times> 'w spl_state) option" where
  "spl_unmap env priority p references may_enter_fs st =
     (let (v, sc, s) = st;
          anon = PageAnon s p \<and> \<not> PageSwapCache s p
      in if anon \<and> \<not> has_bits (sc_gfp_mask sc) GFP_IO then Some (L_keep_locked, v, sc, s)
         else
           let (swapped, s) = (if anon then e_add_to_swap env p s else (True, s))
           in if \<not> swapped then Some (L_activate_locked, v, sc, s)
              else
                let may_enter_fs = (may_enter_fs \<or> anon);
                    mapping = page_mapping s p;
                    (res, s) = (if page_mapped s p \<and> mapping \<noteq> None then e_try_to_unmap env p s
                                else (SWAP_SUCCESS, s))
                in case res of
                     SWAP_FAIL \<Rightarrow> Some (L_activate_locked, v, sc, s)
                   | SWAP_AGAIN \<Rightarrow> Some (L_keep_locked, v, sc, s)
                   | SWAP_MLOCK \<Rightarrow> Some (L_cull_mlocked, v, sc, s)
                   | SWAP_SUCCESS \<Rightarrow>
                       spl_dirty env priority p references may_enter_fs mapping (v, sc, s))"

text \<open>From \<^verbatim>\<open>if (PageWriteback(page))\<close>.\<close>

definition spl_references ::
    "'w mm_env \<Rightarrow> int \<Rightarrow> nat \<Rightarrow> 'w spl_state \<Rightarrow> (spl_label \<times> 'w spl_state) option" where
  "spl_references env priority p st =
     (let (v, sc, s) = st;
          may_enter_fs = (has_bits (sc_gfp_mask sc) GFP_FS \<or>
                          (PageSwapCache s p \<and> has_bits (sc_gfp_mask sc) GFP_IO));
          writeback = PageWriteback s p;
          wait = (has_bits (sc_reclaim_mode sc) RECLAIM_MODE_SYNC \<and> may_enter_fs);
          v = (if writeback then v\<lparr>nr_writeback := nr_writeback v + 1\<rparr> else v)
      in if writeback \<and> \<not> wait then Some (L_keep_lumpy, v, sc, unlock_page p s)
         else
           let s = (if writeback then e_wait_on_page_writeback env p s else s);
               (references, s) = page_check_references env sc p s
           in case references of
                PAGEREF_ACTIVATE \<Rightarrow> Some (L_activate_locked, v, sc, s)
              | PAGEREF_KEEP \<Rightarrow> Some (L_keep_locked, v, sc, s)
              | _ \<Rightarrow> spl_unmap env priority p references may_enter_fs (v, sc, s))"

text \<open>The body of the loop up to the labels.\<close>

definition spl_page ::
    "'w mm_env \<Rightarrow> int \<Rightarrow> nat \<Rightarrow> 'w spl_state \<Rightarrow> (spl_label \<times> 'w spl_state) option" where
  "spl_page env priority p st =
     (let (v, sc, s) = st;
          (locked, s) = trylock_page p s
      in if \<not> locked then Some (L_keep, v, sc, s)
         else
           let sc = sc\<lparr>sc_nr_scanned := sc_nr_scanned sc + 1\<rparr>
           in if \<not> page_evictable s p then Some (L_cull_mlocked, v, sc, s)
              else if \<not> sc_may_unmap sc \<and> page_mapped s p then Some (L_keep_locked, v, sc, s)
              else
                let sc = (if page_mapped s p \<or> PageSwapCache s p
                          then sc\<lparr>sc_nr_scanned := sc_nr_scanned sc + 1\<rparr> else sc)
                in spl_references env priority p (v, sc, s))"

definition vm_swap_full :: "'w mm_state \<Rightarrow> bool" where
  "vm_swap_full s \<longleftrightarrow> nr_swap_pages s * 2 < total_swap_pages s"

text \<open>The code at the labels, which falls through from \<^verbatim>\<open>activate_locked\<close> to \<^verbatim>\<open>keep_lumpy\<close>.\<close>

definition spl_keep_lumpy :: "nat \<Rightarrow> 'w spl_state \<Rightarrow> 'w spl_state" where
  "spl_keep_lumpy p st = (let (v, sc, s) = st in (v\<lparr>ret_pages := p # ret_pages v\<rparr>, sc, s))"

definition spl_keep :: "nat \<Rightarrow> 'w spl_state \<Rightarrow> 'w spl_state" where
  "spl_keep p st = (let (v, sc, s) = st in spl_keep_lumpy p (v, reset_reclaim_mode sc, s))"

definition spl_keep_locked :: "nat \<Rightarrow> 'w spl_state \<Rightarrow> 'w spl_state" where
  "spl_keep_locked p st = (let (v, sc, s) = st in spl_keep p (v, sc, unlock_page p s))"

definition spl_label_code ::
    "'w mm_env \<Rightarrow> nat \<Rightarrow> spl_label \<Rightarrow> 'w spl_state \<Rightarrow> 'w spl_state" where
  "spl_label_code env p label st =
     (let (v, sc, s) = st
      in case label of
           L_free_it \<Rightarrow>
             (v\<lparr>nr_reclaimed := nr_reclaimed v + 1, free_pages := p # free_pages v\<rparr>, sc, s)
         | L_freed_elsewhere \<Rightarrow> (v\<lparr>nr_reclaimed := nr_reclaimed v + 1\<rparr>, sc, s)
         | L_cull_mlocked \<Rightarrow>
             let s = (if PageSwapCache s p then snd (e_try_to_free_swap env p s) else s);
                 s = unlock_page p s;
                 s = putback_lru_page p s
             in (v, reset_reclaim_mode sc, s)
         | L_activate_locked \<Rightarrow>
             let s = (if PageSwapCache s p \<and> vm_swap_full s then snd (e_try_to_free_swap env p s) else s);
                 s = SetPage PG_active p s
             in spl_keep_locked p (v\<lparr>pgactivate := pgactivate v + 1\<rparr>, sc, s)
         | L_keep_locked \<Rightarrow> spl_keep_locked p (v, sc, s)
         | L_keep \<Rightarrow> spl_keep p (v, sc, s)
         | L_keep_lumpy \<Rightarrow> spl_keep_lumpy p (v, sc, s))"

text \<open>The loop takes pages from the tail of the list, so it walks the reversed list.\<close>

primrec spl_loop ::
    "'w mm_env \<Rightarrow> int \<Rightarrow> nat list \<Rightarrow> 'w spl_state \<Rightarrow> 'w spl_state option" where
  "spl_loop env priority [] st = Some st"
| "spl_loop env priority (p # ps) st =
     (case spl_page env priority p st of
        None \<Rightarrow> None
      | Some (label, st) \<Rightarrow> spl_loop env priority ps (spl_label_code env p label st))"

definition zone_set_flag :: "nat \<Rightarrow> zone_flags_t \<Rightarrow> 'w mm_state \<Rightarrow> 'w mm_state" where
  "zone_set_flag z f = upd_zone z (\<lambda>zn. zn\<lparr>zone_flags := (zone_flags zn)(f := True)\<rparr>)"

record 'w spl_result =
  spl_nr_reclaimed :: ulong
  spl_page_list :: "nat list"
  spl_nr_dirty :: ulong
  spl_nr_writeback :: ulong
  spl_sc :: scan_control
  spl_mm :: "'w mm_state"

definition spl_init :: spl_locals where
  "spl_init = \<lparr>ret_pages = [], free_pages = [], pgactivate = 0, nr_dirty = 0, nr_congested = 0,
               nr_reclaimed = 0, nr_writeback = 0\<rparr>"

definition shrink_page_list ::
    "'w mm_env \<Rightarrow> nat list \<Rightarrow> nat \<Rightarrow> scan_control \<Rightarrow> int \<Rightarrow> ulong \<Rightarrow> ulong \<Rightarrow> 'w mm_state \<Rightarrow>
     'w spl_result option" where
  "shrink_page_list env page_list z sc priority ret_nr_dirty ret_nr_writeback s =
     (case spl_loop env priority (rev page_list) (spl_init, sc, s) of
        None \<Rightarrow> None
      | Some (v, sc, s) \<Rightarrow>
          let s = (if nr_dirty v \<noteq> 0 \<and> nr_dirty v = nr_congested v
                   then zone_set_flag z ZONE_CONGESTED s else s);
              s = log_free_hot_cold_page_list (free_pages v) True s;
              s = count_vm_events PGACTIVATE (pgactivate v) s
          in Some \<lparr>spl_nr_reclaimed = nr_reclaimed v, spl_page_list = ret_pages v,
                   spl_nr_dirty = ret_nr_dirty + nr_dirty v,
                   spl_nr_writeback = ret_nr_writeback + nr_writeback v,
                   spl_sc = sc, spl_mm = s\<rparr>)"

end
