(* ===== verification/Vmscan_List.thy ===== *)
theory Vmscan_List
  imports Vmscan_Page
begin

text \<open>
  \<^verbatim>\<open>mm/vmscan.c\<close>, second part: isolating a batch of pages from an LRU list, \<^verbatim>\<open>shrink_inactive_list\<close>,
  \<^verbatim>\<open>shrink_active_list\<close> with this kernel's aging counter, and the choice between them. A result
  \<open>None\<close> is the kernel stopping at a \<^verbatim>\<open>BUG\<close>, or waiting for ever in \<^verbatim>\<open>shrink_inactive_list\<close>.
\<close>

section \<open>Isolation\<close>

definition ISOLATE_INACTIVE :: ulong where "ISOLATE_INACTIVE = 0x1"
definition ISOLATE_ACTIVE :: ulong where "ISOLATE_ACTIVE = 0x2"
definition ISOLATE_CLEAN :: ulong where "ISOLATE_CLEAN = 0x4"
definition ISOLATE_UNMAPPED :: ulong where "ISOLATE_UNMAPPED = 0x8"
definition ISOLATE_ASYNC_MIGRATE :: ulong where "ISOLATE_ASYNC_MIGRATE = 0x10"

lemmas isolate_defs = ISOLATE_INACTIVE_def ISOLATE_ACTIVE_def ISOLATE_CLEAN_def
  ISOLATE_UNMAPPED_def ISOLATE_ASYNC_MIGRATE_def

definition SWAP_CLUSTER_MAX :: ulong where "SWAP_CLUSTER_MAX = 32"

datatype isolate_result = Isolated | EINVAL | EBUSY

definition raw_isolate_lru_page ::
    "nat \<Rightarrow> ulong \<Rightarrow> bool \<Rightarrow> 'w mm_state \<Rightarrow> isolate_result \<times> 'w mm_state" where
  "raw_isolate_lru_page p mode file s =
     (let all_lru_mode = (mode AND (ISOLATE_ACTIVE OR ISOLATE_INACTIVE) =
                          ISOLATE_ACTIVE OR ISOLATE_INACTIVE)
      in if \<not> PageLRU s p then (EINVAL, s)
         else if \<not> all_lru_mode \<and> PageActive s p \<noteq> has_bits mode ISOLATE_ACTIVE then (EINVAL, s)
         else if \<not> all_lru_mode \<and> page_is_file_cache (mem_map s p) \<noteq> file then (EINVAL, s)
         else if PageUnevictable s p then (EINVAL, s)
         else if has_bits mode (ISOLATE_CLEAN OR ISOLATE_ASYNC_MIGRATE) \<and> PageWriteback s p
         then (EBUSY, s)
         else if has_bits mode (ISOLATE_CLEAN OR ISOLATE_ASYNC_MIGRATE) \<and> PageDirty s p \<and>
                 (has_bits mode ISOLATE_CLEAN \<or>
                  (case page_mapping s p of None \<Rightarrow> False | Some m \<Rightarrow> \<not> has_migratepage (as_infos s m)))
         then (EBUSY, s)
         else if has_bits mode ISOLATE_UNMAPPED \<and> page_mapped s p then (EBUSY, s)
         else
           let (got, s) = get_page_unless_zero p s
           in if got then (Isolated, ClearPage PG_lru p s) else (EBUSY, s))"

text \<open>
  The local variables of \<^verbatim>\<open>isolate_lru_pages\<close> that have an effect: the list of pages taken, their
  number, and the number of pages looked at, here a natural number. The callers ask for at most
  \<^verbatim>\<open>SWAP_CLUSTER_MAX\<close> pages and an order below \<^verbatim>\<open>MAX_ORDER\<close>, so it stays far below the width of the
  machine word.
\<close>

record iso_locals =
  iso_dst :: "nat list"
  iso_taken :: ulong
  iso_scan :: nat

definition iso_take :: "nat \<Rightarrow> iso_locals \<Rightarrow> iso_locals" where
  "iso_take p v = v\<lparr>iso_dst := p # iso_dst v, iso_taken := iso_taken v + 1\<rparr>"

text \<open>The block of \<^verbatim>\<open>2 ^ order\<close> pages around a page that was taken, from \<open>pfn\<close> to \<open>end_pfn\<close>.\<close>

function lumpy_loop ::
    "nat \<Rightarrow> nat \<Rightarrow> nat \<Rightarrow> nat \<Rightarrow> ulong \<Rightarrow> bool \<Rightarrow> iso_locals \<times> 'w mm_state \<Rightarrow> iso_locals \<times> 'w mm_state"
where
  "lumpy_loop pfn end_pfn page_pfn zone_id mode file (v, s) =
     (if pfn < end_pfn then
        if pfn = page_pfn then lumpy_loop (pfn + 1) end_pfn page_pfn zone_id mode file (v, s)
        else if page_zone s pfn \<noteq> zone_id then (v, s)
        else if nr_swap_pages s \<le> 0 \<and> PageSwapBacked s pfn \<and> \<not> PageSwapCache s pfn then (v, s)
        else
          let (r, s) = raw_isolate_lru_page pfn mode file s
          in if r = Isolated then
               lumpy_loop (pfn + 1) end_pfn page_pfn zone_id mode file
                 ((iso_take pfn v)\<lparr>iso_scan := iso_scan v + 1\<rparr>, lru_unlink pfn s)
             else if \<not> PageTail s pfn \<and> pg_count (mem_map s pfn) = 0 then
               lumpy_loop (pfn + 1) end_pfn page_pfn zone_id mode file (v, s)
             else (v, s)
      else (v, s))"
  by pat_completeness auto
termination
  by (relation "measure (\<lambda>(pfn, end_pfn, _). end_pfn - pfn)") auto

declare lumpy_loop.simps [simp del]

definition lumpy_block ::
    "nat \<Rightarrow> scan_control \<Rightarrow> ulong \<Rightarrow> bool \<Rightarrow> iso_locals \<times> 'w mm_state \<Rightarrow> iso_locals \<times> 'w mm_state" where
  "lumpy_block p sc mode file vs =
     (if sc_order sc = 0 \<or> \<not> has_bits (sc_reclaim_mode sc) RECLAIM_MODE_LUMPYRECLAIM then vs
      else
        let size = 2 ^ nat (sc_order sc);
            pfn = p div size * size
        in lumpy_loop pfn (pfn + size) p (page_zone (snd vs) p) mode file vs)"

lemma lumpy_loop_scan: "iso_scan (fst vs) \<le> iso_scan (fst (lumpy_loop pfn e p z mode fl vs))"
proof (induction pfn e p z mode fl vs rule: lumpy_loop.induct)
  case (1 pfn e p z mode fl v s)
  obtain r s' where "raw_isolate_lru_page pfn mode fl s = (r, s')" by (rule prod.exhaust)
  then show ?case
    using "1.IH" by (subst lumpy_loop.simps) (auto simp: Let_def iso_take_def intro: Suc_leD)
qed

lemma lumpy_block_scan: "iso_scan (fst vs) \<le> iso_scan (fst (lumpy_block p sc mode fl vs))"
  by (simp add: lumpy_block_def Let_def lumpy_loop_scan)

function isolate_loop ::
    "nat \<Rightarrow> nat \<Rightarrow> lru_list \<Rightarrow> scan_control \<Rightarrow> ulong \<Rightarrow> bool \<Rightarrow> iso_locals \<times> 'w mm_state \<Rightarrow>
     (iso_locals \<times> 'w mm_state) option" where
  "isolate_loop nr_to_scan z lru sc mode file (v, s) =
     (if iso_scan v < nr_to_scan \<and> zone_lists s z lru \<noteq> [] then
        let p = last (zone_lists s z lru);
            (r, s) = raw_isolate_lru_page p mode file s
        in case r of
             Isolated \<Rightarrow>
               let (v, s) = lumpy_block p sc mode file (iso_take p v, lru_unlink p s)
               in isolate_loop nr_to_scan z lru sc mode file (v\<lparr>iso_scan := iso_scan v + 1\<rparr>, s)
           | EBUSY \<Rightarrow>
               isolate_loop nr_to_scan z lru sc mode file
                 (v\<lparr>iso_scan := iso_scan v + 1\<rparr>, lru_move z p lru s)
           | EINVAL \<Rightarrow> None
      else Some (v, s))"
  by pat_completeness auto
termination
proof (relation "measure (\<lambda>(nr_to_scan, _, _, _, _, _, v, _). nr_to_scan - iso_scan v)", goal_cases)
  case (2 nr_to_scan z lru sc mode fl v s p x r y b xc ya)
  have "iso_scan v \<le> iso_scan xc"
    using lumpy_block_scan [of "(iso_take p v, lru_unlink p y)" p sc mode fl]
    unfolding "2"(6) [symmetric] "2"(7) [symmetric] by (simp add: iso_take_def)
  then show ?case using "2"(1) by (simp add: diff_less_mono2 le_imp_less_Suc)
qed auto

declare isolate_loop.simps [simp del]

definition iso_lru :: "bool \<Rightarrow> bool \<Rightarrow> lru_list" where
  "iso_lru active file =
     lru_of_nat (LRU_BASE + (if active then LRU_ACTIVE else 0) + (if file then LRU_FILE else 0))"

text \<open>Returns the pages taken, how many they are, and how many were looked at.\<close>

definition isolate_lru_pages ::
    "ulong \<Rightarrow> nat \<Rightarrow> scan_control \<Rightarrow> ulong \<Rightarrow> bool \<Rightarrow> bool \<Rightarrow> 'w mm_state \<Rightarrow>
     (nat list \<times> ulong \<times> ulong \<times> 'w mm_state) option" where
  "isolate_lru_pages nr_to_scan z sc mode active file s =
     (case isolate_loop (unat nr_to_scan) z (iso_lru active file) sc mode file
             (\<lparr>iso_dst = [], iso_taken = 0, iso_scan = 0\<rparr>, s) of
        None \<Rightarrow> None
      | Some (v, s) \<Rightarrow> Some (iso_dst v, iso_taken v, of_nat (iso_scan v), s))"



section \<open>The inactive list\<close>

definition too_many_isolated :: "'w mm_env \<Rightarrow> nat \<Rightarrow> bool \<Rightarrow> 'w mm_state \<Rightarrow> bool" where
  "too_many_isolated env z file s =
     (if e_current_is_kswapd env then False
      else
        let inactive = zone_page_state s z (if file then NR_INACTIVE_FILE else NR_INACTIVE_ANON);
            isolated = zone_page_state s z (if file then NR_ISOLATED_FILE else NR_ISOLATED_ANON)
        in isolated > inactive)"

text \<open>A page put back whose last reference goes away is taken off the list again and freed.\<close>

definition putback_free ::
    "nat \<Rightarrow> nat \<Rightarrow> lru_list \<Rightarrow> nat list \<Rightarrow> 'w mm_state \<Rightarrow> nat list \<times> 'w mm_state" where
  "putback_free z p lru pages_to_free s =
     (let (zero, s) = put_page_testzero p s
      in if zero then
           let s = ClearPage PG_lru p s;
               s = ClearPage PG_active p s;
               s = del_page_from_lru_list z p lru s
           in if PageCompound s p then (pages_to_free, kcall (Compound_page_dtor p) s)
              else (p # pages_to_free, s)
         else (pages_to_free, s))"

definition add_rotated :: "nat \<Rightarrow> bool \<Rightarrow> ulong \<Rightarrow> 'w mm_state \<Rightarrow> 'w mm_state" where
  "add_rotated z file n =
     upd_zone z (\<lambda>zn. zn\<lparr>recent_rotated := (recent_rotated zn)(file := recent_rotated zn file + n)\<rparr>)"

definition add_scanned :: "nat \<Rightarrow> bool \<Rightarrow> ulong \<Rightarrow> 'w mm_state \<Rightarrow> 'w mm_state" where
  "add_scanned z file n =
     upd_zone z (\<lambda>zn. zn\<lparr>recent_scanned := (recent_scanned zn)(file := recent_scanned zn file + n)\<rparr>)"

primrec putback_loop ::
    "nat \<Rightarrow> nat list \<Rightarrow> nat list \<times> 'w mm_state \<Rightarrow> nat list \<times> 'w mm_state" where
  "putback_loop z [] fs = fs"
| "putback_loop z (p # ps) fs =
     (let (pages_to_free, s) = fs
      in if \<not> page_evictable s p then putback_loop z ps (pages_to_free, putback_lru_page p s)
         else
           let s = SetPage PG_lru p s;
               lru = page_lru (mem_map s p);
               s = add_page_to_lru_list z p lru s;
               s = (if is_active_lru lru then add_rotated z (is_file_lru lru) 1 s else s)
           in putback_loop z ps (putback_free z p lru pages_to_free s))"

text \<open>Returns the pages to free, which the code leaves on the input list.\<close>

definition putback_inactive_pages :: "nat \<Rightarrow> nat list \<Rightarrow> 'w mm_state \<Rightarrow> nat list \<times> 'w mm_state" where
  "putback_inactive_pages z page_list s = putback_loop z (rev page_list) ([], s)"

text \<open>The loop of \<^verbatim>\<open>update_isolated_counts\<close>, which clears \<^verbatim>\<open>PG_active\<close> and counts the pages per list.\<close>

primrec count_isolated ::
    "nat list \<Rightarrow> (lru_list \<Rightarrow> ulong) \<times> ulong \<times> 'w mm_state \<Rightarrow> (lru_list \<Rightarrow> ulong) \<times> ulong \<times> 'w mm_state"
where
  "count_isolated [] st = st"
| "count_isolated (p # ps) st =
     (let (count, nr_active, s) = st;
          active = PageActive s p;
          lru = lru_plus (page_lru_base_type (mem_map s p)) (if active then LRU_ACTIVE else 0);
          s = (if active then ClearPage PG_active p s else s);
          nr_active = (if active then nr_active + 1 else nr_active)
      in count_isolated ps (count(lru := count lru + 1), nr_active, s))"

text \<open>Returns the numbers of anonymous and of file pages.\<close>

definition update_isolated_counts ::
    "nat \<Rightarrow> nat list \<Rightarrow> 'w mm_state \<Rightarrow> ulong \<times> ulong \<times> 'w mm_state" where
  "update_isolated_counts z page_list s =
     (let (count, nr_active, s) = count_isolated page_list (\<lambda>_. 0, 0, s);
          s = count_vm_events PGDEACTIVATE nr_active s;
          s = mod_zone_page_state z (nr_lru LRU_ACTIVE_FILE) (- count LRU_ACTIVE_FILE) s;
          s = mod_zone_page_state z (nr_lru LRU_INACTIVE_FILE) (- count LRU_INACTIVE_FILE) s;
          s = mod_zone_page_state z (nr_lru LRU_ACTIVE_ANON) (- count LRU_ACTIVE_ANON) s;
          s = mod_zone_page_state z (nr_lru LRU_INACTIVE_ANON) (- count LRU_INACTIVE_ANON) s;
          nr_anon = count LRU_ACTIVE_ANON + count LRU_INACTIVE_ANON;
          nr_file = count LRU_ACTIVE_FILE + count LRU_INACTIVE_FILE;
          s = mod_zone_page_state z (nr_isolated False) nr_anon s;
          s = mod_zone_page_state z (nr_isolated True) nr_file s
      in (nr_anon, nr_file, s))"

definition should_reclaim_stall ::
    "'w mm_env \<Rightarrow> ulong \<Rightarrow> ulong \<Rightarrow> int \<Rightarrow> scan_control \<Rightarrow> bool" where
  "should_reclaim_stall env nr_taken nr_freed priority sc =
     (if e_current_is_kswapd env then False
      else if has_bits (sc_reclaim_mode sc) RECLAIM_MODE_SINGLE then False
      else if nr_freed = nr_taken then False
      else
        let lumpy_stall_priority =
              (if sc_order sc > PAGE_ALLOC_COSTLY_ORDER then DEF_PRIORITY else DEF_PRIORITY div 3)
        in priority \<le> lumpy_stall_priority)"

text \<open>
  The wait at the start of \<^verbatim>\<open>shrink_inactive_list\<close>: whether a fatal signal ended it, and the state
  then. It may last for ever.
\<close>

partial_function (option) wait_too_many_isolated ::
    "'w mm_env \<Rightarrow> nat \<Rightarrow> bool \<Rightarrow> 'w mm_state \<Rightarrow> (bool \<times> 'w mm_state) option" where
  "wait_too_many_isolated env z file s =
     (if too_many_isolated env z file s then
        let s = e_congestion_wait env s
        in if e_fatal_signal_pending env s then Some (True, s)
           else wait_too_many_isolated env z file s
      else Some (False, s))"

definition add_pages_scanned :: "nat \<Rightarrow> ulong \<Rightarrow> 'w mm_state \<Rightarrow> 'w mm_state" where
  "add_pages_scanned z n = upd_zone z (\<lambda>zn. zn\<lparr>pages_scanned := pages_scanned zn + n\<rparr>)"

text \<open>From the end of \<^verbatim>\<open>shrink_page_list\<close> to the end of \<^verbatim>\<open>shrink_inactive_list\<close>.\<close>

definition shrink_putback ::
    "'w mm_env \<Rightarrow> 'w spl_result \<Rightarrow> ulong \<Rightarrow> ulong \<Rightarrow> ulong \<Rightarrow> nat \<Rightarrow> int \<Rightarrow> 'w mm_state" where
  "shrink_putback env r nr_taken nr_anon nr_file z priority =
     (let s = spl_mm r;
          s = add_scanned z False nr_anon s;
          s = add_scanned z True nr_file s;
          s = count_vm_events (if e_current_is_kswapd env then PGSTEAL_KSWAPD z
                               else PGSTEAL_DIRECT z) (spl_nr_reclaimed r) s;
          (pages_to_free, s) = putback_inactive_pages z (spl_page_list r) s;
          s = mod_zone_page_state z (nr_isolated False) (- nr_anon) s;
          s = mod_zone_page_state z (nr_isolated True) (- nr_file) s;
          s = log_free_hot_cold_page_list pages_to_free True s
      in if spl_nr_writeback r \<noteq> 0 \<and>
            spl_nr_writeback r \<ge> drop_bit (nat (DEF_PRIORITY - priority)) nr_taken
         then kcall (Wait_iff_congested z) s else s)"

text \<open>
  What happens to the pages isolated from the inactive list: one pass of \<^verbatim>\<open>shrink_page_list\<close>, a
  second one that waits for writeback if the first left too much, and the rest is put back.
\<close>

definition shrink_isolated ::
    "'w mm_env \<Rightarrow> nat list \<Rightarrow> ulong \<Rightarrow> nat \<Rightarrow> scan_control \<Rightarrow> int \<Rightarrow> 'w mm_state \<Rightarrow>
     (ulong \<times> scan_control \<times> 'w mm_state) option" where
  "shrink_isolated env page_list nr_taken z sc priority s =
     (let (nr_anon, nr_file, s) = update_isolated_counts z page_list s
      in case shrink_page_list env page_list z sc priority 0 0 s of
           None \<Rightarrow> None
         | Some r \<Rightarrow>
             (case (if should_reclaim_stall env nr_taken (spl_nr_reclaimed r) priority (spl_sc r)
                    then
                      map_option (\<lambda>r'. r'\<lparr>spl_nr_reclaimed := spl_nr_reclaimed r + spl_nr_reclaimed r'\<rparr>)
                        (shrink_page_list env (spl_page_list r) z
                           (set_reclaim_mode priority True (spl_sc r)) priority
                           (spl_nr_dirty r) (spl_nr_writeback r) (spl_mm r))
                    else Some r) of
                None \<Rightarrow> None
              | Some r \<Rightarrow>
                  Some (spl_nr_reclaimed r, spl_sc r,
                        shrink_putback env r nr_taken nr_anon nr_file z priority)))"

definition shrink_inactive_list ::
    "'w mm_env \<Rightarrow> ulong \<Rightarrow> nat \<Rightarrow> scan_control \<Rightarrow> int \<Rightarrow> bool \<Rightarrow> 'w mm_state \<Rightarrow>
     (ulong \<times> scan_control \<times> 'w mm_state) option" where
  "shrink_inactive_list env nr_to_scan z sc priority file s =
     (case wait_too_many_isolated env z file s of
        None \<Rightarrow> None
      | Some (fatal, s) \<Rightarrow>
          if fatal then Some (SWAP_CLUSTER_MAX, sc, s)
          else
            let sc = set_reclaim_mode priority False sc;
                mode = (if has_bits (sc_reclaim_mode sc) RECLAIM_MODE_LUMPYRECLAIM
                        then ISOLATE_INACTIVE OR ISOLATE_ACTIVE else ISOLATE_INACTIVE);
                s = lru_add_drain s;
                mode = (if \<not> sc_may_unmap sc then mode OR ISOLATE_UNMAPPED else mode);
                mode = (if \<not> sc_may_writepage sc then mode OR ISOLATE_CLEAN else mode)
            in case isolate_lru_pages nr_to_scan z sc mode False file s of
                 None \<Rightarrow> None
               | Some (page_list, nr_taken, nr_scanned, s) \<Rightarrow>
                   let s = add_pages_scanned z nr_scanned s;
                       s = count_vm_events (if e_current_is_kswapd env then PGSCAN_KSWAPD z
                                            else PGSCAN_DIRECT z) nr_scanned s
                   in if nr_taken = 0 then Some (0, sc, s)
                      else shrink_isolated env page_list nr_taken z sc priority s)"



section \<open>The active list\<close>

primrec move_active_loop ::
    "nat \<Rightarrow> lru_list \<Rightarrow> nat list \<Rightarrow> ulong \<times> nat list \<times> 'w mm_state \<Rightarrow> ulong \<times> nat list \<times> 'w mm_state"
where
  "move_active_loop z lru [] st = st"
| "move_active_loop z lru (p # ps) st =
     (let (pgmoved, pages_to_free, s) = st;
          s = SetPage PG_lru p s;
          s = lru_move z p lru s;
          (pages_to_free, s) = putback_free z p lru pages_to_free s
      in move_active_loop z lru ps (pgmoved + 1, pages_to_free, s))"

definition move_active_pages_to_lru ::
    "nat \<Rightarrow> nat list \<Rightarrow> nat list \<Rightarrow> lru_list \<Rightarrow> 'w mm_state \<Rightarrow> nat list \<times> 'w mm_state" where
  "move_active_pages_to_lru z pages pages_to_free lru s =
     (let (pgmoved, pages_to_free, s) = move_active_loop z lru (rev pages) (0, pages_to_free, s);
          s = mod_zone_page_state z (nr_lru lru) pgmoved s;
          s = (if \<not> is_active_lru lru then count_vm_events PGDEACTIVATE pgmoved s else s)
      in (pages_to_free, s))"

definition PG_REFERENCED_SHRINK_THRESHOLD :: ulong where "PG_REFERENCED_SHRINK_THRESHOLD = 2"

record sal_locals =
  l_active :: "nat list"
  l_inactive :: "nat list"
  nr_rotated :: ulong

text \<open>
  One page of \<^verbatim>\<open>l_hold\<close>: dropped buffers, the reference check, and the aging counter, which decides
  whether the page stays active.
\<close>

definition sal_release_buffers :: "'w mm_env \<Rightarrow> nat \<Rightarrow> 'w mm_state \<Rightarrow> 'w mm_state" where
  "sal_release_buffers env p s =
     (if e_buffer_heads_over_limit env s \<and> page_has_private s p then
        let (locked, s) = trylock_page p s
        in if locked then
             unlock_page p
               (if page_has_private s p then snd (e_try_to_release_page env p 0 s) else s)
           else s
      else s)"

definition sal_age :: "nat \<Rightarrow> sal_locals \<times> 'w mm_state \<Rightarrow> sal_locals \<times> 'w mm_state" where
  "sal_age p vs =
     (let (v, s) = vs;
          s = add_referenced 1 p s
      in if pg_referenced (mem_map s p) < PG_REFERENCED_SHRINK_THRESHOLD
         then (v\<lparr>l_active := p # l_active v\<rparr>, s)
         else (v\<lparr>l_inactive := p # l_inactive v\<rparr>, ClearPage PG_active p s))"

definition sal_page :: "'w mm_env \<Rightarrow> nat \<Rightarrow> sal_locals \<times> 'w mm_state \<Rightarrow> sal_locals \<times> 'w mm_state" where
  "sal_page env p vs =
     (let (v, s) = vs
      in if \<not> page_evictable s p then (v, putback_lru_page p s)
         else
           let s = sal_release_buffers env p s;
               ((referenced, vm_flags), s) = e_page_referenced env p False s;
               v = (if referenced \<noteq> 0 then v\<lparr>nr_rotated := nr_rotated v + 1\<rparr> else v)
           in if referenced \<noteq> 0 \<and> has_bits vm_flags VM_EXEC \<and> page_is_file_cache (mem_map s p)
              then (v\<lparr>l_active := p # l_active v\<rparr>, s)
              else sal_age p (v, s))"

definition shrink_active_list ::
    "'w mm_env \<Rightarrow> ulong \<Rightarrow> nat \<Rightarrow> scan_control \<Rightarrow> bool \<Rightarrow> 'w mm_state \<Rightarrow>
     (scan_control \<times> 'w mm_state) option" where
  "shrink_active_list env nr_to_scan z sc file s =
     (let s = lru_add_drain s;
          sc = reset_reclaim_mode sc;
          mode = ISOLATE_ACTIVE;
          mode = (if \<not> sc_may_unmap sc then mode OR ISOLATE_UNMAPPED else mode);
          mode = (if \<not> sc_may_writepage sc then mode OR ISOLATE_CLEAN else mode)
      in case isolate_lru_pages nr_to_scan z sc mode True file s of
           None \<Rightarrow> None
         | Some (l_hold, nr_taken, nr_scanned, s) \<Rightarrow>
             let s = add_pages_scanned z nr_scanned s;
                 s = add_scanned z file nr_taken s;
                 s = count_vm_events (PGREFILL z) nr_scanned s;
                 s = mod_zone_page_state z (nr_lru (iso_lru True file)) (- nr_taken) s;
                 s = mod_zone_page_state z (nr_isolated file) nr_taken s;
                 (v, s) = fold (sal_page env) (rev l_hold)
                            (\<lparr>l_active = [], l_inactive = [], nr_rotated = 0\<rparr>, s);
                 s = add_rotated z file (nr_rotated v) s;
                 (to_free, s) = move_active_pages_to_lru z (l_active v) [] (iso_lru True file) s;
                 (to_free, s) = move_active_pages_to_lru z (l_inactive v) to_free (iso_lru False file) s;
                 s = mod_zone_page_state z (nr_isolated file) (- nr_taken) s
             in Some (sc, log_free_hot_cold_page_list to_free True s))"


section \<open>Choosing a list\<close>

definition inactive_anon_is_low_global :: "nat \<Rightarrow> 'w mm_state \<Rightarrow> bool" where
  "inactive_anon_is_low_global z s =
     (let active = zone_page_state s z NR_ACTIVE_ANON;
          inactive = zone_page_state s z NR_INACTIVE_ANON
      in inactive * inactive_ratio (node_zones s z) < active)"

definition inactive_anon_is_low :: "nat \<Rightarrow> 'w mm_state \<Rightarrow> bool" where
  "inactive_anon_is_low z s = (if total_swap_pages s = 0 then False else inactive_anon_is_low_global z s)"

definition inactive_file_is_low_global :: "nat \<Rightarrow> 'w mm_state \<Rightarrow> bool" where
  "inactive_file_is_low_global z s =
     (let active = zone_page_state s z NR_ACTIVE_FILE;
          inactive = zone_page_state s z NR_INACTIVE_FILE
      in active > inactive)"

definition inactive_file_is_low :: "nat \<Rightarrow> 'w mm_state \<Rightarrow> bool" where
  "inactive_file_is_low z s = inactive_file_is_low_global z s"

definition inactive_list_is_low :: "nat \<Rightarrow> bool \<Rightarrow> 'w mm_state \<Rightarrow> bool" where
  "inactive_list_is_low z file s =
     (if file then inactive_file_is_low z s else inactive_anon_is_low z s)"

definition shrink_list ::
    "'w mm_env \<Rightarrow> lru_list \<Rightarrow> ulong \<Rightarrow> nat \<Rightarrow> scan_control \<Rightarrow> int \<Rightarrow> 'w mm_state \<Rightarrow>
     (ulong \<times> scan_control \<times> 'w mm_state) option" where
  "shrink_list env lru nr_to_scan z sc priority s =
     (let file = is_file_lru lru
      in if is_active_lru lru then
           if inactive_list_is_low z file s then
             map_option (\<lambda>(sc, s). (0, sc, s)) (shrink_active_list env nr_to_scan z sc file s)
           else Some (0, sc, s)
         else shrink_inactive_list env nr_to_scan z sc priority file s)"

end
