(* ===== verification/Vmscan_Inv.thy ===== *)
theory Vmscan_Inv
  imports Vmscan_List
begin

text \<open>
  The LRU invariant through page reclaim. Reclaim isolates pages: it takes them off the LRU onto
  private lists and works on them while other code runs. The central relation here is
  \<open>mm_safe_but A s s'\<close>: the step from \<open>s\<close> to \<open>s'\<close> keeps the LRU invariant and leaves every isolated page
  outside \<open>A\<close> isolated, with the flags that select its list. The functions standing for code outside
  the model are assumed to be such steps (\<open>env_ok\<close>); every modelled operation is proved to be one.
\<close>

section \<open>Isolated pages and safe steps\<close>

definition isolated :: "'w mm_state \<Rightarrow> nat \<Rightarrow> bool" where
  "isolated s p \<longleftrightarrow> \<not> PageLRU s p \<and> (\<forall>l. p \<notin> set (add_pvec s l))"

definition lru_flags_eq :: "page \<Rightarrow> page \<Rightarrow> bool" where
  "lru_flags_eq pg pg' \<longleftrightarrow>
     pg_flags pg' PG_active = pg_flags pg PG_active \<and>
     pg_flags pg' PG_unevictable = pg_flags pg PG_unevictable \<and>
     pg_flags pg' PG_swapbacked = pg_flags pg PG_swapbacked"

definition mm_safe_but :: "nat set \<Rightarrow> 'w mm_state \<Rightarrow> 'w mm_state \<Rightarrow> bool" where
  "mm_safe_but A s s' \<longleftrightarrow>
     (mm_inv s \<longrightarrow>
        mm_inv s' \<and>
        (\<forall>q. q \<notin> A \<longrightarrow> isolated s q \<longrightarrow> isolated s' q \<and> lru_flags_eq (mem_map s q) (mem_map s' q)) \<and>
        (\<forall>q. pg_zonenum (mem_map s' q) = pg_zonenum (mem_map s q)))"

abbreviation mm_safe :: "'w mm_state \<Rightarrow> 'w mm_state \<Rightarrow> bool" where
  "mm_safe \<equiv> mm_safe_but {}"

lemma lru_flags_eq_refl [simp]: "lru_flags_eq pg pg"
  by (simp add: lru_flags_eq_def)

lemma lru_flags_eq_trans: "lru_flags_eq a b \<Longrightarrow> lru_flags_eq b c \<Longrightarrow> lru_flags_eq a c"
  by (simp add: lru_flags_eq_def)

lemma mm_safe_refl [simp, intro]: "mm_safe_but A s s"
  by (simp add: mm_safe_but_def)

lemma mm_safe_but_trans:
  assumes "mm_safe_but A s s'" "mm_safe_but B s' s''"
  shows "mm_safe_but (A \<union> B) s s''"
proof -
  have "isolated s'' q \<and> lru_flags_eq (mem_map s q) (mem_map s'' q)"
    if "mm_inv s" "q \<notin> A \<union> B" "isolated s q" for q
    using assms that unfolding mm_safe_but_def by (metis UnCI lru_flags_eq_trans)
  then show ?thesis
    using assms by (simp add: mm_safe_but_def)
qed

lemma mm_safe_trans: "mm_safe_but A s s' \<Longrightarrow> mm_safe_but A s' s'' \<Longrightarrow> mm_safe_but A s s''"
  using mm_safe_but_trans [of A s s' A s''] by simp

lemma mm_safe_mono: "mm_safe_but A s s' \<Longrightarrow> A \<subseteq> B \<Longrightarrow> mm_safe_but B s s'"
  unfolding mm_safe_but_def by blast

lemma mm_safe_any: "mm_safe s s' \<Longrightarrow> mm_safe_but A s s'"
  by (rule mm_safe_mono) auto

lemma mm_safe_inv: "mm_safe_but A s s' \<Longrightarrow> mm_inv s \<Longrightarrow> mm_inv s'"
  by (simp add: mm_safe_but_def)

lemma mm_safe_isolated:
  "mm_safe_but A s s' \<Longrightarrow> mm_inv s \<Longrightarrow> q \<notin> A \<Longrightarrow> isolated s q \<Longrightarrow> isolated s' q"
  by (simp add: mm_safe_but_def)

lemma mm_safe_flags:
  "mm_safe_but A s s' \<Longrightarrow> mm_inv s \<Longrightarrow> q \<notin> A \<Longrightarrow> isolated s q \<Longrightarrow>
     lru_flags_eq (mem_map s q) (mem_map s' q)"
  by (simp add: mm_safe_but_def)

lemma mm_safe_zonenum:
  "mm_safe_but A s s' \<Longrightarrow> mm_inv s \<Longrightarrow> pg_zonenum (mem_map s' q) = pg_zonenum (mem_map s q)"
  by (simp add: mm_safe_but_def)

text \<open>Steps that are safe for the LRU lists alone are safe when they leave the pagevecs alone too.\<close>

lemma mm_safe_lru:
  assumes safe: "lru_safe_but A s s'" and A: "\<And>q. q \<in> A \<Longrightarrow> isolated s q"
  shows "mm_safe_but A s s'"
proof -
  have pv: "pvecs_kept s s'" using safe by (simp add: lru_safe_but_def)
  have "mm_inv s'" if "mm_inv s"
    by (rule mm_inv_safe_but [OF safe _ that]) (use A in \<open>auto simp: isolated_def\<close>)
  moreover have "pg_flags (mem_map s' q) = pg_flags (mem_map s q)" if "q \<notin> A" "isolated s q" for q
    using that by (intro lru_safe_flags [OF safe]) (simp_all add: isolated_def PageFlag_def)
  ultimately show ?thesis
    using pv lru_safe_zonenum [OF safe]
    by (simp add: mm_safe_but_def isolated_def lru_flags_eq_def pvecs_kept_def PageFlag_def)
qed

lemma mm_safe_lru_safe: "lru_safe s s' \<Longrightarrow> mm_safe s s'"
  by (rule mm_safe_lru) simp_all

text \<open>Updates of one page.\<close>

lemma page_lru_flags_eq: "lru_flags_eq pg pg' \<Longrightarrow> page_lru pg' = page_lru pg"
  by (simp add: lru_flags_eq_def page_lru_def page_lru_base_type_def page_is_file_cache_def)

lemma mm_safe_upd_page:
  assumes eq: "lru_flags_eq (mem_map s p) (f (mem_map s p))"
    and lru: "pg_flags (f (mem_map s p)) PG_lru = pg_flags (mem_map s p) PG_lru"
    and zn: "pg_zonenum (f (mem_map s p)) = pg_zonenum (mem_map s p)"
  shows "mm_safe s (upd_page p f s)"
proof -
  let ?s = "upd_page p f s"
  have place: "lru_place (f (mem_map s p)) = lru_place (mem_map s p)"
    using page_lru_flags_eq [OF eq] lru zn by (simp add: lru_place_def)
  have pv: "lru_add_pvecs ?s = lru_add_pvecs s" "lru_rotate_pvecs ?s = lru_rotate_pvecs s"
    "lru_deactivate_pvecs ?s = lru_deactivate_pvecs s"
    by (simp_all add: upd_page_def)
  have iso: "isolated ?s q = isolated s q" for q
    using lru by (simp add: isolated_def pv PageFlag_def)
  have "pvec_page_ok ?s l q = pvec_page_ok s l q" for l q
    using lru eq by (simp add: pvec_page_ok_def PageFlag_def page_is_file_cache_def lru_flags_eq_def)
  then have "mm_inv ?s = mm_inv s"
    by (simp add: mm_inv_def pvecs_ok_def pv lru_inv_upd_page [where f = f, OF place])
  then show ?thesis
    using iso eq zn by (simp add: mm_safe_but_def)
qed

lemma mm_safe_isolated_upd:
  assumes "isolated s p" "\<not> pg_flags (f (mem_map s p)) PG_lru"
    "pg_zonenum (f (mem_map s p)) = pg_zonenum (mem_map s p)"
  shows "mm_safe_but {p} s (upd_page p f s)" "isolated (upd_page p f s) p"
proof -
  have "\<not> PageLRU s p" using assms(1) by (simp add: isolated_def)
  from lru_safe_but_off [where f = f, OF this assms(2,3)]
  show "mm_safe_but {p} s (upd_page p f s)"
    by (rule mm_safe_lru) (use assms(1) in simp)
  show "isolated (upd_page p f s) p"
    using assms by (simp add: isolated_def PageFlag_def) (simp add: upd_page_def)
qed

lemma mm_safe_flag [intro]:
  assumes "f \<notin> {PG_lru, PG_active, PG_unevictable, PG_swapbacked}"
  shows "mm_safe s (SetPage f p s)" "mm_safe s (ClearPage f p s)"
  using assms by (auto simp: SetPage_def ClearPage_def lru_flags_eq_def intro!: mm_safe_upd_page)

lemma mm_safe_lock [intro]:
  "mm_safe s (snd (trylock_page p s))" "mm_safe s (unlock_page p s)" "mm_safe s (lock_page p s)"
  by (auto simp: trylock_page_def unlock_page_def lock_page_def)

lemma mm_safe_refs [intro]:
  "mm_safe s (add_referenced d p s)" "mm_safe s (snd (page_freeze_refs p n s))"
  "mm_safe s (page_unfreeze_refs p n s)" "mm_safe s (snd (put_page_testzero p s))"
  "mm_safe s (snd (get_page_unless_zero p s))"
  by (auto simp: add_referenced_def page_freeze_refs_def page_unfreeze_refs_def
      put_page_testzero_def get_page_unless_zero_def add_count_def Let_def lru_flags_eq_def
      intro!: mm_safe_upd_page)

lemma mm_safe_release [intro]:
  "mm_safe s (put_page p s)" "mm_safe s (get_page p s)"
  "mm_safe s (log_free_hot_cold_page_list ps cold s)" "mm_safe s (count_vm_events e n s)"
  "mm_safe s (kcall c s)"
  by (rule mm_safe_lru_safe, blast)+

text \<open>Counters and zone fields that the invariant does not read.\<close>

lemma mm_safe_upd_zone:
  assumes "\<And>zn. lists (g zn) = lists zn" "\<And>zn. vm_stat (g zn) = vm_stat zn"
  shows "mm_safe s (upd_zone z g s)"
  by (rule mm_safe_lru_safe, rule lru_safe_upd_zone) (simp_all add: assms)

lemma mm_safe_mod_state:
  assumes "\<And>l. i \<noteq> nr_lru l"
  shows "mm_safe s (mod_zone_page_state z i d s)"
proof (rule mm_safe_lru_safe)
  have "lru_inv_upto D (mod_zone_page_state z i d s) = lru_inv_upto D s" for D
    by (rule lru_inv_cong) (use assms in auto)
  then show "lru_safe s (mod_zone_page_state z i d s)"
    by (simp add: lru_safe_but_def)
qed

lemma nr_lru_neq_vmscan [simp]: "NR_VMSCAN_WRITE \<noteq> nr_lru l" "NR_VMSCAN_IMMEDIATE \<noteq> nr_lru l"
  "nr_isolated b \<noteq> nr_lru l"
  by (cases l; simp add: nr_isolated_def)+

lemma mm_safe_counters [intro]:
  "mm_safe s (inc_zone_page_state p NR_VMSCAN_WRITE s)"
  "mm_safe s (inc_zone_page_state p NR_VMSCAN_IMMEDIATE s)"
  "mm_safe s (mod_zone_page_state z (nr_isolated b) d s)"
  "mm_safe s (add_scanned z b n s)" "mm_safe s (add_rotated z b n s)"
  "mm_safe s (add_pages_scanned z n s)" "mm_safe s (zone_set_flag z f s)"
  by (auto simp: inc_zone_page_state_def add_scanned_def add_rotated_def add_pages_scanned_def
      zone_set_flag_def intro!: mm_safe_mod_state mm_safe_upd_zone)



section \<open>Draining and adding\<close>

lemma mm_safe_pvec_set:
  assumes "length (pv_pages pv) < 14"
  shows "mm_safe s (s\<lparr>lru_rotate_pvecs := pv\<rparr>)" "mm_safe s (s\<lparr>lru_deactivate_pvecs := pv\<rparr>)"
  using assms
  by (simp_all add: mm_safe_but_def mm_inv_def pvecs_ok_def pvec_page_ok_def isolated_def PageFlag_def)

lemma mm_safe_emptied:
  assumes safe: "lru_safe_but A s s'" and pv: "pv_pages pv = []"
    and inv: "mm_inv (s'\<lparr>lru_add_pvecs := (lru_add_pvecs s')(l := pv)\<rparr>)"
    and A: "A \<subseteq> set (add_pvec s l) \<union> B"
  shows "mm_safe_but B s (s'\<lparr>lru_add_pvecs := (lru_add_pvecs s')(l := pv)\<rparr>)"
proof -
  have kept: "lru_add_pvecs s' = lru_add_pvecs s"
    using safe by (simp add: lru_safe_but_def pvecs_kept_def)
  have "pg_flags (mem_map s' q) = pg_flags (mem_map s q)" if "q \<notin> B" "isolated s q" for q
    using that A by (intro lru_safe_flags [OF safe]) (auto simp: isolated_def PageFlag_def)
  then show ?thesis
    using inv pv lru_safe_zonenum [OF safe]
    by (simp add: mm_safe_but_def isolated_def kept PageFlag_def lru_flags_eq_def)
qed

lemma mm_safe_drain_one [intro]: "mm_safe s (lru_add_drain_one l s)"
proof (cases "mm_inv s \<and> add_pvec s l \<noteq> []")
  case True
  let ?r = "raw_pagevec_lru_add (lru_add_pvecs s l) l s"
  have ok: "pvecs_ok s" using True by (simp add: mm_inv_def)
  then have "l \<noteq> LRU_UNEVICTABLE" using True by (auto simp: pvecs_ok_def)
  then have "lru_safe_but (set (add_pvec s l)) s (snd ?r)"
    using ok by (intro lru_safe_pagevec_lru_add) (auto simp: pvecs_ok_def)
  then have "mm_inv ((snd ?r)\<lparr>lru_add_pvecs := (lru_add_pvecs (snd ?r))(l := fst ?r)\<rparr>) \<Longrightarrow>
      mm_safe s ((snd ?r)\<lparr>lru_add_pvecs := (lru_add_pvecs (snd ?r))(l := fst ?r)\<rparr>)"
    by (rule mm_safe_emptied) simp_all
  moreover have "lru_add_drain_one l s = s \<or> lru_add_drain_one l s =
      (snd ?r)\<lparr>lru_add_pvecs := (lru_add_pvecs (snd ?r))(l := fst ?r)\<rparr>"
    by (simp add: lru_add_drain_one_def split_beta Let_def)
  ultimately show ?thesis
    using mm_inv_drain_one [of s l] True by auto
next
  case False
  then show ?thesis
    by (auto simp: mm_safe_but_def lru_add_drain_one_def pagevec_count_def)
qed

lemma mm_safe_fold:
  assumes "\<And>x s. mm_safe s (f x s)"
  shows "mm_safe s (fold f xs s)"
proof (induction xs arbitrary: s)
  case (Cons x xs)
  show ?case using mm_safe_trans [OF assms Cons.IH] by simp
qed simp

lemma mm_safe_lru_add_drain [intro]: "mm_safe s (lru_add_drain s)"
proof -
  define t where "t = fold lru_add_drain_one all_lrus s"
  have t: "mm_safe s t" unfolding t_def by (rule mm_safe_fold) (rule mm_safe_drain_one)
  define u where "u = (if pagevec_count (lru_rotate_pvecs t) \<noteq> 0 then
    (snd (pagevec_move_tail (lru_rotate_pvecs t) t))
      \<lparr>lru_rotate_pvecs := fst (pagevec_move_tail (lru_rotate_pvecs t) t)\<rparr> else t)"
  have "mm_safe t ((snd (pagevec_move_tail (lru_rotate_pvecs t) t))
      \<lparr>lru_rotate_pvecs := fst (pagevec_move_tail (lru_rotate_pvecs t) t)\<rparr>)"
    by (rule mm_safe_trans [OF mm_safe_lru_safe [OF lru_safe_pagevec_move_tail] mm_safe_pvec_set(1)])
       simp
  then have "mm_safe t u" unfolding u_def by simp
  note u = mm_safe_trans [OF t this]
  let ?r = "pagevec_lru_move_fn (lru_deactivate_pvecs u) lru_deactivate_fn () u"
  have "mm_safe u ((snd (snd ?r))\<lparr>lru_deactivate_pvecs := fst ?r\<rparr>)"
    by (rule mm_safe_trans [OF mm_safe_lru_safe mm_safe_pvec_set(2)])
       (simp_all add: lru_safe_pagevec_lru_move_fn lru_safe_deactivate_fn)
  from mm_safe_trans [OF u this] u show ?thesis
    unfolding lru_add_drain_def lru_add_drain_cpu_def t_def [symmetric] Let_def
    by (simp add: split_beta u_def split: if_splits)
qed

lemma mm_safe_raw_lru_cache_add:
  assumes inv: "mm_inv s" and l: "l \<noteq> LRU_UNEVICTABLE" and p: "pvec_page_ok s l p"
    and iso: "isolated s p"
  shows "mm_safe_but {p} s (raw_lru_cache_add p l s)"
proof -
  let ?s = "get_page p s"
  let ?pv = "snd (pagevec_add (lru_add_pvecs ?s l) p)"
  let ?r = "raw_pagevec_lru_add ?pv l ?s"
  have new: "p \<notin> set (add_pvec s l')" for l' using iso by (simp add: isolated_def)
  have inv': "mm_inv (raw_lru_cache_add p l s)"
    by (rule mm_inv_raw_lru_cache_add [OF inv l p new])
  have s1: "mm_inv ?s" and safe1: "mm_safe s ?s"
    using mm_inv_safe [OF lru_safe_get_page inv] by auto
  have p1: "pvec_page_ok ?s l p" by (rule pvec_page_ok_safe [OF lru_safe_get_page _ p]) simp
  have new1: "p \<notin> set (add_pvec ?s l')" for l'
    using new [of l'] lru_safe_get_page [of s p] by (simp add: lru_safe_but_def pvecs_kept_def)
  have ok: "pvecs_ok ?s" and len: "length (add_pvec ?s l) < 14"
    using s1 by (simp_all add: mm_inv_def pvecs_ok_def)
  note add = pagevec_space_add [OF len, of p]
  have drained: "lru_safe_but (set (pv_pages ?pv)) ?s (snd ?r)"
    using ok p1 new1 l by (intro lru_safe_pagevec_lru_add) (auto simp: pvecs_ok_def add)
  have "mm_safe_but {p} ?s (raw_lru_cache_add p l s)"
  proof (cases "fst (pagevec_add (lru_add_pvecs ?s l) p) = 0")
    case True
    then have eq: "raw_lru_cache_add p l s =
        (snd ?r)\<lparr>lru_add_pvecs := (lru_add_pvecs (snd ?r))(l := fst ?r)\<rparr>"
      by (simp add: raw_lru_cache_add_def split_beta Let_def)
    show ?thesis
      unfolding eq
      by (rule mm_safe_emptied [OF drained]) (use inv' eq add(2) in auto)
  next
    case False
    then have eq: "raw_lru_cache_add p l s = ?s\<lparr>lru_add_pvecs := (lru_add_pvecs ?s)(l := ?pv)\<rparr>"
      by (simp add: raw_lru_cache_add_def split_beta Let_def)
    show ?thesis
      using inv' unfolding eq by (simp add: mm_safe_but_def isolated_def add(2) PageFlag_def)
  qed
  from mm_safe_trans [OF mm_safe_any [OF safe1] this] show ?thesis .
qed

lemma mm_safe_lru_cache_add_lru:
  assumes inv: "mm_inv s" and l: "l \<noteq> LRU_UNEVICTABLE"
    and off: "\<not> (PageActive s p \<and> PageUnevictable s p)"
    and ft: "page_is_file_cache (mem_map s p) = is_file_lru l" and iso: "isolated s p"
  shows "mm_safe_but {p} s (lru_cache_add_lru p l s)"
proof -
  let ?t = "if PageActive s p then ClearPage PG_active p s
    else if PageUnevictable s p then ClearPage PG_unevictable p s else s"
  have t: "mm_safe_but {p} s ?t" "isolated ?t p"
    using mm_safe_isolated_upd [where f = "clear_flag PG_active", OF iso]
      mm_safe_isolated_upd [where f = "clear_flag PG_unevictable", OF iso] iso
    by (auto simp: ClearPage_def isolated_def PageFlag_def)
  have "pvec_page_ok ?t l p"
    using off ft iso
    by (simp add: pvec_page_ok_def PageFlag_def ClearPage_def page_is_file_cache_def isolated_def)
  from mm_safe_raw_lru_cache_add [OF mm_safe_inv [OF t(1) inv] l this t(2)]
  have "mm_safe_but {p} ?t (raw_lru_cache_add p l ?t)" .
  from mm_safe_trans [OF t(1) this] show ?thesis
    unfolding lru_cache_add_lru_def Let_def .
qed

lemma mm_safe_add_unevictable:
  assumes "isolated s p"
  shows "mm_safe_but {p} s (add_page_to_unevictable_list p s)"
proof -
  let ?z = "pg_zonenum (mem_map s p)"
  define f where "f = (\<lambda>pg. set_flag PG_lru (set_flag PG_unevictable pg))"
  have place: "lru_place (mem_map s p) = None" "lru_place (f (mem_map s p)) = Some (?z, LRU_UNEVICTABLE)"
    using assms by (simp_all add: f_def lru_place_defs PageFlag_def isolated_def)
  have "lru_safe_but {p} s (add_page_to_lru_list ?z p LRU_UNEVICTABLE (upd_page p f s))"
    unfolding lru_safe_but_def using lru_inv_add [where f = f, OF _ place] by (simp add: f_def)
  then have "mm_safe_but {p} s (add_page_to_lru_list ?z p LRU_UNEVICTABLE (upd_page p f s))"
    by (rule mm_safe_lru) (use assms in simp)
  then show ?thesis
    by (simp add: add_page_to_unevictable_list_def Let_def SetPage_def page_zone_def f_def)
qed

text \<open>Putting an isolated page back.\<close>

lemma page_lru_base_type_plus:
  "lru_plus (page_lru_base_type pg) (of_bool a) \<noteq> LRU_UNEVICTABLE"
  "is_file_lru (lru_plus (page_lru_base_type pg) (of_bool a)) = page_is_file_cache pg"
  by (cases a; simp add: page_lru_base_type_def lru_plus_def lru_of_nat_def is_file_lru_def)+

lemma mm_safe_putback_redo:
  assumes inv: "mm_inv s" and iso: "isolated s p"
  shows "mm_safe_but {p} s (snd (putback_redo a p s))"
proof -
  let ?t = "ClearPage PG_unevictable p s"
  have t: "mm_safe_but {p} s ?t" "isolated ?t p"
    using mm_safe_isolated_upd [where f = "clear_flag PG_unevictable", OF iso] iso
    by (auto simp: ClearPage_def isolated_def PageFlag_def)
  note invt = mm_safe_inv [OF t(1) inv]
  let ?lru = "lru_plus (page_lru_base_type (mem_map ?t p)) (of_bool a)"
  have 1: "mm_safe_but {p} ?t (lru_cache_add_lru p ?lru ?t)"
    by (rule mm_safe_lru_cache_add_lru [OF invt])
       (use t(2) in \<open>simp_all add: page_lru_base_type_plus ClearPage_def PageFlag_def\<close>)
  have 2: "mm_safe_but {p} ?t (add_page_to_unevictable_list p ?t)"
    by (rule mm_safe_add_unevictable [OF t(2)])
  show ?thesis
    using mm_safe_trans [OF t(1) 1] mm_safe_trans [OF t(1) 2]
    by (subst putback_redo.simps) (simp add: Let_def page_evictable_after_add)
qed

lemma mm_safe_putback_lru_page:
  assumes inv: "mm_inv s" and iso: "isolated s p"
  shows "mm_safe_but {p} s (putback_lru_page p s)"
proof -
  let ?t = "ClearPage PG_active p s"
  let ?r = "putback_redo (PageActive s p) p ?t"
  have t: "mm_safe_but {p} s ?t" "isolated ?t p"
    using mm_safe_isolated_upd [where f = "clear_flag PG_active", OF iso] iso
    by (auto simp: ClearPage_def isolated_def PageFlag_def)
  have r: "mm_safe_but {p} s (snd ?r)"
    using mm_safe_trans [OF t(1) mm_safe_putback_redo [OF mm_safe_inv [OF t(1) inv] t(2)]] .
  let ?u = "if PageUnevictable ?t p \<and> fst ?r \<noteq> LRU_UNEVICTABLE
      then count_vm_events UNEVICTABLE_PGRESCUED 1 (snd ?r)
      else if \<not> PageUnevictable ?t p \<and> fst ?r = LRU_UNEVICTABLE
      then count_vm_events UNEVICTABLE_PGCULLED 1 (snd ?r) else snd ?r"
  have "mm_safe (snd ?r) ?u" by auto
  from mm_safe_trans [OF r mm_safe_any [OF mm_safe_trans [OF this mm_safe_release(1) [of _ p]]]]
  show ?thesis
    unfolding putback_lru_page_def Let_def split_beta .
qed



section \<open>Shrinking a list of pages\<close>

text \<open>The assumption on the code outside: it keeps the LRU consistent and does not touch isolated pages.\<close>

definition env_ok :: "'w mm_env \<Rightarrow> bool" where
  "env_ok env \<longleftrightarrow>
     (\<forall>p s. (\<forall>l. mm_safe s (snd (e_page_referenced env p l s))) \<and>
            mm_safe s (snd (e_try_to_unmap env p s)) \<and>
            mm_safe s (snd (e_add_to_swap env p s)) \<and>
            mm_safe s (snd (e_try_to_free_swap env p s)) \<and>
            mm_safe s (snd (e_try_to_free_buffers env p s)) \<and>
            (\<forall>g. mm_safe s (snd (e_try_to_release_page env p g s))) \<and>
            mm_safe s (snd (e_clear_page_dirty_for_io env p s)) \<and>
            (\<forall>m. mm_safe s (snd (e_writepage env m p s))) \<and>
            mm_safe s (e_wait_on_page_writeback env p s) \<and>
            mm_safe s (e_delete_from_swap_cache env p s) \<and>
            (\<forall>e. mm_safe s (e_swapcache_free env e p s)) \<and>
            mm_safe s (e_delete_from_page_cache env p s) \<and>
            (\<forall>m. mm_safe s (e_freepage env m p s)) \<and>
            mm_safe s (e_congestion_wait env s))"

lemma env_okD:
  assumes "env_ok env"
  shows "mm_safe s (snd (e_page_referenced env p l s))" "mm_safe s (snd (e_try_to_unmap env p s))"
    "mm_safe s (snd (e_add_to_swap env p s))" "mm_safe s (snd (e_try_to_free_swap env p s))"
    "mm_safe s (snd (e_try_to_free_buffers env p s))"
    "mm_safe s (snd (e_try_to_release_page env p g s))"
    "mm_safe s (snd (e_clear_page_dirty_for_io env p s))" "mm_safe s (snd (e_writepage env m p s))"
    "mm_safe s (e_wait_on_page_writeback env p s)" "mm_safe s (e_delete_from_swap_cache env p s)"
    "mm_safe s (e_swapcache_free env e p s)" "mm_safe s (e_delete_from_page_cache env p s)"
    "mm_safe s (e_freepage env m p s)" "mm_safe s (e_congestion_wait env s)"
  using assms by (simp_all add: env_ok_def)

lemma mm_safe_mapping_set_error [intro]: "mm_safe s (mapping_set_error m e s)"
proof -
  have "mm_inv (s\<lparr>as_infos := a\<rparr>) = mm_inv s" for a
  proof -
    have "lru_inv (s\<lparr>as_infos := a\<rparr>) = lru_inv s" by (rule lru_inv_cong) simp_all
    then show ?thesis by (simp add: mm_inv_def pvecs_ok_def pvec_page_ok_def PageFlag_def)
  qed
  then show ?thesis
    by (simp add: mapping_set_error_def mm_safe_but_def isolated_def PageFlag_def)
qed

lemma mm_safe_handle_write_error [intro]: "mm_safe s (handle_write_error m p e s)"
proof -
  let ?t = "lock_page p s"
  have "mm_safe ?t (if page_mapping ?t p = Some m then mapping_set_error m e ?t else ?t)" by auto
  from mm_safe_trans [OF mm_safe_trans [OF mm_safe_lock(3) this] mm_safe_lock(2)]
  show ?thesis unfolding handle_write_error_def Let_def .
qed

lemma mm_safe_check_references:
  assumes "env_ok env"
  shows "mm_safe s (snd (page_check_references env sc p s))"
proof -
  let ?t = "snd (e_page_referenced env p True s)"
  have t: "mm_safe s (add_referenced 1 p ?t)"
    by (rule mm_safe_trans [OF env_okD(1) [OF assms] mm_safe_refs(1)])
  from t mm_safe_trans [OF t mm_safe_refs(1) [of _ "-1" p]] show ?thesis
    by (simp add: page_check_references_def split_beta Let_def)
qed

lemma mm_safe_pageout:
  assumes env: "env_ok env"
  shows "mm_safe s (snd (pageout env p mapping sc s))"
proof -
  let ?b = "snd (e_try_to_free_buffers env p s)"
  have b: "mm_safe s ?b" "mm_safe s (ClearPage PG_dirty p ?b)"
    using env_okD(5) [OF env] mm_safe_trans [OF env_okD(5) [OF env] mm_safe_flag(2)] by auto
  let ?t = "snd (e_clear_page_dirty_for_io env p s)"
  have t: "mm_safe s ?t" by (rule env_okD(7) [OF env])
  show ?thesis
  proof (cases mapping)
    case None
    then show ?thesis using b by (simp add: pageout_def split_beta Let_def)
  next
    case (Some m)
    define u where "u = e_writepage env m p (SetPage PG_reclaim p ?t)"
    have u: "mm_safe s (snd u)"
      unfolding u_def
      by (rule mm_safe_trans [OF mm_safe_trans [OF t mm_safe_flag(1)] env_okD(8) [OF env]]) simp
    define w where "w = (if fst u < 0 then handle_write_error m p (fst u) (snd u) else snd u)"
    have w: "mm_safe s w"
      unfolding w_def using u mm_safe_trans [OF u mm_safe_handle_write_error] by simp
    have c: "mm_safe s (ClearPage PG_reclaim p w)"
      by (rule mm_safe_trans [OF w mm_safe_flag(2)]) simp
    have "snd (pageout env p mapping sc s) \<in> {s, ?t, ClearPage PG_reclaim p w,
        inc_zone_page_state p NR_VMSCAN_WRITE w,
        inc_zone_page_state p NR_VMSCAN_WRITE (ClearPage PG_reclaim p w)}"
      by (simp add: pageout_def Some split_beta Let_def u_def [symmetric] w_def)
    then show ?thesis
      using t c mm_safe_trans [OF w mm_safe_counters(1)] mm_safe_trans [OF c mm_safe_counters(1)]
      by auto
  qed
qed

lemma mm_safe_remove_mapping:
  assumes env: "env_ok env" and r: "raw_remove_mapping env m p s = Some (b, s')"
  shows "mm_safe s s'"
proof -
  let ?t = "snd (page_freeze_refs p 2 s)"
  have t: "mm_safe s ?t" by (rule mm_safe_refs)
  note 1 = mm_safe_trans [OF t mm_safe_refs(3) [of _ p 2]]
    mm_safe_trans [OF mm_safe_trans [OF t env_okD(10) [OF env]] env_okD(11) [OF env]]
    mm_safe_trans [OF t env_okD(12) [OF env]]
    mm_safe_trans [OF mm_safe_trans [OF t env_okD(12) [OF env]] env_okD(13) [OF env]]
  show ?thesis
    using r 1 t by (auto simp: raw_remove_mapping_def split_beta Let_def split: if_splits)
qed

text \<open>The stages of the loop body keep the private lists and are safe.\<close>

definition spl_safe :: "'w spl_state \<Rightarrow> 'w spl_state \<Rightarrow> bool" where
  "spl_safe st st' \<longleftrightarrow>
     (case (st, st') of ((v, sc, s), (v', sc', s')) \<Rightarrow>
        mm_safe s s' \<and> ret_pages v' = ret_pages v \<and> free_pages v' = free_pages v)"

lemma spl_safe_trans: "spl_safe a b \<Longrightarrow> spl_safe b c \<Longrightarrow> spl_safe a c"
  unfolding spl_safe_def using mm_safe_trans by (auto split: prod.splits)

lemma spl_safe_release:
  assumes env: "env_ok env" and r: "spl_release env p mapping st = Some (label, st')"
  shows "spl_safe st st'"
proof -
  obtain v sc s where st: "st = (v, sc, s)" by (cases st)
  define t where "t = (if page_has_private s p then snd (e_try_to_release_page env p (sc_gfp_mask sc) s)
    else s)"
  have t: "mm_safe s t" unfolding t_def using env_okD(6) [OF env] by simp
  note 1 = t mm_safe_trans [OF t mm_safe_trans [OF mm_safe_lock(2) mm_safe_refs(4)], of p p]
  have 2: "mm_safe s (ClearPage PG_locked p s')" "mm_safe s s'"
    if "raw_remove_mapping env m p t = Some (b, s')" for m b s'
    using mm_safe_trans [OF t mm_safe_remove_mapping [OF env that]]
      mm_safe_trans [OF mm_safe_trans [OF t mm_safe_remove_mapping [OF env that]] mm_safe_flag(2)]
    by simp_all
  show ?thesis
    using r 1 2 unfolding st spl_release_def
    by (auto simp: t_def split_beta Let_def spl_safe_def split: if_splits option.splits prod.splits)
qed

lemma spl_safe_dirty:
  assumes env: "env_ok env"
    and r: "spl_dirty env priority p refs fs mapping st = Some (label, st')"
  shows "spl_safe st st'"
proof -
  obtain v sc s where st: "st = (v, sc, s)" by (cases st)
  let ?v = "v\<lparr>nr_dirty := nr_dirty v + 1\<rparr>"
  let ?i = "SetPage PG_reclaim p (inc_zone_page_state p NR_VMSCAN_IMMEDIATE s)"
  let ?o = "pageout env p mapping sc s"
  have i: "mm_safe s ?i" by (rule mm_safe_trans [OF mm_safe_counters(2) mm_safe_flag(1)]) simp
  have o: "mm_safe s (snd ?o)" by (rule mm_safe_pageout [OF env])
  have k: "mm_safe s (snd (trylock_page p (snd ?o)))" by (rule mm_safe_trans [OF o mm_safe_lock(1)])
  have v: "spl_safe st (?v, sc, t)" "spl_safe st (?v\<lparr>nr_congested := n\<rparr>, sc, t)" if "mm_safe s t" for t n
    using that by (simp_all add: spl_safe_def st)
  note rel = spl_safe_trans [OF v(1) [OF o] spl_safe_release [OF env]]
    spl_safe_trans [OF v(1) [OF k] spl_safe_release [OF env]]
  show ?thesis
  proof (cases "PageDirty s p")
    case True
    have "(\<exists>m. spl_release env p m (?v, sc, snd ?o) = Some (label, st')) \<or>
        (\<exists>m. spl_release env p m (?v, sc, snd (trylock_page p (snd ?o))) = Some (label, st')) \<or>
        st' \<in> {(?v, sc, s), (?v, sc, ?i), (?v, sc, snd ?o), (?v, sc, snd (trylock_page p (snd ?o))),
                (?v\<lparr>nr_congested := nr_congested v + 1\<rparr>, sc, snd ?o)}"
      using r True unfolding st spl_dirty_def
      by (auto simp: split_beta Let_def split: if_splits pageout_t.splits)
    then show ?thesis
      using rel v [OF i] v [OF o] v [OF k] v(1) [OF mm_safe_refl] by blast
  next
    case False
    then show ?thesis
      using r spl_safe_release [OF env] unfolding st spl_dirty_def by (simp add: Let_def)
  qed
qed

lemma spl_safe_unmap:
  assumes env: "env_ok env" and r: "spl_unmap env priority p refs fs st = Some (label, st')"
  shows "spl_safe st st'"
proof -
  obtain v sc s where st: "st = (v, sc, s)" by (cases st)
  define anon where "anon = (PageAnon s p \<and> \<not> PageSwapCache s p)"
  define a where "a = (if anon then e_add_to_swap env p s else (True, s))"
  define m where "m = (if page_mapped (snd a) p \<and> page_mapping (snd a) p \<noteq> None
    then e_try_to_unmap env p (snd a) else (SWAP_SUCCESS, snd a))"
  have a: "mm_safe s (snd a)" unfolding a_def using env_okD(3) [OF env] by simp
  have "mm_safe (snd a) (snd m)" unfolding m_def using env_okD(2) [OF env] by simp
  note m = mm_safe_trans [OF a this]
  have v: "spl_safe st (v, sc, x)" if "mm_safe s x" for x
    using that by (simp add: spl_safe_def st)
  note d = spl_safe_trans [OF v [OF m] spl_safe_dirty [OF env]]
  have "spl_unmap env priority p refs fs st =
      (if anon \<and> \<not> has_bits (sc_gfp_mask sc) GFP_IO then Some (L_keep_locked, v, sc, s)
       else if \<not> fst a then Some (L_activate_locked, v, sc, snd a)
       else case fst m of
           SWAP_FAIL \<Rightarrow> Some (L_activate_locked, v, sc, snd m)
         | SWAP_AGAIN \<Rightarrow> Some (L_keep_locked, v, sc, snd m)
         | SWAP_MLOCK \<Rightarrow> Some (L_cull_mlocked, v, sc, snd m)
         | SWAP_SUCCESS \<Rightarrow> spl_dirty env priority p refs (fs \<or> anon) (page_mapping (snd a) p) (v, sc, snd m))"
    by (simp only: st spl_unmap_def Let_def split_beta fst_conv snd_conv a_def m_def anon_def)
  with r show ?thesis
    using d v [OF a] v [OF m] v [OF mm_safe_refl]
    by (cases "fst m"; simp split: if_splits; blast)
qed

lemma spl_safe_references:
  assumes env: "env_ok env" and r: "spl_references env priority p st = Some (label, st')"
  shows "spl_safe st st'"
proof -
  obtain v sc s where st: "st = (v, sc, s)" by (cases st)
  define v1 where "v1 = (if PageWriteback s p then v\<lparr>nr_writeback := nr_writeback v + 1\<rparr> else v)"
  define t where "t = (if PageWriteback s p then e_wait_on_page_writeback env p s else s)"
  let ?c = "snd (page_check_references env sc p t)"
  have "mm_safe s t" unfolding t_def using env_okD(9) [OF env] by simp
  note c = mm_safe_trans [OF this mm_safe_check_references [OF env]]
  have v: "spl_safe st (v1, sc, x)" if "mm_safe s x" for x
    using that by (simp add: spl_safe_def st v1_def)
  note d = spl_safe_trans [OF v [OF c] spl_safe_unmap [OF env]]
  have "st' \<in> {(v1, sc, unlock_page p s), (v1, sc, ?c)} \<or>
      (\<exists>b refs. spl_unmap env priority p refs b (v1, sc, ?c) = Some (label, st'))"
    using r unfolding st spl_references_def
    by (auto simp: split_beta Let_def t_def v1_def split: if_splits page_references.splits)
  then show ?thesis
    using d v [OF c] v [OF mm_safe_lock(2)] by blast
qed

lemma spl_safe_page:
  assumes env: "env_ok env" and r: "spl_page env priority p st = Some (label, st')"
  shows "spl_safe st st'"
proof -
  obtain v sc s where st: "st = (v, sc, s)" by (cases st)
  let ?t = "snd (trylock_page p s)"
  have v: "spl_safe st (v, c, ?t)" for c
    using mm_safe_lock(1) by (simp add: spl_safe_def st)
  have "(\<exists>c. st' = (v, c, ?t)) \<or> (\<exists>c. spl_references env priority p (v, c, ?t) = Some (label, st'))"
    using r unfolding st spl_page_def by (auto simp: split_beta Let_def split: if_splits)
  then show ?thesis
    using v spl_safe_trans [OF v spl_safe_references [OF env]] by blast
qed


text \<open>
  The invariant of the loop: the pages still to look at, those kept and those to be freed are
  distinct and isolated, come from the list the loop started with and stay in their zones \<open>Z\<close>.
\<close>

definition spl_inv :: "(nat \<Rightarrow> nat) \<Rightarrow> nat set \<Rightarrow> nat list \<Rightarrow> 'w spl_state \<Rightarrow> bool" where
  "spl_inv Z P ps st \<longleftrightarrow>
     (case st of (v, sc, s) \<Rightarrow>
        mm_inv s \<and> distinct (ps @ ret_pages v @ free_pages v) \<and>
        (\<forall>q. pg_zonenum (mem_map s q) = Z q) \<and>
        (\<forall>q \<in> set (ps @ ret_pages v @ free_pages v). q \<in> P \<and> isolated s q))"

lemma spl_inv_safe: "spl_inv Z P ps st \<Longrightarrow> spl_safe st st' \<Longrightarrow> spl_inv Z P ps st'"
  by (cases st; cases st') (auto simp: spl_inv_def spl_safe_def mm_safe_but_def)

lemma spl_inv_safe_but:
  assumes "spl_inv Z P (p # ps) (v, sc, s)" "mm_safe_but {p} s s'"
    "ret_pages v' = ret_pages v" "free_pages v' = free_pages v"
  shows "spl_inv Z P ps (v', sc', s')"
  using assms by (auto simp: spl_inv_def mm_safe_but_def)

lemma spl_inv_keep:
  assumes "spl_inv Z P (p # ps) (v, sc, s)" "mm_safe_but {p} s s'" "isolated s' p"
    "ret_pages v' = p # ret_pages v" "free_pages v' = free_pages v"
  shows "spl_inv Z P ps (v', sc', s')"
  using assms by (auto simp: spl_inv_def mm_safe_but_def)

lemma spl_inv_label:
  assumes env: "env_ok env" and inv: "spl_inv Z P (p # ps) st"
  shows "spl_inv Z P ps (spl_label_code env p label st)"
proof -
  obtain v sc s where st: "st = (v, sc, s)" by (cases st)
  have mm: "mm_inv s" and iso: "isolated s p" using inv by (simp_all add: spl_inv_def st)
  have unlock: "mm_safe_but {p} t (unlock_page p t)" for t :: "'a mm_state"
    by (rule mm_safe_any, rule mm_safe_lock)
  have iso_unlock: "isolated (unlock_page p t) p = isolated t p" for t :: "'a mm_state"
    by (simp add: unlock_page_def ClearPage_def isolated_def PageFlag_def) (simp add: upd_page_def)
  note keep = spl_inv_keep [OF inv [unfolded st]]
  show ?thesis
  proof (cases label)
    case L_free_it
    then show ?thesis using inv by (auto simp: spl_label_code_def st spl_inv_def)
  next
    case L_freed_elsewhere
    then show ?thesis using inv by (auto simp: spl_label_code_def st spl_inv_def)
  next
    case L_cull_mlocked
    let ?t = "if PageSwapCache s p then snd (e_try_to_free_swap env p s) else s"
    have "mm_safe s ?t" using env_okD(4) [OF env] by simp
    note t = mm_safe_trans [OF this mm_safe_lock(2) [of _ p]]
    have "isolated (unlock_page p ?t) p" by (rule mm_safe_isolated [OF t mm _ iso]) simp
    from mm_safe_trans [OF mm_safe_any [OF t] mm_safe_putback_lru_page [OF mm_safe_inv [OF t mm] this]]
    show ?thesis
      using spl_inv_safe_but [OF inv [unfolded st]] L_cull_mlocked
      by (simp add: spl_label_code_def st Let_def)
  next
    case L_activate_locked
    let ?t = "if PageSwapCache s p \<and> vm_swap_full s then snd (e_try_to_free_swap env p s) else s"
    have t: "mm_safe s ?t" using env_okD(4) [OF env] by simp
    have "isolated ?t p" by (rule mm_safe_isolated [OF t mm _ iso]) simp
    then have a: "mm_safe_but {p} ?t (SetPage PG_active p ?t)" "isolated (SetPage PG_active p ?t) p"
      using mm_safe_isolated_upd [where f = "set_flag PG_active", of ?t p]
      by (simp_all add: SetPage_def isolated_def PageFlag_def)
    from mm_safe_trans [OF mm_safe_trans [OF mm_safe_any [OF t] a(1)] unlock] a(2)
    show ?thesis
      using L_activate_locked keep
      by (simp add: spl_label_code_def st Let_def spl_keep_locked_def spl_keep_def
          spl_keep_lumpy_def iso_unlock)
  next
    case L_keep_locked
    then show ?thesis
      using keep [OF unlock] iso
      by (simp add: spl_label_code_def st spl_keep_locked_def spl_keep_def spl_keep_lumpy_def iso_unlock)
  qed (use keep [OF mm_safe_refl] iso
    in \<open>simp_all add: spl_label_code_def st spl_keep_def spl_keep_lumpy_def\<close>)
qed

lemma spl_inv_loop:
  assumes env: "env_ok env" and inv: "spl_inv Z P ps st" and r: "spl_loop env priority ps st = Some st'"
  shows "spl_inv Z P [] st'"
  using inv r
proof (induction ps arbitrary: st)
  case (Cons p ps)
  then obtain label st1 where p: "spl_page env priority p st = Some (label, st1)"
    and l: "spl_loop env priority ps (spl_label_code env p label st1) = Some st'"
    by (auto split: option.splits)
  have "spl_inv Z P (p # ps) st1"
    by (rule spl_inv_safe [OF Cons.prems(1) spl_safe_page [OF env p]])
  from Cons.IH [OF spl_inv_label [OF env this] l] show ?case .
qed simp

lemma mm_safe_scheme_flag: "mm_safe s (if b then zone_set_flag z f s else s)"
  by auto

lemma shrink_page_list_inv:
  assumes env: "env_ok env" and inv: "mm_inv s" and d: "distinct page_list"
    and iso: "\<And>p. p \<in> set page_list \<Longrightarrow> isolated s p"
    and r: "shrink_page_list env page_list z sc priority nd nw s = Some res"
  shows "mm_inv (spl_mm res)" "distinct (spl_page_list res)"
    "set (spl_page_list res) \<subseteq> set page_list" "\<And>p. p \<in> set (spl_page_list res) \<Longrightarrow> isolated (spl_mm res) p"
    "\<And>p. pg_zonenum (mem_map (spl_mm res) p) = pg_zonenum (mem_map s p)"
proof -
  let ?Z = "\<lambda>q. pg_zonenum (mem_map s q)"
  obtain v sc' s' where l: "spl_loop env priority (rev page_list) (spl_init, sc, s) = Some (v, sc', s')"
    using r by (auto simp: shrink_page_list_def split: option.splits)
  have "spl_inv ?Z (set page_list) (rev page_list) (spl_init, sc, s)"
    using inv d iso by (simp add: spl_inv_def spl_init_def)
  then have v: "spl_inv ?Z (set page_list) [] (v, sc', s')" by (rule spl_inv_loop [OF env _ l])
  let ?t = "if nr_dirty v \<noteq> 0 \<and> nr_dirty v = nr_congested v then zone_set_flag z ZONE_CONGESTED s' else s'"
  have res: "spl_page_list res = ret_pages v"
    "spl_mm res = count_vm_events PGACTIVATE (pgactivate v) (log_free_hot_cold_page_list (free_pages v) True ?t)"
    using r l by (auto simp: shrink_page_list_def Let_def)
  have safe: "mm_safe s' (spl_mm res)"
    unfolding res
    by (rule mm_safe_trans [OF mm_safe_trans [OF mm_safe_scheme_flag mm_safe_release(3)] mm_safe_release(4)])
  have mm: "mm_inv s'" using v by (simp add: spl_inv_def)
  show "mm_inv (spl_mm res)" by (rule mm_safe_inv [OF safe mm])
  show "distinct (spl_page_list res)" "set (spl_page_list res) \<subseteq> set page_list"
    using v by (auto simp: spl_inv_def res)
  show "isolated (spl_mm res) p" if "p \<in> set (spl_page_list res)" for p
    by (rule mm_safe_isolated [OF safe mm]) (use v that in \<open>auto simp: spl_inv_def res\<close>)
  show "pg_zonenum (mem_map (spl_mm res) p) = pg_zonenum (mem_map s p)" for p
    using mm_safe_zonenum [OF safe mm] v by (simp add: spl_inv_def)
qed

end
