(* ===== verification/Vmscan_Scan.thy ===== *)
theory Vmscan_Scan
  imports Vmscan_Inv
begin

text \<open>
  The LRU invariant through the scans of the active and the inactive list: isolation never meets a
  page that is not on the list it came from (the \<^verbatim>\<open>BUG\<close> of \<^verbatim>\<open>isolate_lru_pages\<close> is unreachable), the
  counters that lag behind during a batch are corrected exactly, and every page that is not freed is
  put back where its flags say.
\<close>

section \<open>Isolation\<close>

text \<open>
  While a batch is isolated from zone \<open>z\<close>, the counter of each list is ahead of the list by the number
  of pages taken from it.
\<close>

definition debt :: "'w mm_state \<Rightarrow> nat \<Rightarrow> nat list \<Rightarrow> nat \<Rightarrow> lru_list \<Rightarrow> ulong" where
  "debt s z dst z' l =
     (if z' = z then of_nat (length (filter (\<lambda>p. page_lru (mem_map s p) = l) dst)) else 0)"

definition iso_pages :: "'w mm_state \<Rightarrow> nat \<Rightarrow> nat list \<Rightarrow> bool" where
  "iso_pages s z dst \<longleftrightarrow>
     distinct dst \<and>
     (\<forall>p \<in> set dst. isolated s p \<and> pg_zonenum (mem_map s p) = z \<and> \<not> PageUnevictable s p)"

definition all_lru_mode :: "ulong \<Rightarrow> bool" where
  "all_lru_mode mode \<longleftrightarrow>
     mode AND (ISOLATE_ACTIVE OR ISOLATE_INACTIVE) = ISOLATE_ACTIVE OR ISOLATE_INACTIVE"

definition iso_inv :: "nat \<Rightarrow> lru_list \<Rightarrow> ulong \<Rightarrow> iso_locals \<times> 'w mm_state \<Rightarrow> bool" where
  "iso_inv z lru mode vs \<longleftrightarrow>
     (case vs of (v, s) \<Rightarrow>
        pvecs_ok s \<and> lru_inv_upto (debt s z (iso_dst v)) s \<and> iso_pages s z (iso_dst v) \<and>
        iso_taken v = of_nat (length (iso_dst v)) \<and>
        (\<not> all_lru_mode mode \<longrightarrow> (\<forall>p \<in> set (iso_dst v). page_lru (mem_map s p) = lru)))"

text \<open>A successful isolation.\<close>

definition iso_page :: "page \<Rightarrow> page" where
  "iso_page pg = clear_flag PG_lru (pg\<lparr>pg_count := pg_count pg + 1\<rparr>)"

lemma raw_isolate_cases:
  "raw_isolate_lru_page p mode fl s \<in> {(EINVAL, s), (EBUSY, s), (Isolated, upd_page p iso_page s)}"
  by (simp add: raw_isolate_lru_page_def get_page_unless_zero_def Let_def ClearPage_def add_count_def
      iso_page_def [abs_def])

lemma raw_isolate_Isolated:
  assumes "raw_isolate_lru_page p mode fl s = (Isolated, s')"
  shows "PageLRU s p" "\<not> PageUnevictable s p" "s' = upd_page p iso_page s"
    "\<not> all_lru_mode mode \<Longrightarrow> PageActive s p = has_bits mode ISOLATE_ACTIVE"
    "\<not> all_lru_mode mode \<Longrightarrow> page_is_file_cache (mem_map s p) = fl"
proof -
  show "s' = upd_page p iso_page s" using raw_isolate_cases [of p mode fl s] assms by simp
qed (use assms in \<open>auto simp: raw_isolate_lru_page_def all_lru_mode_def Let_def split: if_splits\<close>)

lemma raw_isolate_not_EINVAL:
  assumes "raw_isolate_lru_page p mode fl s = (r, s')" "PageLRU s p" "\<not> PageUnevictable s p"
    "all_lru_mode mode \<or> PageActive s p = has_bits mode ISOLATE_ACTIVE"
    "page_is_file_cache (mem_map s p) = fl"
  shows "r \<noteq> EINVAL"
proof -
  have "fst (raw_isolate_lru_page p mode fl s) \<noteq> EINVAL"
    using assms(2-5) by (simp add: raw_isolate_lru_page_def all_lru_mode_def Let_def split_beta)
  then show ?thesis using assms(1) by simp
qed

lemma iso_page_fields [simp]:
  "page_lru (iso_page pg) = page_lru pg" "pg_zonenum (iso_page pg) = pg_zonenum pg"
  "pg_flags (iso_page pg) = (pg_flags pg)(PG_lru := False)"
  by (simp_all add: iso_page_def page_lru_def page_lru_base_type_def page_is_file_cache_def)

lemma lru_unlink_pvecs [simp]:
  "lru_add_pvecs (lru_unlink p s) = lru_add_pvecs s"
  "lru_rotate_pvecs (lru_unlink p s) = lru_rotate_pvecs s"
  "lru_deactivate_pvecs (lru_unlink p s) = lru_deactivate_pvecs s"
  "lru_add_pvecs (upd_page p f s) = lru_add_pvecs s"
  "lru_rotate_pvecs (upd_page p f s) = lru_rotate_pvecs s"
  "lru_deactivate_pvecs (upd_page p f s) = lru_deactivate_pvecs s"
  by (simp_all add: lru_unlink_def upd_page_def)

lemma iso_inv_take:
  assumes inv: "iso_inv z lru mode (v, s)" and p: "PageLRU s p" "\<not> PageUnevictable s p"
    and z: "pg_zonenum (mem_map s p) = z"
    and l: "\<not> all_lru_mode mode \<Longrightarrow> page_lru (mem_map s p) = lru"
  shows "iso_inv z lru mode ((iso_take p v)\<lparr>iso_scan := n\<rparr>, lru_unlink p (upd_page p iso_page s))"
proof -
  let ?s = "lru_unlink p (upd_page p iso_page s)" and ?l = "page_lru (mem_map s p)"
  have pv: "pvecs_ok s" and lru: "lru_inv_upto (debt s z (iso_dst v)) s"
    and dst: "iso_pages s z (iso_dst v)" using inv by (simp_all add: iso_inv_def)
  have place: "lru_place (mem_map s p) = Some (z, ?l)"
    using p z by (simp add: lru_place_def PageFlag_def)
  have new: "p \<notin> set (iso_dst v)" "\<And>l. p \<notin> set (add_pvec s l)"
    using dst pv p by (auto simp: iso_pages_def isolated_def pvecs_ok_def pvec_page_ok_def)
  have off: "lru_place (iso_page (mem_map s p)) = None" by (simp add: lru_place_def)
  have "filter (\<lambda>q. page_lru (mem_map ?s q) = l') (iso_dst v) =
      filter (\<lambda>q. page_lru (mem_map s q) = l') (iso_dst v)" for l'
    using new(1) by (intro filter_cong) auto
  then have "debt ?s z (p # iso_dst v) = add2 (debt s z (iso_dst v)) z ?l 1"
    by (auto simp: debt_def fun_eq_iff)
  then have 1: "lru_inv_upto (debt ?s z (p # iso_dst v)) ?s"
    using lru_inv_unlink [where f = iso_page, OF lru place off] by simp
  have 2: "pvecs_ok ?s"
    using pv new(2)
    by (auto simp: pvecs_ok_def pvec_page_ok_def PageFlag_def page_is_file_cache_def)
  have 3: "iso_pages ?s z (p # iso_dst v)"
    using dst new z p by (auto simp: iso_pages_def isolated_def PageFlag_def)
  show ?thesis
    using 1 2 3 inv l new(1) by (auto simp: iso_inv_def iso_take_def add.commute)
qed

lemma debt_cong: "mem_map s' = mem_map s \<Longrightarrow> debt s' = debt s"
  by (simp add: debt_def fun_eq_iff)

lemma debt_Nil [simp]: "debt s z [] = no_debt"
  by (simp add: debt_def fun_eq_iff)

lemma iso_inv_relisted:
  assumes "iso_inv z lru mode (v, s)" "mem_map s' = mem_map s" "pvecs_kept s s'"
    "\<And>D. lru_inv_upto D s \<Longrightarrow> lru_inv_upto D s'"
  shows "iso_inv z lru mode (v, s')"
proof -
  show ?thesis
    using assms debt_cong [OF assms(2)]
    by (simp add: iso_inv_def iso_pages_def isolated_def pvecs_ok_def pvec_page_ok_def PageFlag_def
        pvecs_kept_def)
qed

lemma iso_inv_cong_scan: "iso_inv z lru mode (v\<lparr>iso_scan := n\<rparr>, s) = iso_inv z lru mode (v, s)"
  by (simp add: iso_inv_def)

lemma iso_lru_simps [simp]:
  "iso_lru True True = LRU_ACTIVE_FILE" "iso_lru True False = LRU_ACTIVE_ANON"
  "iso_lru False True = LRU_INACTIVE_FILE" "iso_lru False False = LRU_INACTIVE_ANON"
  by (simp_all add: iso_lru_def lru_of_nat_def LRU_BASE_def LRU_ACTIVE_def LRU_FILE_def)

lemma page_lru_iso:
  assumes "\<not> pg_flags pg PG_unevictable"
  shows "page_lru pg = iso_lru (pg_flags pg PG_active) (page_is_file_cache pg)"
  using assms by (simp add: page_lru_def page_lru_base_type_def)

lemma iso_lru_inj: "iso_lru a f = iso_lru a' f' \<longleftrightarrow> a = a' \<and> f = f'"
  by (cases a; cases f; cases a'; cases f'; simp)

lemma iso_lru_evictable [simp]: "iso_lru a f \<noteq> LRU_UNEVICTABLE"
  by (cases a; cases f; simp)

lemma iso_inv_isolate:
  assumes inv: "iso_inv z (iso_lru a fl) mode (v, s)"
    and m: "all_lru_mode mode \<or> has_bits mode ISOLATE_ACTIVE = a"
    and r: "raw_isolate_lru_page p mode fl s = (Isolated, s')" and z: "pg_zonenum (mem_map s p) = z"
  shows "iso_inv z (iso_lru a fl) mode ((iso_take p v)\<lparr>iso_scan := n\<rparr>, lru_unlink p s')"
proof -
  note i = raw_isolate_Isolated [OF r]
  show ?thesis
    unfolding i(3) by (rule iso_inv_take [OF inv i(1,2) z])
      (use i(2,4,5) m in \<open>simp add: page_lru_iso PageFlag_def\<close>)
qed

lemma iso_inv_lumpy_loop:
  assumes "iso_inv z (iso_lru a fl) mode vs" "all_lru_mode mode \<or> has_bits mode ISOLATE_ACTIVE = a"
  shows "iso_inv z (iso_lru a fl) mode (lumpy_loop pfn e p z mode fl vs)"
  using assms
proof (induction pfn e p z mode fl vs rule: lumpy_loop.induct)
  case (1 pfn e p z mode fl v s)
  obtain r s' where r: "raw_isolate_lru_page pfn mode fl s = (r, s')" by (rule prod.exhaust)
  have same: "r \<noteq> Isolated \<Longrightarrow> s' = s" using raw_isolate_cases [of pfn mode fl s] r by auto
  have take: "iso_inv z (iso_lru a fl) mode ((iso_take pfn v)\<lparr>iso_scan := iso_scan v + 1\<rparr>, lru_unlink pfn s')"
    if "r = Isolated" "page_zone s pfn = z"
    using iso_inv_isolate [OF 1(4,5)] r that by (simp add: page_zone_def)
  show ?case
    using 1 r same take by (subst lumpy_loop.simps) (auto simp: Let_def)
qed

lemma iso_inv_lumpy_block:
  assumes "iso_inv z (iso_lru a fl) mode (v, s)" "all_lru_mode mode \<or> has_bits mode ISOLATE_ACTIVE = a"
    "pg_zonenum (mem_map s p) = z"
  shows "iso_inv z (iso_lru a fl) mode (lumpy_block p sc mode fl (v, s))"
  using assms by (simp add: lumpy_block_def Let_def page_zone_def iso_inv_lumpy_loop)

text \<open>The loop never stops at the \<^verbatim>\<open>BUG\<close>, and keeps the invariant.\<close>

lemma isolate_loop_inv:
  assumes "iso_inv z lru mode vs" "lru = iso_lru a fl"
    "all_lru_mode mode \<or> has_bits mode ISOLATE_ACTIVE = a"
  shows "\<exists>vs'. isolate_loop n z lru sc mode fl vs = Some vs' \<and> iso_inv z lru mode vs'"
  using assms
proof (induction n z lru sc mode fl vs rule: isolate_loop.induct)
  case (1 n z lru sc mode fl v s)
  show ?case
  proof (cases "iso_scan v < n \<and> zone_lists s z lru \<noteq> []")
    case True
    let ?p = "last (zone_lists s z lru)"
    obtain r s' where r: "raw_isolate_lru_page ?p mode fl s = (r, s')" by (rule prod.exhaust)
    have inv: "lru_inv_upto (debt s z (iso_dst v)) s" using "1.prems"(1) by (simp add: iso_inv_def)
    have place: "lru_place (mem_map s ?p) = Some (z, lru)"
      using lru_inv_memD [OF inv, of ?p z lru] True by simp
    then have p: "PageLRU s ?p" "pg_zonenum (mem_map s ?p) = z" "page_lru (mem_map s ?p) = lru"
      by (auto simp: lru_place_def PageFlag_def split: if_splits)
    have flags: "\<not> PageUnevictable s ?p" "PageActive s ?p = a" "page_is_file_cache (mem_map s ?p) = fl"
    proof -
      show u: "\<not> PageUnevictable s ?p"
        using p(3) "1.prems"(2) iso_lru_evictable [of a fl] by (metis PageFlag_def page_lru_def)
      then show "PageActive s ?p = a" "page_is_file_cache (mem_map s ?p) = fl"
        using page_lru_iso [of "mem_map s ?p"] p(3) "1.prems"(2)
        by (simp_all add: iso_lru_inj PageFlag_def)
    qed
    have "r \<noteq> EINVAL"
      by (rule raw_isolate_not_EINVAL [OF r p(1)]) (use flags "1.prems"(3) in auto)
    then consider "r = Isolated" | "r = EBUSY" "s' = s"
      using raw_isolate_cases [of ?p mode fl s] r by auto
    then show ?thesis
    proof cases
      case 1
      have "iso_inv z lru mode (iso_take ?p v, lru_unlink ?p s')"
        using iso_inv_isolate [OF "1.prems"(1) [unfolded "1.prems"(2)] "1.prems"(3) _ p(2), of s'
            "iso_scan (iso_take ?p v)"] r 1 "1.prems"(2) by simp
      moreover have "pg_zonenum (mem_map (lru_unlink ?p s') ?p) = z"
        using raw_isolate_Isolated(3) [OF r [unfolded 1]] p(2) by simp
      ultimately have "iso_inv z lru mode (lumpy_block ?p sc mode fl (iso_take ?p v, lru_unlink ?p s'))"
        unfolding "1.prems"(2) using "1.prems"(3) by (intro iso_inv_lumpy_block) simp_all
      moreover obtain v2 s2 where b: "lumpy_block ?p sc mode fl (iso_take ?p v, lru_unlink ?p s') = (v2, s2)"
        by (rule prod.exhaust)
      ultimately have "iso_inv z lru mode (v2\<lparr>iso_scan := iso_scan v2 + 1\<rparr>, s2)"
        by (simp add: iso_inv_cong_scan)
      from "1.IH"(1) [OF True refl r [symmetric] refl 1 b [symmetric] refl this "1.prems"(2,3)]
      show ?thesis
        using True r 1 b by (subst isolate_loop.simps) (simp add: Let_def)
    next
      case 2
      have "iso_inv z lru mode (v, lru_move z ?p lru s)"
        by (rule iso_inv_relisted [OF "1.prems"(1)]) (simp_all add: lru_inv_move(1) place)
      then have "iso_inv z lru mode (v\<lparr>iso_scan := iso_scan v + 1\<rparr>, lru_move z ?p lru s')"
        by (simp add: iso_inv_cong_scan 2(2))
      from "1.IH"(2) [OF True refl r [symmetric] refl 2(1) this "1.prems"(2,3)]
      show ?thesis
        using True r 2 by (subst isolate_loop.simps) (simp add: Let_def)
    qed
  next
    case False
    show ?thesis
      using "1.prems"(1) by (subst isolate_loop.simps, subst if_not_P [OF False]) simp
  qed
qed


text \<open>
  How many pages a batch can have: no more than were looked at, which is at most one block of
  \<open>2 ^ order\<close> pages more than asked for.
\<close>

lemma lumpy_loop_cases:
  obtains "lumpy_loop pfn e p z mode fl (v, s) = (v, s)"
  | v' s' where "pfn < e" "lumpy_loop pfn e p z mode fl (v, s) = lumpy_loop (Suc pfn) e p z mode fl (v', s')"
    "v' = v \<or> v' = (iso_take pfn v)\<lparr>iso_scan := iso_scan v + 1\<rparr>"
proof -
  obtain r s' where r: "raw_isolate_lru_page pfn mode fl s = (r, s')" by (rule prod.exhaust)
  have same: "r \<noteq> Isolated \<Longrightarrow> s' = s" using raw_isolate_cases [of pfn mode fl s] r by auto
  show ?thesis
  proof (cases "lumpy_loop pfn e p z mode fl (v, s) = (v, s)")
    case False
    have "pfn < e \<and> (lumpy_loop pfn e p z mode fl (v, s) = lumpy_loop (Suc pfn) e p z mode fl (v, s) \<or>
      lumpy_loop pfn e p z mode fl (v, s) = lumpy_loop (Suc pfn) e p z mode fl
        ((iso_take pfn v)\<lparr>iso_scan := iso_scan v + 1\<rparr>, lru_unlink pfn s'))"
      using False same unfolding lumpy_loop.simps [of pfn e p z mode fl v s] r Let_def prod.case
      by (auto split: if_splits)
    then show ?thesis using that(2) by blast
  qed (rule that(1))
qed

lemma lumpy_loop_len:
  "length (iso_dst (fst (lumpy_loop pfn e p z mode fl (v, s)))) + iso_scan v =
     length (iso_dst v) + iso_scan (fst (lumpy_loop pfn e p z mode fl (v, s))) \<and>
   iso_scan (fst (lumpy_loop pfn e p z mode fl (v, s))) \<le> iso_scan v + (e - pfn)"
proof (induction "e - pfn" arbitrary: pfn v s)
  case 0
  then show ?case by (simp add: lumpy_loop.simps [of pfn])
next
  case (Suc n)
  show ?case
  proof (rule lumpy_loop_cases [of pfn e p z mode fl v s])
    fix v' s' assume v': "pfn < e"
      "lumpy_loop pfn e p z mode fl (v, s) = lumpy_loop (Suc pfn) e p z mode fl (v', s')"
      "v' = v \<or> v' = (iso_take pfn v)\<lparr>iso_scan := iso_scan v + 1\<rparr>"
    have "n = e - Suc pfn" using Suc(2) by simp
    from Suc(1) [OF this, of v' s'] show ?thesis
      unfolding v'(2) using v'(1,3) by (auto simp: iso_take_def)
  qed simp
qed

lemma lumpy_block_len:
  "length (iso_dst (fst (lumpy_block p sc mode fl vs))) + iso_scan (fst vs) =
     length (iso_dst (fst vs)) + iso_scan (fst (lumpy_block p sc mode fl vs))"
  "iso_scan (fst (lumpy_block p sc mode fl vs)) \<le> iso_scan (fst vs) + 2 ^ nat (sc_order sc)"
proof -
  let ?size = "2 ^ nat (sc_order sc)" and ?z = "page_zone (snd vs) p"
  let ?pfn = "p div ?size * ?size"
  show "length (iso_dst (fst (lumpy_block p sc mode fl vs))) + iso_scan (fst vs) =
     length (iso_dst (fst vs)) + iso_scan (fst (lumpy_block p sc mode fl vs))"
    using lumpy_loop_len [of _ _ p ?z mode fl "fst vs" "snd vs"] by (simp add: lumpy_block_def Let_def)
  show "iso_scan (fst (lumpy_block p sc mode fl vs)) \<le> iso_scan (fst vs) + ?size"
    using lumpy_loop_len [of ?pfn "?pfn + ?size" p ?z mode fl "fst vs" "snd vs"]
    by (simp add: lumpy_block_def Let_def)
qed

lemma isolate_loop_len:
  assumes "isolate_loop n z lru sc mode fl vs = Some vs'"
  shows "length (iso_dst (fst vs')) + iso_scan (fst vs) \<le> length (iso_dst (fst vs)) + iso_scan (fst vs')
    \<and> iso_scan (fst vs') \<le> max (iso_scan (fst vs)) (n + 2 ^ nat (sc_order sc))"
  using assms
proof (induction n z lru sc mode fl vs rule: isolate_loop.induct)
  case (1 n z lru sc mode fl v s)
  show ?case
  proof (cases "iso_scan v < n \<and> zone_lists s z lru \<noteq> []")
    case True
    let ?p = "last (zone_lists s z lru)"
    obtain r s' where r: "raw_isolate_lru_page ?p mode fl s = (r, s')" by (rule prod.exhaust)
    note unf = "1.prems" [unfolded isolate_loop.simps [of n z lru sc mode fl v s] if_P [OF True]]
    show ?thesis
    proof (cases r)
      case Isolated
      obtain v2 s2 where b: "lumpy_block ?p sc mode fl (iso_take ?p v, lru_unlink ?p s') = (v2, s2)"
        by (rule prod.exhaust)
      have rec: "isolate_loop n z lru sc mode fl (v2\<lparr>iso_scan := iso_scan v2 + 1\<rparr>, s2) = Some vs'"
        using unf r Isolated b by (simp add: Let_def)
      note IH = "1.IH"(1) [OF True refl r [symmetric] refl Isolated b [symmetric] refl rec]
      show ?thesis
        using IH lumpy_block_len [of ?p sc mode fl "(iso_take ?p v, lru_unlink ?p s')", unfolded b] True
        by (auto simp: iso_take_def max_def split: if_splits)
    next
      case EBUSY
      have rec: "isolate_loop n z lru sc mode fl
          (v\<lparr>iso_scan := iso_scan v + 1\<rparr>, lru_move z ?p lru s') = Some vs'"
        using unf r EBUSY by (simp add: Let_def)
      note IH = "1.IH"(2) [OF True refl r [symmetric] refl EBUSY rec]
      show ?thesis using IH True by simp
    next
      case EINVAL
      then show ?thesis using unf r by (simp add: Let_def)
    qed
  next
    case False
    show ?thesis
      using "1.prems" [unfolded isolate_loop.simps [of n z lru sc mode fl v s] if_not_P [OF False]]
      by auto
  qed
qed

lemma isolate_lru_pages_inv:
  assumes inv: "mm_inv s" and m: "all_lru_mode mode \<or> has_bits mode ISOLATE_ACTIVE = a"
  shows "\<exists>dst scan s'.
    isolate_lru_pages n z sc mode a fl s = Some (dst, of_nat (length dst), scan, s') \<and>
    pvecs_ok s' \<and> lru_inv_upto (debt s' z dst) s' \<and> iso_pages s' z dst \<and>
    (\<not> all_lru_mode mode \<longrightarrow> (\<forall>p \<in> set dst. page_lru (mem_map s' p) = iso_lru a fl)) \<and>
    length dst \<le> unat n + 2 ^ nat (sc_order sc)"
proof -
  let ?v = "\<lparr>iso_dst = [], iso_taken = 0, iso_scan = 0\<rparr>"
  have "iso_inv z (iso_lru a fl) mode (?v, s)"
    using inv by (simp add: iso_inv_def iso_pages_def mm_inv_def)
  from isolate_loop_inv [OF this refl m, of "unat n" sc]
  obtain v' s' where "isolate_loop (unat n) z (iso_lru a fl) sc mode fl (?v, s) = Some (v', s')"
    "iso_inv z (iso_lru a fl) mode (v', s')"
    by auto
  then show ?thesis
    using isolate_loop_len [of "unat n" z "iso_lru a fl" sc mode fl "(?v, s)" "(v', s')"]
    by (simp add: isolate_lru_pages_def iso_inv_def)
qed


section \<open>Putting pages back\<close>

lemma putback_free_eq:
  "putback_free z p lru fs s =
     (let t = add_count (-1) p s
      in if pg_count (mem_map s p) = 1
         then let u = del_page_from_lru_list z p lru
                        (upd_page p (\<lambda>pg. clear_flag PG_active (clear_flag PG_lru pg)) t)
              in if PageCompound u p then (fs, kcall (Compound_page_dtor p) u) else (p # fs, u)
         else (fs, t))"
  by (simp add: putback_free_def put_page_testzero_def Let_def ClearPage_def add_count_def)

lemma lru_place_count [simp]: "lru_place (pg\<lparr>pg_count := n\<rparr>) = lru_place pg"
  by (simp add: lru_place_defs)

text \<open>A page on list \<open>lru\<close> of its zone loses one reference, and its place if that was the last.\<close>

lemma lru_safe_putback_free:
  assumes place: "lru_place (mem_map s p) = Some (z, lru)"
  shows "lru_safe s (snd (putback_free z p lru fs s))"
proof -
  let ?t = "add_count (-1) p s"
  let ?f = "\<lambda>pg. clear_flag PG_active (clear_flag PG_lru pg)"
  have t: "lru_safe s ?t" by (rule lru_safe_add_count)
  have pt: "lru_place (mem_map ?t p) = Some (z, lru)"
    using place by (simp add: add_count_def)
  have "PageLRU ?t p" using pt by (simp add: lru_place_def PageFlag_def split: if_splits)
  moreover have "lru_place (?f (mem_map ?t p)) = None" by (simp add: lru_place_def)
  ultimately have u: "lru_safe ?t (del_page_from_lru_list z p lru (upd_page p ?f ?t))"
    using lru_inv_del [where f = ?f, OF _ pt] by (intro lru_safe_on_lru) auto
  note u' = lru_safe_trans [OF t u]
  show ?thesis
    using t u' lru_safe_trans [OF u' lru_safe_bookkeeping(2)]
    by (simp add: putback_free_eq Let_def)
qed

lemma lru_safe_link:
  assumes iso: "isolated s p" and place: "lru_place (set_flag PG_lru (mem_map s p)) = Some (z, l)"
  shows "mm_safe_but {p} s (add_page_to_lru_list z p l (SetPage PG_lru p s))"
proof (rule mm_safe_lru)
  have "lru_place (mem_map s p) = None"
    using iso by (simp add: lru_place_def isolated_def PageFlag_def)
  from lru_inv_add [where f = "set_flag PG_lru", OF _ this place]
  show "lru_safe_but {p} s (add_page_to_lru_list z p l (SetPage PG_lru p s))"
    by (simp add: lru_safe_but_def SetPage_def)
qed (use iso in simp)

lemma mm_safe_putback_loop:
  assumes "mm_inv s" "distinct ps" "\<And>p. p \<in> set ps \<Longrightarrow> isolated s p \<and> pg_zonenum (mem_map s p) = z"
  shows "mm_inv (snd (putback_loop z ps (fs, s)))"
  using assms
proof (induction ps arbitrary: fs s)
  case (Cons p ps)
  have iso: "isolated s p" and z: "pg_zonenum (mem_map s p) = z" using Cons.prems(3) by simp_all
  have step: "mm_inv (snd (putback_loop z ps (fs', s')))" if safe: "mm_safe_but {p} s s'" for fs' s'
  proof (rule Cons.IH [OF mm_safe_inv [OF safe Cons.prems(1)]])
    show "isolated s' q \<and> pg_zonenum (mem_map s' q) = z" if "q \<in> set ps" for q
      using that Cons.prems mm_safe_isolated [OF safe, of q] mm_safe_zonenum [OF safe, of q] by auto
  qed (use Cons.prems in simp)
  show ?case
  proof (cases "page_evictable s p")
    case False
    then show ?thesis
      using step [OF mm_safe_putback_lru_page [OF Cons.prems(1) iso]] by simp
  next
    case True
    let ?l = "page_lru (set_flag PG_lru (mem_map s p))"
    let ?t = "add_page_to_lru_list z p ?l (SetPage PG_lru p s)"
    let ?u = "if is_active_lru ?l then add_rotated z (is_file_lru ?l) 1 ?t else ?t"
    have place: "lru_place (set_flag PG_lru (mem_map s p)) = Some (z, ?l)"
      using z by (simp add: lru_place_def)
    have t: "mm_safe_but {p} s ?t" by (rule lru_safe_link [OF iso place])
    have "mm_safe ?t ?u" by auto
    note u = mm_safe_trans [OF t mm_safe_any [OF this]]
    have "lru_place (mem_map ?u p) = Some (z, ?l)"
      using place by (simp add: SetPage_def add_rotated_def)
    from mm_safe_trans [OF u mm_safe_any [OF mm_safe_lru_safe [OF lru_safe_putback_free [OF this, of fs]]]]
    have "mm_safe_but {p} s (snd (putback_free z p ?l fs ?u))" .
    from step [OF this, of "fst (putback_free z p ?l fs ?u)"]
    have "mm_inv (snd (putback_loop z ps (putback_free z p ?l fs ?u)))" by (simp only: prod.collapse)
    moreover have "mem_map (SetPage PG_lru p s) p = set_flag PG_lru (mem_map s p)"
      by (simp add: SetPage_def)
    ultimately show ?thesis
      using True by (cases "is_active_lru ?l") (simp_all add: Let_def)
  qed
qed simp



section \<open>The inactive list\<close>

text \<open>
  Counting the isolated pages: the counts are those of the lists the pages came from, and clearing
  \<^verbatim>\<open>PG_active\<close> does not touch the LRU.
\<close>

lemma count_isolated_spec:
  assumes "iso_pages s z ps" and "pvecs_ok s" and "lru_inv_upto D s"
    and "count_isolated ps (count, n, s) = (count', n', s')"
  shows "count' l = count l + of_nat (length (filter (\<lambda>p. page_lru (mem_map s p) = l) ps))"
    "iso_pages s' z ps" "pvecs_ok s'" "lru_inv_upto D s'"
proof -
  have "count' l = count l + of_nat (length (filter (\<lambda>p. page_lru (mem_map s p) = l) ps)) \<and>
    (\<forall>z' qs. iso_pages s z' qs \<longrightarrow> iso_pages s' z' qs) \<and> pvecs_ok s' \<and> lru_inv_upto D s'"
    using assms
  proof (induction ps arbitrary: count n s)
    case (Cons p ps)
    let ?t = "if PageActive s p then ClearPage PG_active p s else s"
    let ?l = "page_lru (mem_map s p)"
    have p: "isolated s p" "\<not> pg_flags (mem_map s p) PG_unevictable" "p \<notin> set ps"
      using Cons.prems(1) by (simp_all add: iso_pages_def PageFlag_def)
    have l: "lru_plus (page_lru_base_type (mem_map s p)) (if PageActive s p then LRU_ACTIVE else 0) = ?l"
      using p(2) by (simp add: page_lru_def PageFlag_def)
    have iso: "iso_pages ?t z' qs" if "iso_pages s z' qs" for z' qs
      using that by (auto simp: iso_pages_def isolated_def ClearPage_def PageFlag_def)
    have "iso_pages s z ps" using Cons.prems(1) by (simp add: iso_pages_def)
    then have 1: "iso_pages ?t z ps" by (rule iso)
    have safe: "lru_safe_but {p} s ?t"
      using lru_safe_but_off [of s p "clear_flag PG_active"] p(1)
      by (simp add: ClearPage_def isolated_def PageFlag_def)
    have 2: "pvecs_ok ?t"
      by (rule pvecs_ok_safe [OF safe Cons.prems(2)]) (use p(1) in \<open>simp add: isolated_def\<close>)
    have 3: "lru_inv_upto D ?t" by (rule lru_safe_inv [OF safe Cons.prems(3)])
    have 4: "count_isolated ps (count(?l := count ?l + 1), if PageActive s p then n + 1 else n, ?t) =
        (count', n', s')"
      using Cons.prems(4) by (simp add: Let_def l)
    have "filter (\<lambda>q. page_lru (mem_map ?t q) = l) ps = filter (\<lambda>q. page_lru (mem_map s q) = l) ps"
      using p(3) by (intro filter_cong) (auto simp: ClearPage_def)
    with Cons.IH [OF 1 2 3 4] iso show ?case by auto
  qed simp
  then show "count' l = count l + of_nat (length (filter (\<lambda>p. page_lru (mem_map s p) = l) ps))"
    "iso_pages s' z ps" "pvecs_ok s'" "lru_inv_upto D s'" using assms(1) by auto
qed

lemma pvecs_ok_mod_state [simp]: "pvecs_ok (mod_zone_page_state z i d s) = pvecs_ok s"
  by (simp add: pvecs_ok_def pvec_page_ok_def PageFlag_def)
     (simp add: mod_zone_page_state_def upd_zone_def)

lemma pvecs_ok_count_events [simp]: "pvecs_ok (count_vm_events e n s) = pvecs_ok s"
  by (simp add: pvecs_ok_def pvec_page_ok_def PageFlag_def) (simp add: count_vm_events_def)

lemma isolated_bookkeeping [simp]:
  "isolated (mod_zone_page_state z i d s) p = isolated s p"
  "isolated (count_vm_events e n s) p = isolated s p"
  by (simp_all add: isolated_def PageFlag_def)
     (simp_all add: mod_zone_page_state_def upd_zone_def count_vm_events_def)

text \<open>After the counters are corrected, the invariant holds without a debt.\<close>

lemma update_isolated_counts_inv:
  assumes pv: "pvecs_ok s" and lru: "lru_inv_upto (debt s z ps) s" and iso: "iso_pages s z ps"
    and r: "update_isolated_counts z ps s = (na, nf, s')"
  shows "mm_inv s'" "iso_pages s' z ps"
proof -
  obtain c n t where c: "count_isolated ps (\<lambda>_. 0, 0, s) = (c, n, t)" by (rule prod_cases3)
  note spec = count_isolated_spec [OF iso pv lru c]
  have un: "filter (\<lambda>p. page_lru (mem_map s p) = LRU_UNEVICTABLE) ps = []"
    using iso page_lru_iso by (fastforce simp: iso_pages_def filter_empty_conv PageFlag_def)
  have D: "debt s z ps z l = c l" for l using spec(1) [of l] by (simp add: debt_def)
  have c0: "c LRU_UNEVICTABLE = 0" using spec(1) [of LRU_UNEVICTABLE] un by simp
  let ?m = "\<lambda>l s. mod_zone_page_state z (nr_lru l) (- c l) s"
  let ?u = "?m LRU_INACTIVE_ANON (?m LRU_ACTIVE_ANON (?m LRU_INACTIVE_FILE (?m LRU_ACTIVE_FILE
    (count_vm_events PGDEACTIVATE n t))))"
  have "lru_inv_upto (debt s z ps) (count_vm_events PGDEACTIVATE n t)" using spec(4) by simp
  then have "lru_inv_upto (add2 (add2 (add2 (add2 (debt s z ps) z LRU_ACTIVE_FILE (- c LRU_ACTIVE_FILE))
      z LRU_INACTIVE_FILE (- c LRU_INACTIVE_FILE)) z LRU_ACTIVE_ANON (- c LRU_ACTIVE_ANON))
      z LRU_INACTIVE_ANON (- c LRU_INACTIVE_ANON)) ?u"
    by (intro lru_inv_count)
  moreover have "add2 (add2 (add2 (add2 (debt s z ps) z LRU_ACTIVE_FILE (- c LRU_ACTIVE_FILE))
      z LRU_INACTIVE_FILE (- c LRU_INACTIVE_FILE)) z LRU_ACTIVE_ANON (- c LRU_ACTIVE_ANON))
      z LRU_INACTIVE_ANON (- c LRU_INACTIVE_ANON) = no_debt"
  proof (intro ext)
    fix z' l
    show "add2 (add2 (add2 (add2 (debt s z ps) z LRU_ACTIVE_FILE (- c LRU_ACTIVE_FILE))
      z LRU_INACTIVE_FILE (- c LRU_INACTIVE_FILE)) z LRU_ACTIVE_ANON (- c LRU_ACTIVE_ANON))
      z LRU_INACTIVE_ANON (- c LRU_INACTIVE_ANON) z' l = 0"
      using c0 by (cases l) (simp_all add: D, simp_all add: debt_def)
  qed
  ultimately have u: "lru_inv ?u" by simp
  have s': "s' = mod_zone_page_state z (nr_isolated True) nf (mod_zone_page_state z (nr_isolated False) na ?u)"
    using r by (auto simp: update_isolated_counts_def c Let_def)
  show "mm_inv s'" using u spec(3) by (simp add: s' mm_inv_def)
  show "iso_pages s' z ps" using spec(2) by (simp add: s' iso_pages_def PageFlag_def)
qed

lemma iso_pagesD:
  "iso_pages s z ps \<Longrightarrow> distinct ps"
  "iso_pages s z ps \<Longrightarrow> p \<in> set ps \<Longrightarrow> isolated s p"
  "iso_pages s z ps \<Longrightarrow> p \<in> set ps \<Longrightarrow> pg_zonenum (mem_map s p) = z"
  by (simp_all add: iso_pages_def)

text \<open>Two passes over the isolated pages, then everything that is left goes back.\<close>

lemma putback_inactive_pages_inv:
  assumes "mm_inv s" "distinct ps" "\<And>p. p \<in> set ps \<Longrightarrow> isolated s p"
    "\<And>p. p \<in> set ps \<Longrightarrow> pg_zonenum (mem_map s p) = z"
  shows "mm_inv (snd (putback_inactive_pages z ps s))"
  unfolding putback_inactive_pages_def
  by (rule mm_safe_putback_loop) (use assms in simp_all)

definition spl_kept :: "nat \<Rightarrow> nat set \<Rightarrow> 'w spl_result \<Rightarrow> bool" where
  "spl_kept z P r \<longleftrightarrow>
     mm_inv (spl_mm r) \<and> distinct (spl_page_list r) \<and>
     (\<forall>p \<in> set (spl_page_list r).
        p \<in> P \<and> isolated (spl_mm r) p \<and> pg_zonenum (mem_map (spl_mm r) p) = z)"

lemma spl_kept_shrink:
  assumes "env_ok env" "mm_inv s" "distinct ps"
    "\<And>p. p \<in> set ps \<Longrightarrow> p \<in> P \<and> isolated s p \<and> pg_zonenum (mem_map s p) = z"
    "shrink_page_list env ps z' sc priority nd nw s = Some r"
  shows "spl_kept z P r"
  using shrink_page_list_inv [OF assms(1,2,3) _ assms(5)] assms(4)
  unfolding spl_kept_def by auto

lemma shrink_putback_inv:
  assumes k: "spl_kept z P r"
  shows "mm_inv (shrink_putback env r nt na nf z priority)"
proof -
  let ?e = "if e_current_is_kswapd env then PGSTEAL_KSWAPD z else PGSTEAL_DIRECT z"
  let ?a = "count_vm_events ?e (spl_nr_reclaimed r) (add_scanned z True nf (add_scanned z False na (spl_mm r)))"
  have a: "mm_safe (spl_mm r) ?a"
    by (rule mm_safe_trans [OF mm_safe_trans [OF mm_safe_counters(4) mm_safe_counters(4)] mm_safe_release(4)])
  have inv: "mm_inv (spl_mm r)" using k by (simp add: spl_kept_def)
  let ?b = "putback_inactive_pages z (spl_page_list r) ?a"
  have "mm_inv (snd ?b)"
    using k mm_safe_isolated [OF a inv] mm_safe_zonenum [OF a inv]
    by (intro putback_inactive_pages_inv mm_safe_inv [OF a inv]) (auto simp: spl_kept_def)
  let ?c = "log_free_hot_cold_page_list (fst ?b) True (mod_zone_page_state z (nr_isolated True) (- nf)
    (mod_zone_page_state z (nr_isolated False) (- na) (snd ?b)))"
  have "mm_safe (snd ?b) ?c"
    by (rule mm_safe_trans [OF mm_safe_trans [OF mm_safe_counters(3) mm_safe_counters(3)] mm_safe_release(3)])
  from mm_safe_inv [OF this \<open>mm_inv (snd ?b)\<close>] have c: "mm_inv ?c" .
  have "shrink_putback env r nt na nf z priority \<in> {?c, kcall (Wait_iff_congested z) ?c}"
    by (simp add: shrink_putback_def Let_def split_beta)
  then show ?thesis
    using c mm_safe_inv [OF mm_safe_release(5) c] by auto
qed

lemma shrink_isolated_inv:
  assumes env: "env_ok env" and pv: "pvecs_ok s" and lru: "lru_inv_upto (debt s z ps) s"
    and iso: "iso_pages s z ps"
    and r: "shrink_isolated env ps nt z sc priority s = Some (n, sc', s')"
  shows "mm_inv s'"
proof -
  obtain na nf t where t: "update_isolated_counts z ps s = (na, nf, t)" by (rule prod_cases3)
  note u = update_isolated_counts_inv [OF pv lru iso t]
  obtain r1 where r1: "shrink_page_list env ps z sc priority 0 0 t = Some r1"
    using r by (auto simp: shrink_isolated_def t split: option.splits)
  have k1: "spl_kept z (set ps) r1"
    by (rule spl_kept_shrink [OF env u(1) iso_pagesD(1) [OF u(2)] _ r1])
       (use iso_pagesD(2,3) [OF u(2)] in simp)
  let ?again = "shrink_page_list env (spl_page_list r1) z (set_reclaim_mode priority True (spl_sc r1))
    priority (spl_nr_dirty r1) (spl_nr_writeback r1) (spl_mm r1)"
  show ?thesis
  proof (cases "should_reclaim_stall env nt (spl_nr_reclaimed r1) priority (spl_sc r1)")
    case True
    obtain r2 where r2: "?again = Some r2"
      using r True by (auto simp: shrink_isolated_def t r1 split: option.splits)
    have "spl_kept z (set ps) r2"
      using k1 by (intro spl_kept_shrink [OF env _ _ _ r2]) (auto simp: spl_kept_def)
    then have "spl_kept z (set ps) (r2\<lparr>spl_nr_reclaimed := spl_nr_reclaimed r1 + spl_nr_reclaimed r2\<rparr>)"
      by (simp add: spl_kept_def)
    from shrink_putback_inv [OF this] show ?thesis
      using r True r2 by (auto simp: shrink_isolated_def t r1)
  next
    case False
    then show ?thesis
      using r shrink_putback_inv [OF k1] by (auto simp: shrink_isolated_def t r1)
  qed
qed

text \<open>The wait at the start is a safe step, if it ends.\<close>

lemma wait_too_many_isolated_safe:
  assumes "wait_too_many_isolated env z fl s = Some x" "env_ok env"
  shows "mm_safe s (snd x)"
  using assms
proof (induction rule: wait_too_many_isolated.raw_induct [rotated 1, consumes 1])
  case (1 f env z fl s x)
  let ?t = "e_congestion_wait env s"
  have t: "mm_safe s ?t" by (rule env_okD(14) [OF "1.prems"])
  have "f env z fl ?t = Some x \<Longrightarrow> mm_safe s (snd x)"
    using mm_safe_trans [OF t "1.IH"] "1.prems" by blast
  then show ?case
    using "1.hyps" t by (auto simp: Let_def split: if_splits)
qed

text \<open>
  The sizes of the callers: at most \<^verbatim>\<open>SWAP_CLUSTER_MAX\<close> pages at a time, an order below \<^verbatim>\<open>MAX_ORDER\<close>.
\<close>

definition scan_size_ok :: "ulong \<Rightarrow> scan_control \<Rightarrow> bool" where
  "scan_size_ok n sc \<longleftrightarrow> n \<le> SWAP_CLUSTER_MAX \<and> sc_order sc < 11"

lemma scan_size_len:
  assumes "scan_size_ok n sc" "k \<le> unat n + 2 ^ nat (sc_order sc)"
  shows "k < 2 ^ 32"
proof -
  have "unat n \<le> 32" using assms(1) by (simp add: scan_size_ok_def SWAP_CLUSTER_MAX_def word_le_nat_alt)
  moreover have "(2 :: nat) ^ nat (sc_order sc) \<le> 2 ^ 11"
    using assms(1) by (intro power_increasing) (simp_all add: scan_size_ok_def nat_le_iff)
  ultimately show ?thesis using assms(2) by simp
qed

lemma mem_map_zone_stats [simp]:
  "mem_map (add_pages_scanned z n s) = mem_map s" "mem_map (add_scanned z b n s) = mem_map s"
  "mem_map (add_rotated z b n s) = mem_map s"
  by (simp_all add: add_pages_scanned_def add_scanned_def add_rotated_def)

lemma lru_safe_add_pages_scanned: "lru_safe u (count_vm_events e n (add_pages_scanned z m u))"
proof -
  have "lru_safe u (add_pages_scanned z m u)"
    unfolding add_pages_scanned_def by (rule lru_safe_upd_zone) simp_all
  from lru_safe_trans [OF this lru_safe_bookkeeping(1)] show ?thesis .
qed

lemma shrink_inactive_list_inv:
  assumes env: "env_ok env" and inv: "mm_inv s" and size: "scan_size_ok n sc"
    and r: "shrink_inactive_list env n z sc priority fl s = Some (nr, sc', s')"
  shows "mm_inv s'"
proof -
  obtain b t where w: "wait_too_many_isolated env z fl s = Some (b, t)"
    using r by (auto simp: shrink_inactive_list_def split: option.splits)
  have t: "mm_inv t" using mm_safe_inv [OF wait_too_many_isolated_safe [OF w env] inv] by simp
  show ?thesis
  proof (cases b)
    case True
    then show ?thesis using r w t by (simp add: shrink_inactive_list_def)
  next
    case False
    define sc1 where "sc1 = set_reclaim_mode priority False sc"
    define m where "m = (let mode = (if has_bits (sc_reclaim_mode sc1) RECLAIM_MODE_LUMPYRECLAIM
        then ISOLATE_INACTIVE OR ISOLATE_ACTIVE else ISOLATE_INACTIVE);
        mode = (if \<not> sc_may_unmap sc1 then mode OR ISOLATE_UNMAPPED else mode)
        in if \<not> sc_may_writepage sc1 then mode OR ISOLATE_CLEAN else mode)"
    have m: "all_lru_mode m \<or> has_bits m ISOLATE_ACTIVE = False"
      by (simp add: m_def Let_def all_lru_mode_def has_bits_def isolate_defs)
    obtain dst scan u where u: "isolate_lru_pages n z sc1 m False fl (lru_add_drain t) =
        Some (dst, of_nat (length dst), scan, u)" and iso: "pvecs_ok u" "lru_inv_upto (debt u z dst) u"
        "iso_pages u z dst" and len: "length dst \<le> unat n + 2 ^ nat (sc_order sc1)"
      using isolate_lru_pages_inv [OF mm_inv_lru_add_drain [OF t] m, of n z sc1 fl] by blast
    define e where "e = (if e_current_is_kswapd env then PGSCAN_KSWAPD z else PGSCAN_DIRECT z)"
    let ?w = "count_vm_events e scan (add_pages_scanned z scan u)"
    have safe: "lru_safe u ?w" by (rule lru_safe_add_pages_scanned)
    have mem: "mem_map ?w = mem_map u" "lru_add_pvecs ?w = lru_add_pvecs u"
      using safe by (simp_all add: add_pages_scanned_def lru_safe_but_def pvecs_kept_def)
    have w1: "pvecs_ok ?w" by (rule pvecs_ok_safe [OF safe iso(1)]) simp
    have w2: "lru_inv_upto (debt ?w z dst) ?w"
      unfolding debt_cong [OF mem(1)] by (rule lru_safe_inv [OF safe iso(2)])
    have w3: "iso_pages ?w z dst"
      using iso(3) by (simp add: iso_pages_def isolated_def PageFlag_def mem)
    have eq: "shrink_inactive_list env n z sc priority fl s =
        (if (of_nat (length dst) :: ulong) = 0 then Some (0, sc1, ?w)
         else shrink_isolated env dst (of_nat (length dst)) z sc1 priority ?w)"
    proof -
      have "shrink_inactive_list env n z sc priority fl s =
        (case isolate_lru_pages n z sc1 m False fl (lru_add_drain t) of
           None \<Rightarrow> None
         | Some (page_list, nr_taken, nr_scanned, s) \<Rightarrow>
             let s = count_vm_events e nr_scanned (add_pages_scanned z nr_scanned s)
             in if nr_taken = 0 then Some (0, sc1, s)
                else shrink_isolated env page_list nr_taken z sc1 priority s)"
        using False
        by (simp only: shrink_inactive_list_def w m_def sc1_def e_def Let_def option.case prod.case if_False)
      then show ?thesis unfolding u by (simp add: Let_def)
    qed
    show ?thesis
    proof (cases "(of_nat (length dst) :: ulong) = 0")
      case True
      have "length dst < 2 ^ 32"
        by (rule scan_size_len [of n sc1])
           (use size len in \<open>simp_all add: scan_size_ok_def sc1_def set_reclaim_mode_def\<close>)
      then have "dst = []" using of_nat_ulong_eq_iff [of "length dst" 0] True by simp
      then have "lru_inv ?w" using w2 by simp
      then have "mm_inv ?w" using w1 by (simp add: mm_inv_def)
      then show ?thesis using r [unfolded eq if_P [OF True]] by auto
    next
      case False
      show ?thesis
        by (rule shrink_isolated_inv [OF env w1 w2 w3 r [unfolded eq if_not_P [OF False]]])
    qed
  qed
qed



section \<open>The active list\<close>

text \<open>A page of zone \<open>z\<close> that belongs on the active or inactive (\<open>a\<close>) file or anonymous (\<open>fl\<close>) list.\<close>

definition belongs :: "bool \<Rightarrow> bool \<Rightarrow> nat \<Rightarrow> page \<Rightarrow> bool" where
  "belongs a fl z pg \<longleftrightarrow>
     pg_flags pg PG_active = a \<and> \<not> pg_flags pg PG_unevictable \<and> page_is_file_cache pg = fl \<and>
     pg_zonenum pg = z"

lemma belongs_place:
  "belongs a fl z pg \<Longrightarrow> lru_place (set_flag PG_lru pg) = Some (z, iso_lru a fl)"
  by (auto simp: belongs_def lru_place_def page_lru_def page_lru_base_type_def page_is_file_cache_def)

lemma belongs_flags_eq:
  "lru_flags_eq pg pg' \<Longrightarrow> pg_zonenum pg' = pg_zonenum pg \<Longrightarrow> belongs a fl z pg' = belongs a fl z pg"
  by (simp add: belongs_def lru_flags_eq_def page_is_file_cache_def)

lemma lru_unlink_off:
  assumes "\<And>z l. p \<notin> set (zone_lists s z l)"
  shows "lru_unlink p s = s"
proof -
  have "(node_zones s z)\<lparr>lists := \<lambda>l. removeAll p (zone_lists s z l)\<rparr> = node_zones s z" for z
    using assms by simp
  then show ?thesis by (simp add: lru_unlink_def)
qed

lemma lru_inv_link_isolated:
  assumes inv: "lru_inv_upto D s" and iso: "isolated s p"
    and place: "lru_place (set_flag PG_lru (mem_map s p)) = Some (z, l)"
  shows "lru_inv_upto (add2 D z l (-1)) (lru_move z p l (SetPage PG_lru p s))"
proof -
  have off: "lru_place (mem_map s p) = None"
    using iso by (simp add: lru_place_def isolated_def PageFlag_def)
  then have "p \<notin> set (zone_lists (SetPage PG_lru p s) z' l')" for z' l'
    using lru_inv_memD [OF inv, of p z' l'] by (simp add: SetPage_def)
  then have "lru_move z p l (SetPage PG_lru p s) = lru_link z p l (upd_page p (set_flag PG_lru) s)"
    by (simp add: lru_move_def lru_unlink_off SetPage_def)
  then show ?thesis
    using lru_inv_link(1) [where f = "set_flag PG_lru", OF inv off place] by simp
qed

lemma putback_free_frame:
  "q \<noteq> p \<Longrightarrow> mem_map (snd (putback_free z p lru fs s)) q = mem_map s q"
  "lru_add_pvecs (snd (putback_free z p lru fs s)) = lru_add_pvecs s"
proof -
  show "q \<noteq> p \<Longrightarrow> mem_map (snd (putback_free z p lru fs s)) q = mem_map s q"
    by (simp add: putback_free_eq Let_def add_count_def)
  show "lru_add_pvecs (snd (putback_free z p lru fs s)) = lru_add_pvecs s"
    by (simp add: putback_free_eq Let_def add_count_def kcall_def upd_page_def
        del_page_from_lru_list_def mod_zone_page_state_def upd_zone_def lru_unlink_def)
qed

lemma move_active_loop_inv:
  assumes "pvecs_ok s" "lru_inv_upto D s" "distinct ps"
    "\<And>p. p \<in> set ps \<Longrightarrow> isolated s p \<and> belongs a fl z (mem_map s p)"
    "move_active_loop z (iso_lru a fl) ps (n, fs, s) = (n', fs', s')"
  shows "pvecs_ok s' \<and> lru_inv_upto (add2 D z (iso_lru a fl) (- of_nat (length ps))) s' \<and>
    n' = n + of_nat (length ps) \<and> lru_add_pvecs s' = lru_add_pvecs s \<and>
    (\<forall>q. q \<notin> set ps \<longrightarrow> mem_map s' q = mem_map s q)"
  using assms
proof (induction ps arbitrary: n fs s D)
  case (Cons p ps)
  let ?l = "iso_lru a fl"
  let ?t = "lru_move z p ?l (SetPage PG_lru p s)"
  let ?r = "putback_free z p ?l fs ?t"
  have iso: "isolated s p" and place: "lru_place (set_flag PG_lru (mem_map s p)) = Some (z, ?l)"
    using Cons.prems(4) belongs_place by auto
  have pvt: "lru_add_pvecs ?t = lru_add_pvecs s"
    by (simp add: lru_move_def lru_link_def upd_zone_def SetPage_def)
  have lru: "lru_inv_upto (add2 D z ?l (-1)) ?t"
    by (rule lru_inv_link_isolated [OF Cons.prems(2) iso place])
  have "pvecs_ok ?t"
    using Cons.prems(1) iso
    by (auto simp: pvecs_ok_def pvec_page_ok_def isolated_def PageFlag_def lru_move_def lru_link_def
        upd_zone_def SetPage_def page_is_file_cache_def)
  moreover have safe: "lru_safe ?t (snd ?r)"
    by (rule lru_safe_putback_free) (simp add: SetPage_def place)
  ultimately have 1: "pvecs_ok (snd ?r)" by (intro pvecs_ok_safe [OF safe]) simp_all
  have 2: "lru_inv_upto (add2 D z ?l (-1)) (snd ?r)" by (rule lru_safe_inv [OF safe lru])
  have mem: "mem_map (snd ?r) q = mem_map s q" if "q \<noteq> p" for q
    using that by (simp add: putback_free_frame SetPage_def)
  have pv: "lru_add_pvecs (snd ?r) = lru_add_pvecs s" by (simp add: putback_free_frame pvt)
  have 3: "isolated (snd ?r) q \<and> belongs a fl z (mem_map (snd ?r) q)" if "q \<in> set ps" for q
  proof -
    have "q \<noteq> p" using that Cons.prems(3) by auto
    then show ?thesis
      using that Cons.prems(4) [of q] unfolding isolated_def PageFlag_def pv mem [OF \<open>q \<noteq> p\<close>] by simp
  qed
  have 4: "move_active_loop z ?l ps (n + 1, fst ?r, snd ?r) = (n', fs', s')"
    using Cons.prems(5) by (simp add: Let_def split_beta)
  have "distinct ps" using Cons.prems(3) by simp
  note IH = Cons.IH [OF 1 2 this 3 4]
  have "- 1 + - of_nat (length ps) = (- of_nat (length (p # ps)) :: ulong)" by simp
  then have "add2 (add2 D z ?l (- 1)) z ?l (- of_nat (length ps)) = add2 D z ?l (- of_nat (length (p # ps)))"
    by (simp only: add2_cancel)
  then have "lru_inv_upto (add2 D z ?l (- of_nat (length (p # ps)))) s'" using IH by presburger
  moreover have "n' = n + of_nat (length (p # ps))" using IH by (simp add: add.commute add.assoc)
  moreover have "mem_map s' q = mem_map s q" if "q \<notin> set (p # ps)" for q
    using IH that mem [of q] by simp
  ultimately show ?case using IH pv by (intro conjI) (blast | presburger)+
qed simp

lemma move_active_pages_to_lru_inv:
  assumes inv: "mm_inv s" and d: "distinct ps"
    and p: "\<And>p. p \<in> set ps \<Longrightarrow> isolated s p \<and> belongs a fl z (mem_map s p)"
  shows "mm_inv (snd (move_active_pages_to_lru z ps fs (iso_lru a fl) s))"
    "q \<notin> set ps \<Longrightarrow> mem_map (snd (move_active_pages_to_lru z ps fs (iso_lru a fl) s)) q = mem_map s q"
    "lru_add_pvecs (snd (move_active_pages_to_lru z ps fs (iso_lru a fl) s)) = lru_add_pvecs s"
proof -
  let ?l = "iso_lru a fl"
  obtain n fs' t where r: "move_active_loop z ?l (rev ps) (0, fs, s) = (n, fs', t)" by (rule prod_cases3)
  have "pvecs_ok s" "lru_inv s" using inv by (simp_all add: mm_inv_def)
  from move_active_loop_inv [OF this _ _ r] d p
  have t: "pvecs_ok t" "lru_inv_upto (add2 no_debt z ?l (- of_nat (length ps))) t"
    "n = of_nat (length ps)" "lru_add_pvecs t = lru_add_pvecs s"
    "\<And>q. q \<notin> set ps \<Longrightarrow> mem_map t q = mem_map s q" by auto
  let ?u = "mod_zone_page_state z (nr_lru ?l) n t"
  have "lru_inv_upto (add2 no_debt z ?l 0) ?u" using lru_inv_count [OF t(2), of z ?l n] t(3) by simp
  moreover have "add2 no_debt z ?l 0 = no_debt" by (simp add: fun_eq_iff)
  ultimately have "lru_inv ?u" by simp
  then have u: "mm_inv ?u" using t(1) by (simp add: mm_inv_def)
  have eq: "snd (move_active_pages_to_lru z ps fs ?l s) =
      (if \<not> is_active_lru ?l then count_vm_events PGDEACTIVATE n ?u else ?u)"
    by (simp add: move_active_pages_to_lru_def r Let_def)
  show "mm_inv (snd (move_active_pages_to_lru z ps fs ?l s))"
    unfolding eq using u mm_safe_inv [OF mm_safe_release(4) u] by simp
  show "q \<notin> set ps \<Longrightarrow> mem_map (snd (move_active_pages_to_lru z ps fs ?l s)) q = mem_map s q"
    unfolding eq using t(5) by simp
  show "lru_add_pvecs (snd (move_active_pages_to_lru z ps fs ?l s)) = lru_add_pvecs s"
    unfolding eq using t(4) by (simp add: count_vm_events_def mod_zone_page_state_def upd_zone_def)
qed

text \<open>
  The scan of \<^verbatim>\<open>l_hold\<close>: the pages still to scan and those kept are active, those on \<open>l_inactive\<close> not, and
  all are isolated pages of the list being scanned.
\<close>

definition sal_inv :: "nat \<Rightarrow> bool \<Rightarrow> nat list \<Rightarrow> sal_locals \<times> 'w mm_state \<Rightarrow> bool" where
  "sal_inv z fl ps vs \<longleftrightarrow>
     (case vs of (v, s) \<Rightarrow>
        mm_inv s \<and> distinct (ps @ l_active v @ l_inactive v) \<and>
        (\<forall>p \<in> set ps \<union> set (l_active v). isolated s p \<and> belongs True fl z (mem_map s p)) \<and>
        (\<forall>p \<in> set (l_inactive v). isolated s p \<and> belongs False fl z (mem_map s p)))"

lemma mm_safe_belongs:
  assumes "mm_safe_but A s s'" "mm_inv s" "q \<notin> A" "isolated s q" "belongs a fl z (mem_map s q)"
  shows "isolated s' q \<and> belongs a fl z (mem_map s' q)"
  using mm_safe_isolated [OF assms(1-4)] belongs_flags_eq [OF mm_safe_flags [OF assms(1-4)]
    mm_safe_zonenum [OF assms(1,2)]] assms(5) by blast

lemma sal_inv_safe:
  "sal_inv z fl ps (v, s) \<Longrightarrow> mm_safe s s' \<Longrightarrow> sal_inv z fl ps (v, s')"
  using mm_safe_belongs [of "{}" s s'] mm_safe_inv [of "{}" s s']
  unfolding sal_inv_def prod.case by blast

lemma sal_inv_rotated [simp]: "sal_inv z fl ps (v\<lparr>nr_rotated := n\<rparr>, s) = sal_inv z fl ps (v, s)"
  by (simp add: sal_inv_def)

lemma sal_inv_keep:
  "sal_inv z fl (p # ps) (v, s) \<Longrightarrow> sal_inv z fl ps (v\<lparr>l_active := p # l_active v\<rparr>, s)"
  by (auto simp: sal_inv_def)

lemma sal_inv_but:
  assumes inv: "sal_inv z fl (p # ps) (v, s)" and safe: "mm_safe_but {p} s s'"
  shows "sal_inv z fl ps (v, s')"
proof -
  have s: "mm_inv s" using inv by (simp add: sal_inv_def)
  have 1: "isolated s' q \<and> belongs True fl z (mem_map s' q)" if "q \<in> set ps \<union> set (l_active v)" for q
    by (rule mm_safe_belongs [OF safe s]) (use inv that in \<open>auto simp: sal_inv_def\<close>)
  have 2: "isolated s' q \<and> belongs False fl z (mem_map s' q)" if "q \<in> set (l_inactive v)" for q
    by (rule mm_safe_belongs [OF safe s]) (use inv that in \<open>auto simp: sal_inv_def\<close>)
  show ?thesis
    using inv mm_safe_inv [OF safe s] 1 2 unfolding sal_inv_def prod.case by (simp add: Ball_def)
qed

lemma sal_inv_putback:
  assumes "sal_inv z fl (p # ps) (v, s)"
  shows "sal_inv z fl ps (v, putback_lru_page p s)"
  by (rule sal_inv_but [OF assms mm_safe_putback_lru_page])
     (use assms in \<open>auto simp: sal_inv_def\<close>)

lemma sal_inv_age:
  assumes "sal_inv z fl (p # ps) (v, s)"
  shows "sal_inv z fl ps (sal_age p (v, s))"
proof -
  let ?t = "add_referenced 1 p s"
  have t: "sal_inv z fl (p # ps) (v, ?t)" by (rule sal_inv_safe [OF assms]) blast
  then have iso: "isolated ?t p" by (auto simp: sal_inv_def)
  let ?u = "ClearPage PG_active p ?t"
  have safe: "mm_safe_but {p} ?t ?u" "isolated ?u p"
    unfolding ClearPage_def
    by (rule mm_safe_isolated_upd [OF iso]; use iso in \<open>simp add: isolated_def PageFlag_def\<close>)+
  have "belongs False fl z (mem_map ?u p)"
    using t by (simp add: sal_inv_def belongs_def page_is_file_cache_def ClearPage_def)
  moreover have "p \<notin> set ps" "p \<notin> set (l_active v)" "p \<notin> set (l_inactive v)"
    using assms by (auto simp: sal_inv_def)
  ultimately have "sal_inv z fl ps (v\<lparr>l_inactive := p # l_inactive v\<rparr>, ?u)"
    using sal_inv_but [OF t safe(1)] safe(2) unfolding sal_inv_def prod.case by simp
  then show ?thesis
    using sal_inv_keep [OF t] by (simp add: sal_age_def Let_def)
qed

lemma mm_safe_sal_release_buffers:
  assumes "env_ok env"
  shows "mm_safe s (sal_release_buffers env p s)"
proof -
  let ?t = "snd (trylock_page p s)"
  let ?u = "if page_has_private ?t p then snd (e_try_to_release_page env p 0 ?t) else ?t"
  have "mm_safe ?t ?u" using env_okD [OF assms] by auto
  with mm_safe_lock(1) have "mm_safe s ?u" by (rule mm_safe_trans)
  then have "mm_safe s (unlock_page p ?u)" by (rule mm_safe_trans) blast
  moreover have "mm_safe s ?t" by blast
  ultimately show ?thesis by (simp add: sal_release_buffers_def Let_def split_beta)
qed

lemma sal_inv_page:
  assumes env: "env_ok env" and inv: "sal_inv z fl (p # ps) vs"
  shows "sal_inv z fl ps (sal_page env p vs)"
proof -
  obtain v s where vs: "vs = (v, s)" by (cases vs)
  show ?thesis
  proof (cases "page_evictable s p")
    case False
    then show ?thesis using sal_inv_putback inv by (simp add: sal_page_def vs)
  next
    case True
    let ?s1 = "sal_release_buffers env p s"
    obtain r flags t where t: "e_page_referenced env p False ?s1 = ((r, flags), t)" by (metis surj_pair)
    have "mm_safe s (snd (e_page_referenced env p False ?s1))"
      by (rule mm_safe_trans [OF mm_safe_sal_release_buffers [OF env]]) (rule env_okD [OF env])
    then have s2: "sal_inv z fl (p # ps) (v, t)" using inv sal_inv_safe vs t by fastforce
    define v' where "v' = (if r \<noteq> 0 then v\<lparr>nr_rotated := nr_rotated v + 1\<rparr> else v)"
    have v: "sal_inv z fl (p # ps) (v', t)" using s2 by (simp add: v'_def)
    have "sal_page env p vs =
        (if r \<noteq> 0 \<and> has_bits flags VM_EXEC \<and> page_is_file_cache (mem_map t p)
         then (v'\<lparr>l_active := p # l_active v'\<rparr>, t) else sal_age p (v', t))"
      unfolding v'_def using True by (simp only: sal_page_def vs Let_def prod.case t if_False simp_thms)
    then show ?thesis using sal_inv_keep [OF v] sal_inv_age [OF v] by simp
  qed
qed

lemma sal_inv_fold:
  "env_ok env \<Longrightarrow> sal_inv z fl ps vs \<Longrightarrow> sal_inv z fl [] (fold (sal_page env) ps vs)"
  by (induction ps arbitrary: vs) (simp_all add: sal_inv_page)

text \<open>The counter is corrected before the scan, for the pages of the one list.\<close>

lemma debt_one_list:
  assumes "\<forall>p \<in> set ps. page_lru (mem_map s p) = l"
  shows "debt s z ps = add2 no_debt z l (of_nat (length ps))"
proof -
  have "filter (\<lambda>p. page_lru (mem_map s p) = l') ps = (if l' = l then ps else [])" for l'
    using assms by (auto intro: filter_True simp: filter_empty_conv)
  then show ?thesis by (simp add: fun_eq_iff debt_def)
qed

lemma iso_lru_belongs:
  "page_lru pg = iso_lru a fl \<Longrightarrow> \<not> pg_flags pg PG_unevictable \<Longrightarrow> belongs a fl (pg_zonenum pg) pg"
  by (cases a; cases fl)
     (auto simp: belongs_def page_lru_def page_lru_base_type_def page_is_file_cache_def
       split: if_splits)

lemma shrink_active_hold:
  assumes pv: "pvecs_ok u" and lru: "lru_inv_upto (debt u z dst) u" and iso: "iso_pages u z dst"
    and one: "\<forall>p \<in> set dst. page_lru (mem_map u p) = iso_lru True fl" and safe: "lru_safe u w"
    and mem: "mem_map w = mem_map u"
  shows "sal_inv z fl (rev dst) (\<lparr>l_active = [], l_inactive = [], nr_rotated = 0\<rparr>,
    mod_zone_page_state z (nr_isolated fl) n
      (mod_zone_page_state z (nr_lru (iso_lru True fl)) (- of_nat (length dst)) w))"
proof -
  let ?l = "iso_lru True fl"
  let ?x = "mod_zone_page_state z (nr_lru ?l) (- of_nat (length dst)) w"
  have "lru_inv_upto (add2 no_debt z ?l (of_nat (length dst))) w"
    using lru_safe_inv [OF safe lru] unfolding debt_one_list [OF one] .
  from lru_inv_count [OF this, of z ?l "- of_nat (length dst)"]
  have "lru_inv_upto (add2 no_debt z ?l 0) ?x" by simp
  moreover have "add2 no_debt z ?l 0 = no_debt" by (simp add: fun_eq_iff)
  moreover have "pvecs_ok ?x" using pvecs_ok_safe [OF safe pv] by simp
  ultimately have "mm_inv ?x" by (simp add: mm_inv_def)
  moreover have "isolated ?x p \<and> belongs True fl z (mem_map ?x p)" if "p \<in> set (rev dst)" for p
  proof -
    have "lru_add_pvecs ?x = lru_add_pvecs u" "mem_map ?x = mem_map u"
      using safe mem by (simp_all add: lru_safe_but_def pvecs_kept_def mod_zone_page_state_def upd_zone_def)
    moreover have "isolated u p" "belongs True fl z (mem_map u p)"
      using iso one that iso_lru_belongs [of "mem_map u p" True fl]
      by (auto simp: iso_pages_def PageFlag_def)
    ultimately show ?thesis by (simp add: isolated_def PageFlag_def)
  qed
  ultimately have "sal_inv z fl (rev dst) (\<lparr>l_active = [], l_inactive = [], nr_rotated = 0\<rparr>, ?x)"
    using iso by (simp add: sal_inv_def iso_pages_def)
  then show ?thesis by (rule sal_inv_safe) blast
qed

lemma sal_done_inv:
  assumes "sal_inv z fl [] (v, s)"
  shows "mm_inv (snd (let (to_free, s) = move_active_pages_to_lru z (l_active v) [] (iso_lru True fl) s
    in move_active_pages_to_lru z (l_inactive v) to_free (iso_lru False fl) s))"
proof -
  have inv: "mm_inv s" and d: "distinct (l_active v)" "distinct (l_inactive v)"
    and disj: "set (l_active v) \<inter> set (l_inactive v) = {}"
    and a: "\<And>p. p \<in> set (l_active v) \<Longrightarrow> isolated s p \<and> belongs True fl z (mem_map s p)"
    and i: "\<And>p. p \<in> set (l_inactive v) \<Longrightarrow> isolated s p \<and> belongs False fl z (mem_map s p)"
    using assms by (auto simp: sal_inv_def)
  note m = move_active_pages_to_lru_inv [where fs = "[]", OF inv d(1) a]
  let ?r = "move_active_pages_to_lru z (l_active v) [] (iso_lru True fl) s"
  have "isolated (snd ?r) p \<and> belongs False fl z (mem_map (snd ?r) p)" if "p \<in> set (l_inactive v)" for p
  proof -
    have "p \<notin> set (l_active v)" using that disj by auto
    from m(2) [OF _ this] i [OF that] m(3) show ?thesis by (simp add: isolated_def PageFlag_def)
  qed
  from move_active_pages_to_lru_inv(1) [where fs = "fst ?r", OF m(1) d(2) this]
  show ?thesis by (simp add: Let_def split_beta)
qed

lemma shrink_active_list_inv:
  assumes env: "env_ok env" and inv: "mm_inv s"
  shows "\<exists>sc' s'. shrink_active_list env n z sc fl s = Some (sc', s') \<and> mm_inv s'"
proof -
  define sc1 where "sc1 = reset_reclaim_mode sc"
  define m where "m = (let mode = ISOLATE_ACTIVE;
      mode = (if \<not> sc_may_unmap sc1 then mode OR ISOLATE_UNMAPPED else mode)
      in if \<not> sc_may_writepage sc1 then mode OR ISOLATE_CLEAN else mode)"
  have m: "\<not> all_lru_mode m" "has_bits m ISOLATE_ACTIVE = True"
    by (simp_all add: m_def Let_def all_lru_mode_def has_bits_def isolate_defs)
  obtain dst scan u where u: "isolate_lru_pages n z sc1 m True fl (lru_add_drain s) =
      Some (dst, of_nat (length dst), scan, u)" and iso: "pvecs_ok u" "lru_inv_upto (debt u z dst) u"
      "iso_pages u z dst" and one: "\<forall>p \<in> set dst. page_lru (mem_map u p) = iso_lru True fl"
    using isolate_lru_pages_inv [OF mm_inv_lru_add_drain [OF inv], of m True n z sc1 fl] m by blast
  define w where "w = count_vm_events (PGREFILL z) scan
    (add_scanned z fl (of_nat (length dst)) (add_pages_scanned z scan u))"
  have safe: "lru_safe u w"
    unfolding w_def add_pages_scanned_def add_scanned_def
    by (rule lru_safe_trans [OF lru_safe_trans [OF lru_safe_upd_zone lru_safe_upd_zone]
          lru_safe_bookkeeping(1)]) simp_all
  have mem: "mem_map w = mem_map u" by (simp add: w_def)
  let ?init = "(\<lparr>l_active = [], l_inactive = [], nr_rotated = 0\<rparr>,
    mod_zone_page_state z (nr_isolated fl) (of_nat (length dst))
      (mod_zone_page_state z (nr_lru (iso_lru True fl)) (- of_nat (length dst)) w))"
  have hold: "sal_inv z fl (rev dst) ?init"
    by (rule shrink_active_hold [OF iso one safe mem])
  obtain v t where t: "fold (sal_page env) (rev dst) ?init = (v, t)" by (cases "fold (sal_page env) (rev dst) ?init")
  let ?t = "add_rotated z fl (nr_rotated v) t"
  have "sal_inv z fl [] (v, t)" using sal_inv_fold [OF env hold] t by simp
  then have "sal_inv z fl [] (v, ?t)" by (rule sal_inv_safe) blast
  note moved = sal_done_inv [OF this]
  obtain fs x where x: "(let (to_free, s) = move_active_pages_to_lru z (l_active v) [] (iso_lru True fl) ?t
    in move_active_pages_to_lru z (l_inactive v) to_free (iso_lru False fl) s) = (fs, x)"
    by (metis surj_pair)
  have "shrink_active_list env n z sc fl s = Some (sc1, log_free_hot_cold_page_list fs True
      (mod_zone_page_state z (nr_isolated fl) (- of_nat (length dst)) x))"
    using x unfolding shrink_active_list_def Let_def sc1_def [symmetric]
      m_def [unfolded Let_def, symmetric] u option.case prod.case w_def [symmetric] t
    by (simp add: split_beta)
  moreover have "mm_inv x" using moved x by simp
  then have "mm_inv (log_free_hot_cold_page_list fs True
      (mod_zone_page_state z (nr_isolated fl) (- of_nat (length dst)) x))"
    by (intro mm_safe_inv [OF mm_safe_release(3)] mm_safe_inv [OF mm_safe_counters(3)])
  ultimately show ?thesis by blast
qed

lemma shrink_list_inv:
  assumes "env_ok env" "mm_inv s" "scan_size_ok n sc"
    and r: "shrink_list env l n z sc priority s = Some (nr, sc', s')"
  shows "mm_inv s'"
proof -
  obtain sc1 s1 where "shrink_active_list env n z sc (is_file_lru l) s = Some (sc1, s1)" "mm_inv s1"
    using shrink_active_list_inv [OF assms(1,2)] by blast
  then show ?thesis
    using r assms(2) shrink_inactive_list_inv [OF assms(1-3)]
    by (auto simp: shrink_list_def Let_def split: if_splits)
qed

end
