(* ===== verification/Vmscan_Zone.thy ===== *)
theory Vmscan_Zone
  imports Vmscan_Scan "HOL-Library.Signed_Division"
begin

text \<open>
  Reclaim of a zone and direct reclaim, \<^verbatim>\<open>mm/vmscan.c\<close> from \<^verbatim>\<open>vmscan_swappiness\<close> to
  \<^verbatim>\<open>try_to_free_pages\<close>, with the slab shrinkers and the watermark test of \<^verbatim>\<open>mm/page_alloc.c\<close>.
  The kernel is built without memory control groups, compaction and cpusets: \<^verbatim>\<open>mem_cgroup_iter\<close>
  returns \<^verbatim>\<open>NULL\<close>, \<^verbatim>\<open>COMPACTION_BUILD\<close> is 0 and \<^verbatim>\<open>cpuset_zone_allowed_hardwall\<close> returns 1.
\<close>

unbundle bit_operations_syntax

type_synonym u64 = "64 word"


section \<open>State and environment\<close>

text \<open>
  A \<^verbatim>\<open>struct shrinker\<close>: \<open>sh_id\<close> stands for the callback \<^verbatim>\<open>shrink\<close>. The state of a reclaiming task adds
  the registered shrinkers, \<^verbatim>\<open>current->reclaim_state->reclaimed_slab\<close>, or \<open>None\<close> when
  \<^verbatim>\<open>current->reclaim_state\<close> is \<^verbatim>\<open>NULL\<close>, and the two fields of \<^verbatim>\<open>pg_data_t\<close> through which \<^verbatim>\<open>kswapd\<close> is
  asked for work.
\<close>

record shrinker =
  sh_id :: nat
  sh_seeks :: ulong
  sh_batch :: int
  sh_nr_in_batch :: ulong

record 'w rc_state =
  rc_mm :: "'w mm_state"
  rc_shrinkers :: "shrinker list"
  rc_reclaimed_slab :: "ulong option"
  rc_kswapd_max_order :: int
  rc_classzone_idx :: int

text \<open>
  Code outside: the callbacks of the shrinkers, the throttling and waiting functions, the scheduler,
  and tunables.
\<close>

record 'w rc_env =
  r_mm :: "'w mm_env"
  r_vm_swappiness :: int
  r_laptop_mode :: bool
  r_min_free_order_shift :: nat
  r_oom_killer_disabled :: bool
  r_shrink :: "nat \<Rightarrow> ulong \<Rightarrow> ulong \<Rightarrow> 'w rc_state \<Rightarrow> int \<times> 'w rc_state"
  r_shrinker_trylock :: "'w rc_state \<Rightarrow> bool"
  r_throttle_vm_writeout :: "ulong \<Rightarrow> 'w mm_state \<Rightarrow> 'w mm_state"
  r_wait_iff_congested :: "nat option \<Rightarrow> 'w mm_state \<Rightarrow> 'w mm_state"
  r_freezing :: "'w rc_state \<Rightarrow> bool"
  r_kthread_should_stop :: "'w rc_state \<Rightarrow> bool"
  r_try_to_freeze :: "'w rc_state \<Rightarrow> bool \<times> 'w rc_state"
  r_schedule_timeout :: "'w rc_state \<Rightarrow> int \<times> 'w rc_state"
  r_schedule :: "'w rc_state \<Rightarrow> 'w rc_state"
  r_waitqueue_active :: "'w rc_state \<Rightarrow> bool"


section \<open>Zones and watermarks\<close>

definition zone_nr_lru_pages :: "'w mm_state \<Rightarrow> nat \<Rightarrow> lru_list \<Rightarrow> ulong" where
  "zone_nr_lru_pages s z lru = zone_page_state s z (nr_lru lru)"

definition is_highmem_idx :: "nat \<Rightarrow> bool" where
  "is_highmem_idx i \<longleftrightarrow> i = ZONE_HIGHMEM"

abbreviation min_wmark_pages :: "'w mm_state \<Rightarrow> nat \<Rightarrow> ulong" where
  "min_wmark_pages s z \<equiv> watermark (node_zones s z) WMARK_MIN"
abbreviation low_wmark_pages :: "'w mm_state \<Rightarrow> nat \<Rightarrow> ulong" where
  "low_wmark_pages s z \<equiv> watermark (node_zones s z) WMARK_LOW"
abbreviation high_wmark_pages :: "'w mm_state \<Rightarrow> nat \<Rightarrow> ulong" where
  "high_wmark_pages s z \<equiv> watermark (node_zones s z) WMARK_HIGH"

text \<open>
  \<^verbatim>\<open>__zone_watermark_ok\<close>. The locals \<^verbatim>\<open>free_pages\<close> and \<^verbatim>\<open>min\<close> are signed, but \<^verbatim>\<open>lowmem_reserve\<close> is unsigned, so
  the first comparison is unsigned and those of the loop are signed.
\<close>

definition ALLOC_HARDER :: ulong where "ALLOC_HARDER = 0x10"
definition ALLOC_HIGH :: ulong where "ALLOC_HIGH = 0x20"

primrec watermark_loop :: "nat \<Rightarrow> zone \<Rightarrow> nat \<Rightarrow> nat \<Rightarrow> ulong \<Rightarrow> ulong \<Rightarrow> bool" where
  "watermark_loop shift zn o' 0 free mn = True"
| "watermark_loop shift zn o' (Suc n) free mn =
     (let free = free - push_bit o' (nr_free zn o');
          mn = signed_drop_bit shift mn
      in if free \<le>s mn then False else watermark_loop shift zn (Suc o') n free mn)"

definition raw_zone_watermark_ok ::
    "nat \<Rightarrow> zone \<Rightarrow> int \<Rightarrow> ulong \<Rightarrow> nat \<Rightarrow> ulong \<Rightarrow> ulong \<Rightarrow> bool" where
  "raw_zone_watermark_ok shift zn order mark classzone_idx alloc_flags free =
     (let min = mark;
          free = free - (push_bit (nat order) 1 - 1);
          min = (if has_bits alloc_flags ALLOC_HIGH then min - of_int (sint min sdiv 2) else min);
          min = (if has_bits alloc_flags ALLOC_HARDER then min - of_int (sint min sdiv 4) else min)
      in if free \<le> min + lowmem_reserve zn classzone_idx then False
         else watermark_loop shift zn 0 (nat order) free min)"

definition zone_watermark_ok ::
    "'w rc_env \<Rightarrow> 'w mm_state \<Rightarrow> nat \<Rightarrow> int \<Rightarrow> ulong \<Rightarrow> nat \<Rightarrow> ulong \<Rightarrow> bool" where
  "zone_watermark_ok env s z order mark classzone_idx alloc_flags =
     raw_zone_watermark_ok (r_min_free_order_shift env) (node_zones s z) order mark classzone_idx
       alloc_flags (zone_page_state s z NR_FREE_PAGES)"

text \<open>On one processor there is no per-cpu drift, \<^verbatim>\<open>percpu_drift_mark\<close> stays 0.\<close>

definition zone_watermark_ok_safe ::
    "'w rc_env \<Rightarrow> 'w mm_state \<Rightarrow> nat \<Rightarrow> int \<Rightarrow> ulong \<Rightarrow> nat \<Rightarrow> ulong \<Rightarrow> bool" where
  "zone_watermark_ok_safe env s z order mark classzone_idx alloc_flags =
     (let free = zone_page_state s z NR_FREE_PAGES
      in raw_zone_watermark_ok (r_min_free_order_shift env) (node_zones s z) order mark classzone_idx
           alloc_flags free)"

definition global_reclaimable_pages :: "'w mm_state \<Rightarrow> ulong" where
  "global_reclaimable_pages s =
     (let nr = vm_stat_global s NR_ACTIVE_FILE + vm_stat_global s NR_INACTIVE_FILE
      in if nr_swap_pages s > 0
         then nr + (vm_stat_global s NR_ACTIVE_ANON + vm_stat_global s NR_INACTIVE_ANON)
         else nr)"

definition zone_reclaimable_pages :: "'w mm_state \<Rightarrow> nat \<Rightarrow> ulong" where
  "zone_reclaimable_pages s z =
     (let nr = zone_page_state s z NR_ACTIVE_FILE + zone_page_state s z NR_INACTIVE_FILE
      in if nr_swap_pages s > 0
         then nr + (zone_page_state s z NR_ACTIVE_ANON + zone_page_state s z NR_INACTIVE_ANON)
         else nr)"

definition zone_reclaimable :: "'w mm_state \<Rightarrow> nat \<Rightarrow> bool" where
  "zone_reclaimable s z \<longleftrightarrow> pages_scanned (node_zones s z) < zone_reclaimable_pages s z * 6"


section \<open>How much to scan\<close>

text \<open>
  \<^verbatim>\<open>get_scan_count\<close> up to the label \<^verbatim>\<open>out\<close>: \<^verbatim>\<open>noswap\<close>, the two fractions (\<open>True\<close> for file pages) and the
  denominator. The sum \<^verbatim>\<open>ap + fp + 1\<close> is taken at the width of \<^verbatim>\<open>unsigned long\<close>, before it becomes 64 bits
  wide. Division by zero gives 0, as \<^verbatim>\<open>Ldiv0_64\<close> of \<^verbatim>\<open>arch/arm/lib/div64.S\<close> does.
\<close>

definition halve_stats :: "nat \<Rightarrow> bool \<Rightarrow> ulong \<Rightarrow> 'w mm_state \<Rightarrow> 'w mm_state" where
  "halve_stats z b n s =
     (if recent_scanned (node_zones s z) b > n div 4 then
        upd_zone z (\<lambda>zn. zn\<lparr>recent_scanned := (recent_scanned zn)(b := recent_scanned zn b div 2),
                            recent_rotated := (recent_rotated zn)(b := recent_rotated zn b div 2)\<rparr>) s
      else s)"

definition scan_pressure :: "ulong \<Rightarrow> zone \<Rightarrow> bool \<Rightarrow> ulong" where
  "scan_pressure prio zn b = prio * (recent_scanned zn b + 1) div (recent_rotated zn b + 1)"

definition scan_fractions ::
    "'w rc_env \<Rightarrow> nat \<Rightarrow> scan_control \<Rightarrow> 'w mm_state \<Rightarrow> (bool \<times> (bool \<Rightarrow> u64) \<times> u64) \<times> 'w mm_state" where
  "scan_fractions env z sc s =
     (if \<not> sc_may_swap sc \<or> nr_swap_pages s \<le> 0 then ((True, \<lambda>b. if b then 1 else 0, 1), s)
      else
        let anon = zone_nr_lru_pages s z LRU_ACTIVE_ANON + zone_nr_lru_pages s z LRU_INACTIVE_ANON;
            file = zone_nr_lru_pages s z LRU_ACTIVE_FILE + zone_nr_lru_pages s z LRU_INACTIVE_FILE;
            free = zone_page_state s z NR_FREE_PAGES
        in if file + free \<le> high_wmark_pages s z then ((False, \<lambda>b. if b then 0 else 1, 1), s)
           else
             let anon_prio = of_int (r_vm_swappiness env);
                 file_prio = of_int (200 - r_vm_swappiness env);
                 s = halve_stats z False anon s;
                 s = halve_stats z True file s;
                 ap = scan_pressure anon_prio (node_zones s z) False;
                 fp = scan_pressure file_prio (node_zones s z) True
             in ((False, \<lambda>b. if b then ucast fp else ucast ap, ucast (ap + fp + 1)), s))"

definition get_scan_count ::
    "'w rc_env \<Rightarrow> nat \<Rightarrow> scan_control \<Rightarrow> int \<Rightarrow> 'w mm_state \<Rightarrow> (lru_list \<Rightarrow> ulong) \<times> 'w mm_state" where
  "get_scan_count env z sc priority s =
     (let force_scan = (e_current_is_kswapd (r_mm env) \<and> all_unreclaimable (node_zones s z));
          ((noswap, fraction, denominator), s) = scan_fractions env z sc s;
          nr = (\<lambda>lru.
            let scan = zone_nr_lru_pages s z lru
            in if priority \<noteq> 0 \<or> noswap \<or> r_vm_swappiness env = 0 then
                 let scan = drop_bit (nat priority) scan;
                     scan = (if scan = 0 \<and> force_scan then SWAP_CLUSTER_MAX else scan)
                 in ucast (ucast scan * fraction (is_file_lru lru) div denominator)
               else scan)
      in (nr, s))"


section \<open>Reclaiming from a zone\<close>

definition COMPACT_SKIPPED :: ulong where "COMPACT_SKIPPED = 0"
definition COMPACT_CONTINUE :: ulong where "COMPACT_CONTINUE = 1"
definition COMPACT_PARTIAL :: ulong where "COMPACT_PARTIAL = 2"

definition compaction_suitable :: "nat \<Rightarrow> int \<Rightarrow> ulong" where
  "compaction_suitable z order = COMPACT_SKIPPED"

definition GFP_REPEAT :: ulong where "GFP_REPEAT = 0x400"

definition should_continue_reclaim ::
    "nat \<Rightarrow> ulong \<Rightarrow> ulong \<Rightarrow> scan_control \<Rightarrow> 'w mm_state \<Rightarrow> bool" where
  "should_continue_reclaim z reclaimed nr_scanned sc s =
     (if \<not> has_bits (sc_reclaim_mode sc) RECLAIM_MODE_COMPACTION then False
      else if has_bits (sc_gfp_mask sc) GFP_REPEAT \<and> reclaimed = 0 \<and> nr_scanned = 0 then False
      else if \<not> has_bits (sc_gfp_mask sc) GFP_REPEAT \<and> reclaimed = 0 then False
      else
        let pages_for_compaction = push_bit (nat (sc_order sc)) 2;
            inactive_lru_pages = zone_nr_lru_pages s z LRU_INACTIVE_FILE;
            inactive_lru_pages =
              (if nr_swap_pages s > 0 then inactive_lru_pages + zone_nr_lru_pages s z LRU_INACTIVE_ANON
               else inactive_lru_pages)
        in if sc_nr_reclaimed sc < pages_for_compaction \<and> inactive_lru_pages > pages_for_compaction
           then True
           else \<not> (compaction_suitable z (sc_order sc) = COMPACT_PARTIAL \<or>
                   compaction_suitable z (sc_order sc) = COMPACT_CONTINUE))"

text \<open>One round over the lists, and the rounds.\<close>

primrec shrink_lists ::
    "'w rc_env \<Rightarrow> nat \<Rightarrow> int \<Rightarrow> lru_list list \<Rightarrow>
     (lru_list \<Rightarrow> ulong) \<times> ulong \<times> scan_control \<times> 'w mm_state \<Rightarrow>
     ((lru_list \<Rightarrow> ulong) \<times> ulong \<times> scan_control \<times> 'w mm_state) option" where
  "shrink_lists env z priority [] st = Some st"
| "shrink_lists env z priority (lru # lrus) st =
     (let (nr, reclaimed, sc, s) = st
      in if nr lru \<noteq> 0 then
           let nr_to_scan = min (nr lru) SWAP_CLUSTER_MAX;
               nr = nr(lru := nr lru - nr_to_scan)
           in case shrink_list (r_mm env) lru nr_to_scan z sc priority s of
                None \<Rightarrow> None
              | Some (n, sc, s) \<Rightarrow> shrink_lists env z priority lrus (nr, reclaimed + n, sc, s)
         else shrink_lists env z priority lrus st)"

lemma shrink_lists_nr:
  "shrink_lists env z priority lrus (nr, n, sc, s) = Some (nr', n', sc', s') \<Longrightarrow> distinct lrus \<Longrightarrow>
     nr' = (\<lambda>l. if l \<in> set lrus then nr l - min (nr l) SWAP_CLUSTER_MAX else nr l)"
proof (induction lrus arbitrary: nr n sc s)
  case (Cons lru lrus)
  show ?case
  proof (cases "nr lru = 0")
    case True
    then show ?thesis using Cons by (auto simp: fun_eq_iff)
  next
    case False
    then obtain k sc1 s1 where
      "shrink_lists env z priority lrus
         (nr(lru := nr lru - min (nr lru) SWAP_CLUSTER_MAX), n + k, sc1, s1) = Some (nr', n', sc', s')"
      using Cons.prems(1) by (auto simp: Let_def split: option.splits prod.splits)
    from Cons.IH [OF this] Cons.prems(2) show ?thesis by (auto simp: fun_eq_iff)
  qed
qed simp

definition nr_left :: "(lru_list \<Rightarrow> ulong) \<Rightarrow> nat" where
  "nr_left nr = sum_list (map (\<lambda>l. unat (nr l)) evictable_lrus)"

lemma batch_less:
  "unat (n - min n SWAP_CLUSTER_MAX) \<le> unat n" "n \<noteq> 0 \<Longrightarrow> unat (n - min n SWAP_CLUSTER_MAX) < unat n"
proof -
  have "unat (n - min n SWAP_CLUSTER_MAX) = unat n - unat (min n SWAP_CLUSTER_MAX)"
    by (rule unat_sub) simp
  moreover have "n \<noteq> 0 \<Longrightarrow> 0 < unat (min n SWAP_CLUSTER_MAX) \<and> 0 < unat n"
    by (simp add: min_def SWAP_CLUSTER_MAX_def unat_gt_0)
  ultimately show "unat (n - min n SWAP_CLUSTER_MAX) \<le> unat n"
    "n \<noteq> 0 \<Longrightarrow> unat (n - min n SWAP_CLUSTER_MAX) < unat n" by linarith+
qed

lemma nr_left_round:
  assumes "shrink_lists env z priority evictable_lrus (nr, n, sc, s) = Some (nr', n', sc', s')"
    "nr LRU_INACTIVE_ANON \<noteq> 0 \<or> nr LRU_ACTIVE_FILE \<noteq> 0 \<or> nr LRU_INACTIVE_FILE \<noteq> 0"
  shows "nr_left nr' < nr_left nr"
proof -
  have nr': "nr' l = nr l - min (nr l) SWAP_CLUSTER_MAX" if "l \<in> set evictable_lrus" for l
    using shrink_lists_nr [OF assms(1)] that by (simp add: evictable_lrus_def)
  have le: "unat (nr' l) \<le> unat (nr l)" if "l \<in> set evictable_lrus" for l
    unfolding nr' [OF that] by (rule batch_less)
  have lt: "unat (nr' l) < unat (nr l)" if "l \<in> set evictable_lrus" "nr l \<noteq> 0" for l
    unfolding nr' [OF that(1)] by (rule batch_less) (rule that(2))
  show ?thesis
    using assms(2) le [of LRU_INACTIVE_ANON] le [of LRU_ACTIVE_ANON] le [of LRU_INACTIVE_FILE]
      le [of LRU_ACTIVE_FILE] lt [of LRU_INACTIVE_ANON] lt [of LRU_INACTIVE_FILE] lt [of LRU_ACTIVE_FILE]
    unfolding nr_left_def evictable_lrus_def by (elim disjE) simp_all
qed

function shrink_zone_loop ::
    "'w rc_env \<Rightarrow> nat \<Rightarrow> int \<Rightarrow> ulong \<Rightarrow> (lru_list \<Rightarrow> ulong) \<Rightarrow> ulong \<Rightarrow> scan_control \<Rightarrow> 'w mm_state \<Rightarrow>
     (ulong \<times> scan_control \<times> 'w mm_state) option" where
  "shrink_zone_loop env z priority nr_to_reclaim nr reclaimed sc s =
     (if nr LRU_INACTIVE_ANON \<noteq> 0 \<or> nr LRU_ACTIVE_FILE \<noteq> 0 \<or> nr LRU_INACTIVE_FILE \<noteq> 0 then
        case shrink_lists env z priority evictable_lrus (nr, reclaimed, sc, s) of
          None \<Rightarrow> None
        | Some (nr, reclaimed, sc, s) \<Rightarrow>
            if reclaimed \<ge> nr_to_reclaim \<and> priority < DEF_PRIORITY
            then Some (reclaimed, sc, s)
            else shrink_zone_loop env z priority nr_to_reclaim nr reclaimed sc s
      else Some (reclaimed, sc, s))"
  by pat_completeness auto
termination
  by (relation "measure (\<lambda>(env, z, priority, nr_to_reclaim, nr, reclaimed, sc, s). nr_left nr)")
     (auto intro: nr_left_round)

declare shrink_zone_loop.simps [simp del]

partial_function (option) shrink_mem_cgroup_zone ::
    "'w rc_env \<Rightarrow> int \<Rightarrow> nat \<Rightarrow> scan_control \<Rightarrow> 'w mm_state \<Rightarrow> (scan_control \<times> 'w mm_state) option" where
  "shrink_mem_cgroup_zone env priority z sc s =
     (let nr_scanned = sc_nr_scanned sc;
          (nr, s) = get_scan_count env z sc priority s
      in case shrink_zone_loop env z priority (sc_nr_to_reclaim sc) nr 0 sc s of
           None \<Rightarrow> None
         | Some (reclaimed, sc, s) \<Rightarrow>
             let sc = sc\<lparr>sc_nr_reclaimed := sc_nr_reclaimed sc + reclaimed\<rparr>
             in case (if inactive_anon_is_low z s
                      then shrink_active_list (r_mm env) SWAP_CLUSTER_MAX z sc False s
                      else Some (sc, s)) of
                  None \<Rightarrow> None
                | Some (sc, s) \<Rightarrow>
                    if should_continue_reclaim z reclaimed (sc_nr_scanned sc - nr_scanned) sc s
                    then shrink_mem_cgroup_zone env priority z sc s
                    else Some (sc, r_throttle_vm_writeout env (sc_gfp_mask sc) s))"

declare shrink_mem_cgroup_zone.simps [code]

text \<open>Without memory control groups the loop of \<^verbatim>\<open>shrink_zone\<close> runs once and \<^verbatim>\<open>vmpressure\<close> is empty.\<close>

definition shrink_zone ::
    "'w rc_env \<Rightarrow> int \<Rightarrow> nat \<Rightarrow> scan_control \<Rightarrow> 'w mm_state \<Rightarrow> (scan_control \<times> 'w mm_state) option" where
  "shrink_zone env priority z sc s = shrink_mem_cgroup_zone env priority z sc s"

text \<open>
  \<^verbatim>\<open>gfp_zone\<close>, a lookup in \<^verbatim>\<open>GFP_ZONE_TABLE\<close>, which for the zones of this kernel has the entries
  \<^verbatim>\<open>ZONE_HIGHMEM\<close> for \<^verbatim>\<open>__GFP_HIGHMEM\<close> and \<^verbatim>\<open>ZONE_MOVABLE\<close> for \<^verbatim>\<open>__GFP_HIGHMEM | __GFP_MOVABLE\<close>.
\<close>

definition GFP_HIGHMEM :: ulong where "GFP_HIGHMEM = 0x02"
definition GFP_MOVABLE :: ulong where "GFP_MOVABLE = 0x08"
definition GFP_ZONEMASK :: ulong where "GFP_ZONEMASK = 0x0f"
definition ZONES_SHIFT :: nat where "ZONES_SHIFT = 2"

definition GFP_ZONE_TABLE :: ulong where
  "GFP_ZONE_TABLE =
     push_bit (2 * ZONES_SHIFT) (of_nat ZONE_HIGHMEM) OR push_bit ((8 + 2) * ZONES_SHIFT) (of_nat ZONE_MOVABLE)"

definition gfp_zone :: "ulong \<Rightarrow> nat" where
  "gfp_zone flags =
     (let bit = unat (flags AND GFP_ZONEMASK)
      in unat (drop_bit (bit * ZONES_SHIFT) GFP_ZONE_TABLE AND (push_bit ZONES_SHIFT 1 - 1)))"

text \<open>A zonelist of the one node is the list of its zones, in fallback order.\<close>

definition zonelist_upto :: "nat list \<Rightarrow> nat \<Rightarrow> nat list" where
  "zonelist_upto zonelist highest_zoneidx = filter (\<lambda>z. z \<le> highest_zoneidx) zonelist"

primrec shrink_zones_loop ::
    "'w rc_env \<Rightarrow> int \<Rightarrow> nat list \<Rightarrow> scan_control \<times> 'w mm_state \<Rightarrow> (scan_control \<times> 'w mm_state) option" where
  "shrink_zones_loop env priority [] st = Some st"
| "shrink_zones_loop env priority (z # zs) st =
     (let (sc, s) = st
      in if \<not> populated_zone s z then shrink_zones_loop env priority zs st
         else if all_unreclaimable (node_zones s z) \<and> priority \<noteq> DEF_PRIORITY
         then shrink_zones_loop env priority zs st
         else case shrink_zone env priority z sc s of
                None \<Rightarrow> None
              | Some st \<Rightarrow> shrink_zones_loop env priority zs st)"

definition shrink_zones ::
    "'w rc_env \<Rightarrow> int \<Rightarrow> nat list \<Rightarrow> scan_control \<Rightarrow> 'w mm_state \<Rightarrow>
     (bool \<times> scan_control \<times> 'w mm_state) option" where
  "shrink_zones env priority zonelist sc s =
     (let sc = (if e_buffer_heads_over_limit (r_mm env) s
                then sc\<lparr>sc_gfp_mask := sc_gfp_mask sc OR GFP_HIGHMEM\<rparr> else sc);
          aborted_reclaim = False
      in map_option (\<lambda>(sc, s). (aborted_reclaim, sc, s))
           (shrink_zones_loop env priority (zonelist_upto zonelist (gfp_zone (sc_gfp_mask sc))) (sc, s)))"

definition all_unreclaimable_zones :: "nat list \<Rightarrow> scan_control \<Rightarrow> 'w mm_state \<Rightarrow> bool" where
  "all_unreclaimable_zones zonelist sc s \<longleftrightarrow>
     list_all (\<lambda>z. populated_zone s z \<longrightarrow> all_unreclaimable (node_zones s z))
       (zonelist_upto zonelist (gfp_zone (sc_gfp_mask sc)))"


section \<open>Slab shrinkers\<close>

definition register_shrinker :: "shrinker \<Rightarrow> 'w rc_state \<Rightarrow> 'w rc_state" where
  "register_shrinker sh s = s\<lparr>rc_shrinkers := rc_shrinkers s @ [sh\<lparr>sh_nr_in_batch := 0\<rparr>]\<rparr>"

definition unregister_shrinker :: "nat \<Rightarrow> 'w rc_state \<Rightarrow> 'w rc_state" where
  "unregister_shrinker i s = s\<lparr>rc_shrinkers := filter (\<lambda>sh. sh_id sh \<noteq> i) (rc_shrinkers s)\<rparr>"

definition on_mm :: "('w mm_state \<Rightarrow> 'w mm_state) \<Rightarrow> 'w rc_state \<Rightarrow> 'w rc_state" where
  "on_mm f s = s\<lparr>rc_mm := f (rc_mm s)\<rparr>"

definition SHRINK_BATCH :: int where "SHRINK_BATCH = 128"

definition do_shrinker_shrink ::
    "'w rc_env \<Rightarrow> nat \<Rightarrow> ulong \<Rightarrow> ulong \<Rightarrow> 'w rc_state \<Rightarrow> int \<times> 'w rc_state" where
  "do_shrinker_shrink env i gfp_mask nr_to_scan s = r_shrink env i gfp_mask nr_to_scan s"

text \<open>
  The number of objects to scan. \<^verbatim>\<open>total_scan\<close> is a \<^verbatim>\<open>long\<close>, kept as a word and compared signed; \<^verbatim>\<open>delta\<close> is
  64 bits wide.
\<close>

definition slab_delta :: "ulong \<Rightarrow> ulong \<Rightarrow> ulong \<Rightarrow> int \<Rightarrow> u64" where
  "slab_delta seeks nr_pages_scanned lru_pages max_pass =
     (let delta = ucast (4 * nr_pages_scanned div seeks) :: u64;
          delta = delta * of_int max_pass
      in delta div ucast (lru_pages + 1))"

definition slab_total_scan :: "ulong \<Rightarrow> u64 \<Rightarrow> int \<Rightarrow> ulong" where
  "slab_total_scan nr delta max_pass =
     (let total_scan = nr + ucast delta;
          total_scan = (if sint total_scan < 0 then of_int max_pass else total_scan);
          total_scan = (if delta < of_int (max_pass div 4) \<and> sint total_scan > max_pass div 2
                        then of_int (max_pass div 2) else total_scan)
      in if sint total_scan > sint (of_int (max_pass * 2) :: ulong) then of_int (max_pass * 2)
         else total_scan)"

partial_function (option) slab_loop ::
    "'w rc_env \<Rightarrow> nat \<Rightarrow> ulong \<Rightarrow> int \<Rightarrow> ulong \<Rightarrow> ulong \<Rightarrow> 'w rc_state \<Rightarrow> (ulong \<times> ulong \<times> 'w rc_state) option"
where
  "slab_loop env i gfp_mask batch_size total_scan ret s =
     (if sint total_scan \<ge> batch_size then
        let (nr_before, s) = do_shrinker_shrink env i gfp_mask 0 s;
            (shrink_ret, s) = do_shrinker_shrink env i gfp_mask (of_int batch_size) s
        in if shrink_ret = -1 then Some (total_scan, ret, s)
           else
             let ret = (if shrink_ret < nr_before then ret + of_int (nr_before - shrink_ret) else ret);
                 s = on_mm (count_vm_events SLABS_SCANNED (of_int batch_size)) s
             in slab_loop env i gfp_mask batch_size (total_scan - of_int batch_size) ret s
      else Some (total_scan, ret, s))"

declare slab_loop.simps [code]

definition set_nr_in_batch :: "nat \<Rightarrow> ulong \<Rightarrow> 'w rc_state \<Rightarrow> 'w rc_state" where
  "set_nr_in_batch k n s =
     s\<lparr>rc_shrinkers := (rc_shrinkers s)[k := (rc_shrinkers s ! k)\<lparr>sh_nr_in_batch := n\<rparr>]\<rparr>"

definition shrink_slab_one ::
    "'w rc_env \<Rightarrow> ulong \<Rightarrow> ulong \<Rightarrow> ulong \<Rightarrow> nat \<Rightarrow> ulong \<times> 'w rc_state \<Rightarrow> (ulong \<times> 'w rc_state) option"
where
  "shrink_slab_one env gfp_mask nr_pages_scanned lru_pages k st =
     (let (ret, s) = st;
          sh = rc_shrinkers s ! k;
          batch_size = (if sh_batch sh \<noteq> 0 then sh_batch sh else SHRINK_BATCH);
          (max_pass, s) = do_shrinker_shrink env (sh_id sh) gfp_mask 0 s
      in if max_pass \<le> 0 then Some (ret, s)
         else
           let nr = sh_nr_in_batch (rc_shrinkers s ! k);
               s = set_nr_in_batch k 0 s;
               delta = slab_delta (sh_seeks sh) nr_pages_scanned lru_pages max_pass;
               total_scan = slab_total_scan nr delta max_pass
           in case slab_loop env (sh_id sh) gfp_mask batch_size total_scan ret s of
                None \<Rightarrow> None
              | Some (total_scan, ret, s) \<Rightarrow>
                  Some (ret, if sint total_scan > 0
                             then set_nr_in_batch k (sh_nr_in_batch (rc_shrinkers s ! k) + total_scan) s
                             else s))"

primrec shrink_slab_loop ::
    "'w rc_env \<Rightarrow> ulong \<Rightarrow> ulong \<Rightarrow> ulong \<Rightarrow> nat list \<Rightarrow> ulong \<times> 'w rc_state \<Rightarrow> (ulong \<times> 'w rc_state) option"
where
  "shrink_slab_loop env gfp_mask nr_pages_scanned lru_pages [] st = Some st"
| "shrink_slab_loop env gfp_mask nr_pages_scanned lru_pages (k # ks) st =
     (case shrink_slab_one env gfp_mask nr_pages_scanned lru_pages k st of
        None \<Rightarrow> None
      | Some st \<Rightarrow> shrink_slab_loop env gfp_mask nr_pages_scanned lru_pages ks st)"

definition shrink_slab ::
    "'w rc_env \<Rightarrow> ulong \<Rightarrow> ulong \<Rightarrow> ulong \<Rightarrow> 'w rc_state \<Rightarrow> (ulong \<times> 'w rc_state) option" where
  "shrink_slab env gfp_mask nr_pages_scanned lru_pages s =
     (let nr_pages_scanned = (if nr_pages_scanned = 0 then SWAP_CLUSTER_MAX else nr_pages_scanned)
      in if \<not> r_shrinker_trylock env s then Some (1, s)
         else shrink_slab_loop env gfp_mask nr_pages_scanned lru_pages
                [0..<length (rc_shrinkers s)] (0, s))"


section \<open>Direct reclaim\<close>

definition sum_reclaimable :: "nat list \<Rightarrow> 'w mm_state \<Rightarrow> ulong" where
  "sum_reclaimable zs s = fold (\<lambda>z lru_pages. lru_pages + zone_reclaimable_pages s z) zs 0"

text \<open>The shrinkers' part of one pass, with the credit of \<^verbatim>\<open>reclaim_state->reclaimed_slab\<close>.\<close>

definition reclaim_slab ::
    "'w rc_env \<Rightarrow> nat list \<Rightarrow> ulong \<Rightarrow> scan_control \<times> 'w rc_state \<Rightarrow> (scan_control \<times> 'w rc_state) option"
where
  "reclaim_slab env zonelist shrink_gfp st =
     (let (sc, s) = st;
          lru_pages = sum_reclaimable (zonelist_upto zonelist (gfp_zone (sc_gfp_mask sc))) (rc_mm s)
      in case shrink_slab env shrink_gfp (sc_nr_scanned sc) lru_pages s of
           None \<Rightarrow> None
         | Some (_, s) \<Rightarrow>
             Some (case rc_reclaimed_slab s of
                     None \<Rightarrow> (sc, s)
                   | Some n \<Rightarrow> (sc\<lparr>sc_nr_reclaimed := sc_nr_reclaimed sc + n\<rparr>,
                               s\<lparr>rc_reclaimed_slab := Some 0\<rparr>)))"

text \<open>What follows a pass that did not reclaim enough: start writeback and take a nap.\<close>

definition writeback_and_nap ::
    "'w rc_env \<Rightarrow> nat list \<Rightarrow> int \<Rightarrow> ulong \<Rightarrow> scan_control \<times> 'w rc_state \<Rightarrow> scan_control \<times> 'w rc_state"
where
  "writeback_and_nap env zonelist priority total_scanned st =
     (let (sc, s) = st;
          writeback_threshold = sc_nr_to_reclaim sc + sc_nr_to_reclaim sc div 2;
          (sc, s) =
            (if total_scanned > writeback_threshold then
               (sc\<lparr>sc_may_writepage := True\<rparr>,
                on_mm (kcall (Wakeup_flusher_threads (if r_laptop_mode env then 0 else total_scanned))) s)
             else (sc, s))
      in if \<not> sc_hibernation_mode sc \<and> sc_nr_scanned sc \<noteq> 0 \<and> priority < DEF_PRIORITY - 2 then
           let preferred_zone =
                 (case zonelist_upto zonelist (gfp_zone (sc_gfp_mask sc)) of [] \<Rightarrow> None | z # _ \<Rightarrow> Some z)
           in (sc, on_mm (r_wait_iff_congested env preferred_zone) s)
         else (sc, s))"

text \<open>The passes at priorities \<open>n - 1, \<dots>, 0\<close>.\<close>

primrec free_pages_loop ::
    "'w rc_env \<Rightarrow> nat list \<Rightarrow> ulong \<Rightarrow> nat \<Rightarrow> bool \<Rightarrow> ulong \<Rightarrow> scan_control \<times> 'w rc_state \<Rightarrow>
     (bool \<times> scan_control \<times> 'w rc_state) option" where
  "free_pages_loop env zonelist shrink_gfp 0 aborted_reclaim total_scanned st =
     Some (aborted_reclaim, st)"
| "free_pages_loop env zonelist shrink_gfp (Suc n) aborted_reclaim total_scanned st =
     (let (sc, s) = st;
          priority = int n;
          sc = sc\<lparr>sc_nr_scanned := 0\<rparr>;
          s = (if priority = 0 then on_mm (kcall Disable_swap_token) s else s)
      in case shrink_zones env priority zonelist sc (rc_mm s) of
           None \<Rightarrow> None
         | Some (aborted_reclaim, sc, m) \<Rightarrow>
             (case reclaim_slab env zonelist shrink_gfp (sc, s\<lparr>rc_mm := m\<rparr>) of
                None \<Rightarrow> None
              | Some (sc, s) \<Rightarrow>
                  let total_scanned = total_scanned + sc_nr_scanned sc
                  in if sc_nr_reclaimed sc \<ge> sc_nr_to_reclaim sc then Some (aborted_reclaim, sc, s)
                     else free_pages_loop env zonelist shrink_gfp n aborted_reclaim total_scanned
                            (writeback_and_nap env zonelist priority total_scanned (sc, s))))"

definition do_try_to_free_pages ::
    "'w rc_env \<Rightarrow> nat list \<Rightarrow> ulong \<Rightarrow> scan_control \<times> 'w rc_state \<Rightarrow>
     (ulong \<times> scan_control \<times> 'w rc_state) option" where
  "do_try_to_free_pages env zonelist shrink_gfp st =
     (let (sc, s) = st;
          s = on_mm (count_vm_events ALLOCSTALL 1) s
      in case free_pages_loop env zonelist shrink_gfp (nat (DEF_PRIORITY + 1)) False 0 (sc, s) of
           None \<Rightarrow> None
         | Some (aborted_reclaim, sc, s) \<Rightarrow>
             Some (if sc_nr_reclaimed sc \<noteq> 0 then sc_nr_reclaimed sc
                   else if r_oom_killer_disabled env then 0
                   else if aborted_reclaim then 1
                   else if \<not> all_unreclaimable_zones zonelist sc (rc_mm s) then 1
                   else 0, sc, s))"

text \<open>Fields of \<^verbatim>\<open>struct scan_control\<close> that the initialiser does not name are 0.\<close>

definition try_to_free_pages ::
    "'w rc_env \<Rightarrow> nat list \<Rightarrow> int \<Rightarrow> ulong \<Rightarrow> 'w rc_state \<Rightarrow> (ulong \<times> 'w rc_state) option" where
  "try_to_free_pages env zonelist order gfp_mask s =
     (let sc = \<lparr>sc_nr_scanned = 0, sc_nr_reclaimed = 0, sc_nr_to_reclaim = SWAP_CLUSTER_MAX,
                sc_hibernation_mode = False, sc_gfp_mask = gfp_mask,
                sc_may_writepage = \<not> r_laptop_mode env, sc_may_unmap = True, sc_may_swap = True,
                sc_order = order, sc_reclaim_mode = 0\<rparr>
      in map_option (\<lambda>(n, sc, s). (n, s)) (do_try_to_free_pages env zonelist gfp_mask (sc, s)))"

end
