(* ===== verification/Vmscan_Reclaim.thy ===== *)
theory Vmscan_Reclaim
  imports Vmscan_Zone
begin

text \<open>
  The LRU invariant through zone reclaim and direct reclaim, from \<^verbatim>\<open>shrink_lists\<close> up to \<^verbatim>\<open>try_to_free_pages\<close>.
\<close>

section \<open>What reclaim leaves of its control structure\<close>

text \<open>The order stays, and compaction, which this kernel does not have, is never asked for.\<close>

definition sc_kept :: "scan_control \<Rightarrow> scan_control \<Rightarrow> bool" where
  "sc_kept sc sc' \<longleftrightarrow>
     sc_order sc' = sc_order sc \<and> sc_gfp_mask sc' = sc_gfp_mask sc \<and> sc_nr_to_reclaim sc' = sc_nr_to_reclaim sc \<and>
     (\<not> has_bits (sc_reclaim_mode sc) RECLAIM_MODE_COMPACTION \<longrightarrow> \<not> has_bits (sc_reclaim_mode sc') RECLAIM_MODE_COMPACTION)"

lemma sc_kept_refl [simp, intro]: "sc_kept sc sc"
  by (simp add: sc_kept_def)

lemma sc_kept_trans: "sc_kept a b \<Longrightarrow> sc_kept b c \<Longrightarrow> sc_kept a c"
  by (simp add: sc_kept_def)

lemma sc_kept_counts [simp]:
  "sc_kept sc (sc'\<lparr>sc_nr_scanned := n\<rparr>) = sc_kept sc sc'" "sc_kept sc (sc'\<lparr>sc_nr_reclaimed := n\<rparr>) = sc_kept sc sc'"
  "sc_kept sc (sc'\<lparr>sc_may_writepage := b\<rparr>) = sc_kept sc sc'"
  by (simp_all add: sc_kept_def)

lemma sc_kept_modes [simp, intro]: "sc_kept sc (reset_reclaim_mode sc)" "sc_kept sc (set_reclaim_mode priority sync sc)"
  by (simp_all add: sc_kept_def reset_reclaim_mode_def set_reclaim_mode_def has_bits_def mode_defs Let_def)

lemma spl_release_sc: "spl_release env p m (v, sc, s) = Some (l, v', sc', s') \<Longrightarrow> sc' = sc"
  by (auto simp: spl_release_def Let_def split: if_splits prod.splits option.splits)

lemma spl_dirty_sc: "spl_dirty env priority p r b m (v, sc, s) = Some (l, v', sc', s') \<Longrightarrow> sc' = sc"
  by (auto simp: spl_dirty_def Let_def dest: spl_release_sc split: if_splits prod.splits pageout_t.splits)

lemma spl_unmap_sc: "spl_unmap env priority p r b (v, sc, s) = Some (l, v', sc', s') \<Longrightarrow> sc' = sc"
  by (auto simp: spl_unmap_def Let_def dest: spl_dirty_sc split: if_splits prod.splits swap_result.splits)

lemma spl_references_sc: "spl_references env priority p (v, sc, s) = Some (l, v', sc', s') \<Longrightarrow> sc' = sc"
  by (auto simp: spl_references_def Let_def dest: spl_unmap_sc split: if_splits prod.splits page_references.splits)

lemma spl_page_sc: "spl_page env priority p (v, sc, s) = Some (l, v', sc', s') \<Longrightarrow> sc_kept sc sc'"
  by (auto simp: spl_page_def Let_def dest!: spl_references_sc split: if_splits prod.splits)

lemma spl_label_code_sc: "spl_label_code env p l (v, sc, s) = (v', sc', s') \<Longrightarrow> sc_kept sc sc'"
  by (auto simp: spl_label_code_def spl_keep_locked_def spl_keep_def spl_keep_lumpy_def Let_def split: spl_label.splits)

lemma spl_loop_sc: "spl_loop env priority ps (v, sc, s) = Some (v', sc', s') \<Longrightarrow> sc_kept sc sc'"
proof (induction ps arbitrary: v sc s)
  case (Cons p ps)
  obtain l v1 sc1 s1 where a: "spl_page env priority p (v, sc, s) = Some (l, v1, sc1, s1)"
    using Cons.prems by (auto split: option.splits)
  obtain v2 sc2 s2 where b: "spl_label_code env p l (v1, sc1, s1) = (v2, sc2, s2)" by (rule prod_cases3)
  have "spl_loop env priority ps (v2, sc2, s2) = Some (v', sc', s')" using Cons.prems a b by simp
  then show ?case using spl_page_sc [OF a] spl_label_code_sc [OF b] Cons.IH by (blast intro: sc_kept_trans)
qed simp

lemma shrink_page_list_sc: "shrink_page_list env ps z sc priority d w s = Some r \<Longrightarrow> sc_kept sc (spl_sc r)"
  by (auto simp: shrink_page_list_def Let_def dest!: spl_loop_sc split: option.splits)

lemma shrink_isolated_sc: "shrink_isolated env ps n z sc priority s = Some (k, sc', s') \<Longrightarrow> sc_kept sc sc'"
  by (auto simp: shrink_isolated_def Let_def dest!: shrink_page_list_sc intro: sc_kept_trans
      split: option.splits prod.splits if_splits) (meson sc_kept_modes(2) sc_kept_trans)

lemma shrink_inactive_list_sc: "shrink_inactive_list env n z sc priority fl s = Some (k, sc', s') \<Longrightarrow> sc_kept sc sc'"
  by (auto simp: shrink_inactive_list_def Let_def dest!: shrink_isolated_sc split: option.splits prod.splits if_splits)
    (meson sc_kept_modes(2) sc_kept_trans)+

lemma shrink_active_list_sc: "shrink_active_list env n z sc fl s = Some (sc', s') \<Longrightarrow> sc_kept sc sc'"
  by (auto simp: shrink_active_list_def Let_def split: option.splits prod.splits)

lemma shrink_list_sc: "shrink_list env l n z sc priority s = Some (k, sc', s') \<Longrightarrow> sc_kept sc sc'"
  by (auto simp: shrink_list_def Let_def dest: shrink_active_list_sc shrink_inactive_list_sc split: if_splits)



section \<open>The invariant\<close>

text \<open>The functions of the environment that zone reclaim adds are safe steps too.\<close>

definition rc_env_ok :: "'w rc_env \<Rightarrow> bool" where
  "rc_env_ok env \<longleftrightarrow>
     env_ok (r_mm env) \<and>
     (\<forall>i g n s. mm_safe (rc_mm s) (rc_mm (snd (r_shrink env i g n s)))) \<and>
     (\<forall>g s. mm_safe s (r_throttle_vm_writeout env g s)) \<and> (\<forall>z s. mm_safe s (r_wait_iff_congested env z s))"

lemma mm_safe_halve_stats: "mm_safe s (halve_stats z b n s)"
  unfolding halve_stats_def by (auto intro!: mm_safe_lru_safe lru_safe_upd_zone)

lemma get_scan_count_inv: "get_scan_count env z sc priority s = (nr, s') \<Longrightarrow> mm_inv s \<Longrightarrow> mm_inv s'"
  by (auto simp: get_scan_count_def scan_fractions_def Let_def split: if_splits prod.splits
      intro: mm_safe_inv [OF mm_safe_trans [OF mm_safe_halve_stats mm_safe_halve_stats]])

lemma shrink_lists_inv:
  assumes "rc_env_ok env" "mm_inv s" "sc_order sc < 11"
    and "shrink_lists env z priority lrus (nr, n, sc, s) = Some (nr', n', sc', s')"
  shows "mm_inv s' \<and> sc_kept sc sc'"
  using assms(2-)
proof (induction lrus arbitrary: nr n sc s)
  case (Cons lru lrus)
  show ?case
  proof (cases "nr lru = 0")
    case True
    then show ?thesis using Cons by simp
  next
    case False
    let ?n = "min (nr lru) SWAP_CLUSTER_MAX"
    obtain k sc1 s1 where r: "shrink_list (r_mm env) lru ?n z sc priority s = Some (k, sc1, s1)"
      and rest: "shrink_lists env z priority lrus (nr(lru := nr lru - ?n), n + k, sc1, s1) = Some (nr', n', sc', s')"
      using Cons.prems(3) False by (auto simp: Let_def split: option.splits prod.splits)
    have "env_ok (r_mm env)" using assms(1) by (simp add: rc_env_ok_def)
    moreover have "scan_size_ok ?n sc" using Cons.prems(2) by (simp add: scan_size_ok_def)
    ultimately have "mm_inv s1" using shrink_list_inv [OF _ Cons.prems(1) _ r] by simp
    moreover have k: "sc_kept sc sc1" by (rule shrink_list_sc [OF r])
    ultimately show ?thesis
      using Cons.IH [OF _ _ rest] Cons.prems(2) sc_kept_trans [OF k] by (simp add: sc_kept_def [of sc sc1])
  qed
qed simp

lemma shrink_zone_loop_inv:
  assumes "rc_env_ok env" "mm_inv s" "sc_order sc < 11"
    and "shrink_zone_loop env z priority k nr n sc s = Some (n', sc', s')"
  shows "mm_inv s' \<and> sc_kept sc sc'"
  using assms
proof (induction env z priority k nr n sc s rule: shrink_zone_loop.induct)
  case (1 env z priority k nr n sc s)
  show ?case
  proof (cases "nr LRU_INACTIVE_ANON \<noteq> 0 \<or> nr LRU_ACTIVE_FILE \<noteq> 0 \<or> nr LRU_INACTIVE_FILE \<noteq> 0")
    case False
    then show ?thesis using "1.prems" by (subst (asm) shrink_zone_loop.simps) simp
  next
    case True
    then obtain nr1 n1 sc1 s1 where r: "shrink_lists env z priority evictable_lrus (nr, n, sc, s) = Some (nr1, n1, sc1, s1)"
      using "1.prems"(4) by (subst (asm) shrink_zone_loop.simps) (auto split: option.splits)
    have inv: "mm_inv s1" "sc_kept sc sc1" using shrink_lists_inv [OF "1.prems"(1-3) r] by simp_all
    show ?thesis
    proof (cases "n1 \<ge> k \<and> priority < DEF_PRIORITY")
      case enough: True
      then show ?thesis using inv "1.prems"(4) True r by (subst (asm) shrink_zone_loop.simps) simp
    next
      case False
      have rest: "shrink_zone_loop env z priority k nr1 n1 sc1 s1 = Some (n', sc', s')"
        using "1.prems"(4) True r False by (subst (asm) shrink_zone_loop.simps) (auto split: if_splits)
      have "sc_order sc1 < 11" using inv(2) "1.prems"(3) by (simp add: sc_kept_def)
      with "1.IH" [OF True r refl refl refl False "1.prems"(1) inv(1) _ rest] show ?thesis
        using sc_kept_trans [OF inv(2)] by blast
    qed
  qed
qed


text \<open>
  One pass over a zone. Compaction is the only reason for another one, so the loop over \<^verbatim>\<open>restart\<close> runs once.
\<close>

lemma shrink_zone_inv:
  assumes env: "rc_env_ok env" and inv: "mm_inv s" and ord: "sc_order sc < 11"
    and mode: "\<not> has_bits (sc_reclaim_mode sc) RECLAIM_MODE_COMPACTION"
    and r: "shrink_zone env priority z sc s = Some (sc', s')"
  shows "mm_inv s' \<and> sc_kept sc sc'"
proof -
  obtain nr t where t: "get_scan_count env z sc priority s = (nr, t)" by (rule prod.exhaust)
  have ti: "mm_inv t" by (rule get_scan_count_inv [OF t inv])
  obtain n1 sc1 s1 where l: "shrink_zone_loop env z priority (sc_nr_to_reclaim sc) nr 0 sc t = Some (n1, sc1, s1)"
    using r [unfolded shrink_zone_def] t by (subst (asm) shrink_mem_cgroup_zone.simps) (auto simp: Let_def split: option.splits)
  have l1: "mm_inv s1" "sc_kept sc sc1" using shrink_zone_loop_inv [OF env ti ord l] by simp_all
  define sc2 where "sc2 = sc1\<lparr>sc_nr_reclaimed := sc_nr_reclaimed sc1 + n1\<rparr>"
  have "env_ok (r_mm env)" using env by (simp add: rc_env_ok_def)
  then obtain sc4 s4 where s4: "shrink_active_list (r_mm env) SWAP_CLUSTER_MAX z sc2 False s1 = Some (sc4, s4)" "mm_inv s4"
    using shrink_active_list_inv [OF _ l1(1)] by blast
  obtain sc3 s3 where a: "(if inactive_anon_is_low z s1 then shrink_active_list (r_mm env) SWAP_CLUSTER_MAX z sc2 False s1
      else Some (sc2, s1)) = Some (sc3, s3)"
    using s4(1) by (cases "inactive_anon_is_low z s1") simp_all
  have "mm_inv s3 \<and> sc_kept sc2 sc3"
    using a s4 l1(1) shrink_active_list_sc [OF s4(1)] by (auto split: if_splits)
  moreover have "sc_kept sc sc2" using l1(2) by (simp add: sc2_def)
  ultimately have s3: "mm_inv s3" "sc_kept sc sc3" by (blast intro: sc_kept_trans)+
  have "\<not> should_continue_reclaim z n1 (sc_nr_scanned sc3 - sc_nr_scanned sc) sc3 s3"
    using s3(2) mode by (simp add: should_continue_reclaim_def sc_kept_def)
  then have "sc' = sc3 \<and> s' = r_throttle_vm_writeout env (sc_gfp_mask sc3) s3"
    using r [unfolded shrink_zone_def] t l a
    by (subst (asm) shrink_mem_cgroup_zone.simps) (simp only: Let_def prod.case option.case if_False sc2_def option.inject prod.inject simp_thms, auto)
  moreover have "mm_safe s3 (r_throttle_vm_writeout env (sc_gfp_mask sc3) s3)" using env by (simp add: rc_env_ok_def)
  ultimately show ?thesis using s3 mm_safe_inv by blast
qed

abbreviation sc_ready :: "scan_control \<Rightarrow> bool" where
  "sc_ready sc \<equiv> sc_order sc < 11 \<and> \<not> has_bits (sc_reclaim_mode sc) RECLAIM_MODE_COMPACTION"

lemma sc_ready_kept: "sc_kept sc sc' \<Longrightarrow> sc_ready sc \<Longrightarrow> sc_ready sc'"
  by (simp add: sc_kept_def)

lemma shrink_zones_loop_inv:
  assumes env: "rc_env_ok env" and "mm_inv s" "sc_ready sc" "shrink_zones_loop env priority zs (sc, s) = Some (sc', s')"
  shows "mm_inv s' \<and> sc_ready sc'"
  using assms(2-)
proof (induction zs arbitrary: sc s)
  case (Cons z zs)
  show ?case
  proof (cases "\<not> populated_zone s z \<or> all_unreclaimable (node_zones s z) \<and> priority \<noteq> DEF_PRIORITY")
    case True
    then show ?thesis using Cons by (auto split: if_splits)
  next
    case False
    then obtain sc1 s1 where r: "shrink_zone env priority z sc s = Some (sc1, s1)"
      and rest: "shrink_zones_loop env priority zs (sc1, s1) = Some (sc', s')"
      using Cons.prems(3) by (auto split: option.splits if_splits)
    then show ?thesis
      using shrink_zone_inv [OF env Cons.prems(1) _ _ r] Cons.prems(2) Cons.IH [OF _ _ rest] sc_ready_kept by blast
  qed
qed simp

lemma shrink_zones_inv:
  assumes "rc_env_ok env" "mm_inv s" "sc_ready sc" "shrink_zones env priority zl sc s = Some (b, sc', s')"
  shows "mm_inv s' \<and> sc_ready sc'"
  using assms by (auto simp: shrink_zones_def Let_def dest!: shrink_zones_loop_inv [rotated 3] split: if_splits)



section \<open>Shrinkers and direct reclaim\<close>

abbreviation rc_safe :: "'w rc_state \<Rightarrow> 'w rc_state \<Rightarrow> bool" where
  "rc_safe s s' \<equiv> mm_safe (rc_mm s) (rc_mm s')"

lemma rc_safe_shrink:
  assumes "rc_env_ok env" "do_shrinker_shrink env i g n s = (k, s')"
  shows "rc_safe s s'"
  using assms by (auto simp: rc_env_ok_def do_shrinker_shrink_def) (metis snd_conv)

lemma slab_loop_safe:
  assumes "slab_loop env i g batch tot ret s = Some x" "rc_env_ok env"
  shows "rc_safe s (snd (snd x))"
  using assms
proof (induction rule: slab_loop.raw_induct [rotated 1, consumes 1])
  case (1 f env i g batch tot ret s x)
  obtain nb t where t: "do_shrinker_shrink env i g 0 s = (nb, t)" by (rule prod.exhaust)
  obtain k u where u: "do_shrinker_shrink env i g (of_int batch) t = (k, u)" by (rule prod.exhaust)
  have tu: "rc_safe s u" by (rule mm_safe_trans [OF rc_safe_shrink [OF "1.prems" t] rc_safe_shrink [OF "1.prems" u]])
  let ?u = "on_mm (count_vm_events SLABS_SCANNED (of_int batch)) u"
  have "rc_safe s ?u" using mm_safe_trans [OF tu mm_safe_release(4)] by (simp add: on_mm_def)
  then have "f env i g batch tot' ret' ?u = Some x \<Longrightarrow> rc_safe s (snd (snd x))" for tot' ret'
    using mm_safe_trans [OF _ "1.IH" [OF _ "1.prems"]] by blast
  then show ?case
    using "1.hyps" t u tu by (auto simp: Let_def split: if_splits)
qed

lemma set_nr_in_batch_mm [simp]: "rc_mm (set_nr_in_batch k n s) = rc_mm s"
  by (simp add: set_nr_in_batch_def)

lemma shrink_slab_one_safe:
  assumes "rc_env_ok env" "shrink_slab_one env g np lp k (ret, s) = Some (ret', s')"
  shows "rc_safe s s'"
proof -
  obtain m t where t: "do_shrinker_shrink env (sh_id (rc_shrinkers s ! k)) g 0 s = (m, t)" by (rule prod.exhaust)
  have "rc_safe s t" by (rule rc_safe_shrink [OF assms(1) t])
  moreover have "rc_safe t s'"
    using assms t by (auto simp: shrink_slab_one_def Let_def dest!: slab_loop_safe split: if_splits option.splits)
  ultimately show ?thesis by (rule mm_safe_trans)
qed

lemma shrink_slab_safe:
  assumes "rc_env_ok env" "shrink_slab env g np lp s = Some (ret, s')"
  shows "rc_safe s s'"
proof -
  have "shrink_slab_loop env g n lp ks (r, t) = Some (r', t') \<Longrightarrow> rc_safe t t'" for n ks r t r' t'
  proof (induction ks arbitrary: r t)
    case (Cons k ks)
    obtain r1 t1 where "shrink_slab_one env g n lp k (r, t) = Some (r1, t1)"
      "shrink_slab_loop env g n lp ks (r1, t1) = Some (r', t')"
      using Cons.prems by (auto split: option.splits)
    then show ?case using mm_safe_trans [OF shrink_slab_one_safe [OF assms(1)] Cons.IH] by blast
  qed simp
  then show ?thesis using assms(2) by (auto simp: shrink_slab_def Let_def split: if_splits)
qed

lemma reclaim_slab_inv:
  assumes "rc_env_ok env" "mm_inv (rc_mm s)" "reclaim_slab env zl g (sc, s) = Some (sc', s')"
  shows "mm_inv (rc_mm s') \<and> sc_kept sc sc'"
proof -
  obtain r t where t: "shrink_slab env g (sc_nr_scanned sc)
      (sum_reclaimable (zonelist_upto zl (gfp_zone (sc_gfp_mask sc))) (rc_mm s)) s = Some (r, t)"
    using assms(3) by (auto simp: reclaim_slab_def Let_def split: option.splits)
  have "mm_inv (rc_mm t)" by (rule mm_safe_inv [OF shrink_slab_safe [OF assms(1) t] assms(2)])
  then show ?thesis using assms(3) t by (auto simp: reclaim_slab_def Let_def split: option.splits)
qed

lemma writeback_and_nap_inv:
  assumes "rc_env_ok env" "mm_inv (rc_mm s)" "writeback_and_nap env zl priority n (sc, s) = (sc', s')"
  shows "mm_inv (rc_mm s') \<and> sc_kept sc sc'"
proof -
  have k: "mm_inv (kcall c m)" if "mm_inv m" for c and m :: "'a mm_state" by (rule mm_safe_inv [OF mm_safe_release(5) that])
  have w: "mm_inv (r_wait_iff_congested env z m)" if "mm_inv m" for z m
    by (rule mm_safe_inv [where A = "{}", OF _ that]) (use assms(1) in \<open>simp add: rc_env_ok_def\<close>)
  show ?thesis
    using assms(2,3) by (auto simp: writeback_and_nap_def Let_def on_mm_def k w split: if_splits)
qed

lemma free_pages_loop_inv:
  assumes "rc_env_ok env" "mm_inv (rc_mm s)" "sc_ready sc"
    and "free_pages_loop env zl g n b tot (sc, s) = Some (b', sc', s')"
  shows "mm_inv (rc_mm s')"
  using assms(2-)
proof (induction n arbitrary: b tot sc s)
  case (Suc n)
  let ?sc = "sc\<lparr>sc_nr_scanned := 0\<rparr>" and ?s = "if int n = 0 then on_mm (kcall Disable_swap_token) s else s"
  have s: "mm_inv (rc_mm ?s)" using mm_safe_inv [OF mm_safe_release(5) Suc.prems(1)] Suc.prems(1) by (simp add: on_mm_def)
  obtain b1 sc1 m where z: "shrink_zones env (int n) zl ?sc (rc_mm ?s) = Some (b1, sc1, m)"
    using Suc.prems(3) by (auto simp: Let_def split: option.splits)
  have z1: "mm_inv m" "sc_ready sc1" using shrink_zones_inv [OF assms(1) s _ z] Suc.prems(2) by simp_all
  obtain sc2 s2 where l: "reclaim_slab env zl g (sc1, ?s\<lparr>rc_mm := m\<rparr>) = Some (sc2, s2)"
    using Suc.prems(3) z by (auto simp: Let_def split: option.splits)
  have l1: "mm_inv (rc_mm s2)" "sc_ready sc2"
    using reclaim_slab_inv [OF assms(1) _ l] z1 sc_ready_kept by auto
  obtain sc3 s3 where w: "writeback_and_nap env zl (int n) (tot + sc_nr_scanned sc2) (sc2, s2) = (sc3, s3)"
    by (rule prod.exhaust)
  have w1: "mm_inv (rc_mm s3)" "sc_ready sc3"
    using writeback_and_nap_inv [OF assms(1) l1(1) w] l1(2) sc_ready_kept by auto
  show ?case
    using Suc.prems(3) z l w l1(1) Suc.IH [OF w1] by (auto simp: Let_def split: if_splits)
qed simp

lemma try_to_free_pages_inv:
  assumes "rc_env_ok env" "mm_inv (rc_mm s)" "order < 11"
    and "try_to_free_pages env zl order gfp_mask s = Some (n, s')"
  shows "mm_inv (rc_mm s')"
proof -
  have "mm_inv (rc_mm (on_mm (count_vm_events ALLOCSTALL 1) s))"
    using mm_safe_inv [OF mm_safe_release(4) assms(2)] by (simp add: on_mm_def)
  then show ?thesis
    using assms(3,4)
    by (auto simp: try_to_free_pages_def do_try_to_free_pages_def Let_def has_bits_def
        elim!: free_pages_loop_inv [OF assms(1), rotated 2] split: option.splits)
qed

end
