(* ===== verification/Vmscan_Kswapd.thy ===== *)
theory Vmscan_Kswapd
  imports Vmscan_Reclaim
begin

text \<open>
  The background reclaimer, \<^verbatim>\<open>mm/vmscan.c\<close> from \<^verbatim>\<open>age_active_anon\<close> to \<^verbatim>\<open>wakeup_kswapd\<close>, and
  \<^verbatim>\<open>check_move_unevictable_pages\<close>. There is one node; without compaction \<^verbatim>\<open>compact_pgdat\<close> is empty, and without
  memory control groups the soft limit reclaims nothing. \<^verbatim>\<open>cond_resched\<close> and the thresholds of per-processor
  counters do nothing here.
\<close>

section \<open>Balance of the node\<close>

definition zone_clear_flag :: "nat \<Rightarrow> zone_flags_t \<Rightarrow> 'w mm_state \<Rightarrow> 'w mm_state" where
  "zone_clear_flag z f = upd_zone z (\<lambda>zn. zn\<lparr>zone_flags := (zone_flags zn)(f := False)\<rparr>)"

definition age_active_anon ::
    "'w rc_env \<Rightarrow> nat \<Rightarrow> scan_control \<Rightarrow> 'w mm_state \<Rightarrow> (scan_control \<times> 'w mm_state) option" where
  "age_active_anon env z sc s =
     (if total_swap_pages s = 0 then Some (sc, s)
      else if inactive_anon_is_low z s then shrink_active_list (r_mm env) SWAP_CLUSTER_MAX z sc False s
      else Some (sc, s))"

definition zones_upto :: "int \<Rightarrow> nat list" where
  "zones_upto i = [0..<nat (i + 1)]"

definition pgdat_balanced :: "ulong \<Rightarrow> int \<Rightarrow> 'w mm_state \<Rightarrow> bool" where
  "pgdat_balanced balanced_pages classzone_idx s =
     (let present = fold (\<lambda>i n. n + present_pages (node_zones s i)) (zones_upto classzone_idx) 0
      in balanced_pages \<ge> drop_bit 2 present)"

definition premature_zone :: "'w rc_env \<Rightarrow> 'w mm_state \<Rightarrow> int \<Rightarrow> nat \<Rightarrow> ulong \<times> bool \<Rightarrow> ulong \<times> bool" where
  "premature_zone env s order i st =
     (let (balanced, all_zones_ok) = st in
      if \<not> populated_zone s i then st
      else if all_unreclaimable (node_zones s i) then (balanced + present_pages (node_zones s i), all_zones_ok)
      else if \<not> zone_watermark_ok_safe env s i order (high_wmark_pages s i) i 0 then (balanced, False)
      else (balanced + present_pages (node_zones s i), all_zones_ok))"

definition sleeping_prematurely :: "'w rc_env \<Rightarrow> int \<Rightarrow> int \<Rightarrow> int \<Rightarrow> 'w mm_state \<Rightarrow> bool" where
  "sleeping_prematurely env order remaining classzone_idx s =
     (if remaining \<noteq> 0 then True
      else let (balanced, all_zones_ok) = fold (premature_zone env s order) (zones_upto classzone_idx) (0, True)
           in if order \<noteq> 0 then \<not> pgdat_balanced balanced classzone_idx s else \<not> all_zones_ok)"


section \<open>Balancing the node\<close>

text \<open>The local variables of \<^verbatim>\<open>balance_pgdat\<close> that live longer than one zone.\<close>

record bp_locals =
  bp_all_zones_ok :: bool
  bp_balanced :: ulong
  bp_end_zone :: nat
  bp_total_scanned :: ulong
  bp_under_min :: bool

text \<open>The search, from the highest zone down, for a zone that needs scanning.\<close>

primrec bp_find_zone ::
    "'w rc_env \<Rightarrow> int \<Rightarrow> int \<Rightarrow> nat list \<Rightarrow> scan_control \<Rightarrow> 'w mm_state \<Rightarrow>
     (nat option \<times> scan_control \<times> 'w mm_state) option" where
  "bp_find_zone env order priority [] sc s = Some (None, sc, s)"
| "bp_find_zone env order priority (i # is) sc s =
     (if \<not> populated_zone s i then bp_find_zone env order priority is sc s
      else if all_unreclaimable (node_zones s i) \<and> priority \<noteq> DEF_PRIORITY then bp_find_zone env order priority is sc s
      else case age_active_anon env i sc s of
             None \<Rightarrow> None
           | Some (sc, s) \<Rightarrow>
               if e_buffer_heads_over_limit (r_mm env) s \<and> is_highmem_idx i then Some (Some i, sc, s)
               else if \<not> zone_watermark_ok_safe env s i order (high_wmark_pages s i) 0 0 then Some (Some i, sc, s)
               else bp_find_zone env order priority is sc (zone_clear_flag i ZONE_CONGESTED s))"

definition KSWAPD_ZONE_BALANCE_GAP_RATIO :: ulong where "KSWAPD_ZONE_BALANCE_GAP_RATIO = 100"

definition balance_gap :: "'w mm_state \<Rightarrow> nat \<Rightarrow> ulong" where
  "balance_gap s i =
     min (low_wmark_pages s i)
       ((present_pages (node_zones s i) + KSWAPD_ZONE_BALANCE_GAP_RATIO - 1) div KSWAPD_ZONE_BALANCE_GAP_RATIO)"

text \<open>Reclaim from one zone and from the shrinkers.\<close>

definition bp_shrink ::
    "'w rc_env \<Rightarrow> int \<Rightarrow> ulong \<Rightarrow> nat \<Rightarrow> bp_locals \<times> scan_control \<times> 'w rc_state \<Rightarrow>
     (bp_locals \<times> scan_control \<times> 'w rc_state) option" where
  "bp_shrink env priority lru_pages i st =
     (let (v, sc, s) = st in
      case shrink_zone env priority i sc (rc_mm s) of
        None \<Rightarrow> None
      | Some (sc, m) \<Rightarrow>
          let s = s\<lparr>rc_mm := m, rc_reclaimed_slab := Some 0\<rparr> in
          case shrink_slab env 0xD0 (sc_nr_scanned sc) lru_pages s of
            None \<Rightarrow> None
          | Some (nr_slab, s) \<Rightarrow>
              let sc = sc\<lparr>sc_nr_reclaimed := sc_nr_reclaimed sc + (case rc_reclaimed_slab s of None \<Rightarrow> 0 | Some n \<Rightarrow> n)\<rparr>;
                  v = v\<lparr>bp_total_scanned := bp_total_scanned v + sc_nr_scanned sc\<rparr>
              in Some (v, sc,
                   if nr_slab = 0 \<and> \<not> zone_reclaimable (rc_mm s) i
                   then on_mm (upd_zone i (\<lambda>zn. zn\<lparr>all_unreclaimable := True\<rparr>)) s else s))"

text \<open>The judgement of a zone after it has been scanned.\<close>

definition bp_judge ::
    "'w rc_env \<Rightarrow> int \<Rightarrow> int \<Rightarrow> nat \<Rightarrow> bp_locals \<times> scan_control \<times> 'w rc_state \<Rightarrow> bp_locals \<times> scan_control \<times> 'w rc_state" where
  "bp_judge env order classzone_idx i st =
     (let (v, sc, s) = st;
          m = rc_mm s;
          sc = (if bp_total_scanned v > SWAP_CLUSTER_MAX * 2 \<and>
                   bp_total_scanned v > sc_nr_reclaimed sc + sc_nr_reclaimed sc div 2
                then sc\<lparr>sc_may_writepage := True\<rparr> else sc)
      in if all_unreclaimable (node_zones m i) then
           (if bp_end_zone v \<noteq> 0 \<and> bp_end_zone v = i then v\<lparr>bp_end_zone := bp_end_zone v - 1\<rparr> else v, sc, s)
         else if \<not> zone_watermark_ok_safe env m i order (high_wmark_pages m i) (bp_end_zone v) 0 then
           (v\<lparr>bp_all_zones_ok := False,
              bp_under_min := bp_under_min v \<or>
                \<not> zone_watermark_ok_safe env m i order (min_wmark_pages m i) (bp_end_zone v) 0\<rparr>, sc, s)
         else
           (if int i \<le> classzone_idx then v\<lparr>bp_balanced := bp_balanced v + present_pages (node_zones m i)\<rparr> else v, sc,
            on_mm (zone_clear_flag i ZONE_CONGESTED) s))"

definition bp_zone ::
    "'w rc_env \<Rightarrow> int \<Rightarrow> int \<Rightarrow> int \<Rightarrow> ulong \<Rightarrow> nat \<Rightarrow> bp_locals \<times> scan_control \<times> 'w rc_state \<Rightarrow>
     (bp_locals \<times> scan_control \<times> 'w rc_state) option" where
  "bp_zone env order classzone_idx priority lru_pages i st =
     (let (v, sc, s) = st; m = rc_mm s in
      if \<not> populated_zone m i then Some st
      else if all_unreclaimable (node_zones m i) \<and> priority \<noteq> DEF_PRIORITY then Some st
      else let sc = sc\<lparr>sc_nr_scanned := 0\<rparr> in
        map_option (bp_judge env order classzone_idx i)
          (if e_buffer_heads_over_limit (r_mm env) m \<and> is_highmem_idx i \<or>
              \<not> zone_watermark_ok_safe env m i order (high_wmark_pages m i + balance_gap m i) (bp_end_zone v) 0
           then bp_shrink env priority lru_pages i (v, sc, s) else Some (v, sc, s)))"

text \<open>
  The zones up to \<^verbatim>\<open>end_zone\<close>. The variable is decremented only in the round of the last zone, so the rounds are
  those for its value at the start.
\<close>

primrec bp_zones ::
    "'w rc_env \<Rightarrow> int \<Rightarrow> int \<Rightarrow> int \<Rightarrow> ulong \<Rightarrow> nat list \<Rightarrow> bp_locals \<times> scan_control \<times> 'w rc_state \<Rightarrow>
     (bp_locals \<times> scan_control \<times> 'w rc_state) option" where
  "bp_zones env order classzone_idx priority lru_pages [] st = Some st"
| "bp_zones env order classzone_idx priority lru_pages (i # is) st =
     (case bp_zone env order classzone_idx priority lru_pages i st of
        None \<Rightarrow> None
      | Some st \<Rightarrow> bp_zones env order classzone_idx priority lru_pages is st)"

definition bp_done :: "int \<Rightarrow> int \<Rightarrow> bp_locals \<Rightarrow> 'w rc_state \<Rightarrow> bool" where
  "bp_done order classzone_idx v s \<longleftrightarrow>
     bp_all_zones_ok v \<or> order \<noteq> 0 \<and> pgdat_balanced (bp_balanced v) classzone_idx (rc_mm s)"

definition bp_nap :: "'w rc_env \<Rightarrow> int \<Rightarrow> bp_locals \<Rightarrow> 'w rc_state \<Rightarrow> 'w rc_state" where
  "bp_nap env priority v s =
     (if bp_total_scanned v \<noteq> 0 \<and> priority < DEF_PRIORITY - 2 then
        if bp_under_min v then on_mm (count_vm_events KSWAPD_SKIP_CONGESTION_WAIT 1) s
        else on_mm (e_congestion_wait (r_mm env)) s
      else s)"

text \<open>The passes at the priorities \<open>n - 1, \<dots>, 0\<close>; the first component of the result is the last priority.\<close>

primrec bp_passes ::
    "'w rc_env \<Rightarrow> int \<Rightarrow> int \<Rightarrow> nat \<Rightarrow> bp_locals \<times> scan_control \<times> 'w rc_state \<Rightarrow>
     (int \<times> bp_locals \<times> scan_control \<times> 'w rc_state) option" where
  "bp_passes env order classzone_idx 0 st = Some (- 1, st)"
| "bp_passes env order classzone_idx (Suc n) st =
     (let (v, sc, s) = st;
          priority = int n;
          s = (if priority = 0 then on_mm (kcall Disable_swap_token) s else s);
          v = v\<lparr>bp_all_zones_ok := True, bp_balanced := 0, bp_under_min := False\<rparr>
      in case bp_find_zone env order priority (rev [0..<nr_zones (rc_mm s)]) sc (rc_mm s) of
           None \<Rightarrow> None
         | Some (None, sc, m) \<Rightarrow> Some (priority, v, sc, s\<lparr>rc_mm := m\<rparr>)
         | Some (Some end_zone, sc, m) \<Rightarrow>
             let v = v\<lparr>bp_end_zone := end_zone\<rparr>;
                 lru_pages = sum_reclaimable [0..<end_zone + 1] m
             in case bp_zones env order classzone_idx priority lru_pages [0..<end_zone + 1] (v, sc, s\<lparr>rc_mm := m\<rparr>) of
                  None \<Rightarrow> None
                | Some (v, sc, s) \<Rightarrow>
                    if bp_done order classzone_idx v s then Some (priority, v, sc, s)
                    else let s = bp_nap env priority v s in
                      if sc_nr_reclaimed sc \<ge> SWAP_CLUSTER_MAX then Some (priority, v, sc, s)
                      else bp_passes env order classzone_idx n (v, sc, s))"

text \<open>
  The check at a higher order: \<open>False\<close> when a zone fails at order 0. The test whether memory needs to be
  compacted only decides about the empty \<^verbatim>\<open>compact_pgdat\<close>.
\<close>

primrec bp_confirm :: "'w rc_env \<Rightarrow> int \<Rightarrow> nat list \<Rightarrow> 'w mm_state \<Rightarrow> bool \<times> 'w mm_state" where
  "bp_confirm env priority [] s = (True, s)"
| "bp_confirm env priority (i # is) s =
     (if \<not> populated_zone s i then bp_confirm env priority is s
      else if all_unreclaimable (node_zones s i) \<and> priority \<noteq> DEF_PRIORITY then bp_confirm env priority is s
      else if \<not> zone_watermark_ok env s i 0 (high_wmark_pages s i) 0 0 then (False, s)
      else bp_confirm env priority is (zone_clear_flag i ZONE_CONGESTED s))"

partial_function (option) bp_loop ::
    "'w rc_env \<Rightarrow> int \<Rightarrow> int \<Rightarrow> bp_locals \<Rightarrow> scan_control \<Rightarrow> 'w rc_state \<Rightarrow> (int \<times> int \<times> 'w rc_state) option" where
  "bp_loop env order classzone_idx v sc s =
     (let v = v\<lparr>bp_total_scanned := 0\<rparr>;
          sc = sc\<lparr>sc_nr_reclaimed := 0, sc_may_writepage := \<not> r_laptop_mode env\<rparr>;
          s = on_mm (count_vm_events PAGEOUTRUN 1) s
      in case bp_passes env order classzone_idx (nat (DEF_PRIORITY + 1)) (v, sc, s) of
           None \<Rightarrow> None
         | Some (priority, v, sc, s) \<Rightarrow>
             if \<not> bp_done order classzone_idx v s then
               let (_, s) = r_try_to_freeze env s
               in if sc_nr_reclaimed sc < SWAP_CLUSTER_MAX
                  then bp_loop env 0 classzone_idx v (sc\<lparr>sc_order := 0\<rparr>) s
                  else bp_loop env order classzone_idx v sc s
             else if order \<noteq> 0 then
               let (confirmed, m) = bp_confirm env priority [0..<bp_end_zone v + 1] (rc_mm s);
                   s = s\<lparr>rc_mm := m\<rparr>
               in if confirmed then Some (order, int (bp_end_zone v), s)
                  else bp_loop env 0 classzone_idx v (sc\<lparr>sc_order := 0\<rparr>) s
             else Some (order, int (bp_end_zone v), s))"

declare bp_loop.simps [code]

definition balance_pgdat :: "'w rc_env \<Rightarrow> int \<Rightarrow> int \<Rightarrow> 'w rc_state \<Rightarrow> (int \<times> int \<times> 'w rc_state) option" where
  "balance_pgdat env order classzone_idx s =
     (let sc = \<lparr>sc_nr_scanned = 0, sc_nr_reclaimed = 0, sc_nr_to_reclaim = - 1, sc_hibernation_mode = False,
                sc_gfp_mask = 0xD0, sc_may_writepage = False, sc_may_unmap = True, sc_may_swap = True,
                sc_order = order, sc_reclaim_mode = 0\<rparr>;
          v = \<lparr>bp_all_zones_ok = False, bp_balanced = 0, bp_end_zone = 0, bp_total_scanned = 0, bp_under_min = False\<rparr>
      in bp_loop env order classzone_idx v sc s)"


section \<open>The thread\<close>

definition kswapd_try_to_sleep :: "'w rc_env \<Rightarrow> int \<Rightarrow> int \<Rightarrow> 'w rc_state \<Rightarrow> 'w rc_state" where
  "kswapd_try_to_sleep env order classzone_idx s =
     (if r_freezing env s \<or> r_kthread_should_stop env s then s
      else let (remaining, s) =
                 (if \<not> sleeping_prematurely env order 0 classzone_idx (rc_mm s)
                  then r_schedule_timeout env (on_mm (kcall Kswapd_short_sleep) s) else (0, s))
           in if \<not> sleeping_prematurely env order remaining classzone_idx (rc_mm s) then
                if \<not> r_kthread_should_stop env s then r_schedule env (on_mm (kcall Kswapd_long_sleep) s) else s
              else on_mm (count_vm_events
                     (if remaining \<noteq> 0 then KSWAPD_LOW_WMARK_HIT_QUICKLY else KSWAPD_HIGH_WMARK_HIT_QUICKLY) 1) s)"

record kswapd_locals =
  k_order :: int
  k_new_order :: int
  k_balanced_order :: int
  k_classzone_idx :: int
  k_new_classzone_idx :: int
  k_balanced_classzone_idx :: int

text \<open>The request for more work is read and cleared.\<close>

definition kswapd_take_request :: "'w rc_state \<Rightarrow> (int \<times> int) \<times> 'w rc_state" where
  "kswapd_take_request s =
     ((rc_kswapd_max_order s, rc_classzone_idx s),
      s\<lparr>rc_kswapd_max_order := 0, rc_classzone_idx := int (nr_zones (rc_mm s)) - 1\<rparr>)"

text \<open>One round of the loop up to the call of \<^verbatim>\<open>try_to_freeze\<close>.\<close>

definition kswapd_wait :: "'w rc_env \<Rightarrow> kswapd_locals \<times> 'w rc_state \<Rightarrow> kswapd_locals \<times> 'w rc_state" where
  "kswapd_wait env vs =
     (let (v, s) = vs;
          (v, s) =
            (if k_balanced_classzone_idx v \<ge> k_new_classzone_idx v \<and> k_balanced_order v = k_new_order v then
               let ((ord, idx), s) = kswapd_take_request s
               in (v\<lparr>k_new_order := ord, k_new_classzone_idx := idx\<rparr>, s)
             else (v, s))
      in if k_order v < k_new_order v \<or> k_classzone_idx v > k_new_classzone_idx v then
           (v\<lparr>k_order := k_new_order v, k_classzone_idx := k_new_classzone_idx v\<rparr>, s)
         else
           let s = kswapd_try_to_sleep env (k_balanced_order v) (k_balanced_classzone_idx v) s;
               ((ord, idx), s) = kswapd_take_request s
           in (v\<lparr>k_order := ord, k_classzone_idx := idx, k_new_order := ord, k_new_classzone_idx := idx\<rparr>, s))"

partial_function (option) kswapd_loop :: "'w rc_env \<Rightarrow> kswapd_locals \<Rightarrow> 'w rc_state \<Rightarrow> 'w rc_state option" where
  "kswapd_loop env v s =
     (let (v, s) = kswapd_wait env (v, s);
          (ret, s) = r_try_to_freeze env s
      in if r_kthread_should_stop env s then Some s
         else if ret then kswapd_loop env v s
         else case balance_pgdat env (k_order v) (k_classzone_idx v) s of
                None \<Rightarrow> None
              | Some (ord, idx, s) \<Rightarrow>
                  kswapd_loop env (v\<lparr>k_balanced_order := ord, k_balanced_classzone_idx := idx\<rparr>) s)"

declare kswapd_loop.simps [code]

definition kswapd :: "'w rc_env \<Rightarrow> 'w rc_state \<Rightarrow> 'w rc_state option" where
  "kswapd env s =
     (let idx = int (nr_zones (rc_mm s)) - 1;
          s = s\<lparr>rc_reclaimed_slab := Some 0\<rparr>
      in map_option (\<lambda>s. s\<lparr>rc_reclaimed_slab := None\<rparr>)
           (kswapd_loop env \<lparr>k_order = 0, k_new_order = 0, k_balanced_order = 0, k_classzone_idx = idx,
              k_new_classzone_idx = idx, k_balanced_classzone_idx = idx\<rparr> s))"

definition wakeup_kswapd :: "'w rc_env \<Rightarrow> nat \<Rightarrow> int \<Rightarrow> int \<Rightarrow> 'w rc_state \<Rightarrow> 'w rc_state" where
  "wakeup_kswapd env z order classzone_idx s =
     (if \<not> populated_zone (rc_mm s) z then s
      else let s = (if rc_kswapd_max_order s < order
                    then s\<lparr>rc_kswapd_max_order := order, rc_classzone_idx := min (rc_classzone_idx s) classzone_idx\<rparr> else s)
           in if \<not> r_waitqueue_active env s then s
              else if zone_watermark_ok_safe env (rc_mm s) z order (low_wmark_pages (rc_mm s) z) 0 0 then s
              else on_mm (kcall Wake_up_kswapd) s)"



section \<open>Pages that have become evictable\<close>

definition move_unevictable :: "nat \<Rightarrow> ulong \<times> ulong \<times> 'w mm_state \<Rightarrow> ulong \<times> ulong \<times> 'w mm_state" where
  "move_unevictable p st =
     (let (pgscanned, pgrescued, s) = st;
          pgscanned = pgscanned + 1;
          z = page_zone s p
      in if \<not> PageLRU s p \<or> \<not> PageUnevictable s p then (pgscanned, pgrescued, s)
         else if page_evictable s p then
           let lru = page_lru_base_type (mem_map s p);
               s = ClearPage PG_unevictable p s;
               s = mod_zone_page_state z NR_UNEVICTABLE (- 1) s;
               s = lru_move z p lru s;
               s = mod_zone_page_state z (nr_lru lru) 1 s
           in (pgscanned, pgrescued + 1, s)
         else (pgscanned, pgrescued, s))"

definition check_move_unevictable_pages :: "nat list \<Rightarrow> 'w mm_state \<Rightarrow> 'w mm_state" where
  "check_move_unevictable_pages pages s =
     (let (pgscanned, pgrescued, s) = fold move_unevictable pages (0, 0, s)
      in if pages \<noteq> []
         then count_vm_events UNEVICTABLE_PGSCANNED pgscanned (count_vm_events UNEVICTABLE_PGRESCUED pgrescued s)
         else s)"


section \<open>The LRU invariant\<close>

definition kswapd_env_ok :: "'w rc_env \<Rightarrow> bool" where
  "kswapd_env_ok env \<longleftrightarrow>
     rc_env_ok env \<and> (\<forall>s. rc_safe s (snd (r_try_to_freeze env s))) \<and>
     (\<forall>s. rc_safe s (snd (r_schedule_timeout env s))) \<and> (\<forall>s. rc_safe s (r_schedule env s))"

lemma mm_inv_zone_clear_flag: "mm_inv s \<Longrightarrow> mm_inv (zone_clear_flag z f s)"
  unfolding zone_clear_flag_def by (rule mm_safe_inv [OF mm_safe_upd_zone]) simp_all

lemma age_active_anon_inv:
  assumes "rc_env_ok env" "mm_inv s" "age_active_anon env z sc s = Some (sc', s')"
  shows "mm_inv s' \<and> sc_kept sc sc'"
proof -
  have "env_ok (r_mm env)" using assms(1) by (simp add: rc_env_ok_def)
  then obtain sc1 s1 where "shrink_active_list (r_mm env) SWAP_CLUSTER_MAX z sc False s = Some (sc1, s1)" "mm_inv s1"
    using shrink_active_list_inv [OF _ assms(2)] by blast
  then show ?thesis
    using assms(2,3) by (auto simp: age_active_anon_def dest: shrink_active_list_sc split: if_splits)
qed

lemma bp_find_zone_inv:
  assumes "rc_env_ok env" "mm_inv s" "bp_find_zone env order priority is sc s = Some (r, sc', s')"
  shows "mm_inv s' \<and> sc_kept sc sc'"
  using assms(2,3)
proof (induction "is" arbitrary: sc s)
  case (Cons i "is")
  show ?case
  proof (cases "\<not> populated_zone s i \<or> all_unreclaimable (node_zones s i) \<and> priority \<noteq> DEF_PRIORITY")
    case True
    then show ?thesis using Cons by (auto split: if_splits)
  next
    case False
    then obtain sc1 s1 where a: "age_active_anon env i sc s = Some (sc1, s1)"
      using Cons.prems(2) by (auto split: if_splits option.splits)
    have a1: "mm_inv s1" "sc_kept sc sc1" using age_active_anon_inv [OF assms(1) Cons.prems(1) a] by simp_all
    show ?thesis
      using Cons.prems(2) False a a1 Cons.IH [OF mm_inv_zone_clear_flag [OF a1(1)]] sc_kept_trans
      by (auto split: if_splits)
  qed
qed simp

lemma bp_shrink_inv:
  assumes "rc_env_ok env" "mm_inv (rc_mm s)" "sc_ready sc" "bp_shrink env priority n i (v, sc, s) = Some (v', sc', s')"
  shows "mm_inv (rc_mm s') \<and> sc_ready sc'"
proof -
  obtain sc1 m where z: "shrink_zone env priority i sc (rc_mm s) = Some (sc1, m)"
    using assms(4) by (auto simp: bp_shrink_def split: option.splits)
  have z1: "mm_inv m" "sc_ready sc1" using shrink_zone_inv [OF assms(1,2) _ _ z] assms(3) sc_ready_kept by auto
  let ?s = "s\<lparr>rc_mm := m, rc_reclaimed_slab := Some 0\<rparr>"
  obtain k t where l: "shrink_slab env 0xD0 (sc_nr_scanned sc1) n ?s = Some (k, t)"
    using assms(4) z by (auto simp: bp_shrink_def Let_def split: option.splits)
  have t: "mm_inv (rc_mm t)" using mm_safe_inv [OF shrink_slab_safe [OF assms(1) l]] z1(1) by simp
  have "mm_inv (upd_zone i (\<lambda>zn. zn\<lparr>all_unreclaimable := True\<rparr>) (rc_mm t))"
    by (rule mm_safe_inv [OF mm_safe_upd_zone t]) simp_all
  then show ?thesis
    using assms(4) z l t z1(2) by (auto simp: bp_shrink_def Let_def on_mm_def split: if_splits)
qed

lemma bp_judge_inv:
  assumes "mm_inv (rc_mm s)" "sc_ready sc" "bp_judge env order cz i (v, sc, s) = (v', sc', s')"
  shows "mm_inv (rc_mm s') \<and> sc_ready sc'"
  using assms mm_inv_zone_clear_flag [OF assms(1)] by (auto simp: bp_judge_def Let_def on_mm_def split: if_splits)

lemma bp_zone_inv:
  assumes "rc_env_ok env" "mm_inv (rc_mm s)" "sc_ready sc" "bp_zone env order cz priority n i (v, sc, s) = Some (v', sc', s')"
  shows "mm_inv (rc_mm s') \<and> sc_ready sc'"
proof (cases "\<not> populated_zone (rc_mm s) i \<or> all_unreclaimable (node_zones (rc_mm s) i) \<and> priority \<noteq> DEF_PRIORITY")
  case True
  then show ?thesis using assms(2-) by (auto simp: bp_zone_def Let_def split: if_splits)
next
  case False
  let ?sc = "sc\<lparr>sc_nr_scanned := 0\<rparr>"
  let ?b = "e_buffer_heads_over_limit (r_mm env) (rc_mm s) \<and> is_highmem_idx i \<or>
      \<not> zone_watermark_ok_safe env (rc_mm s) i order (high_wmark_pages (rc_mm s) i + balance_gap (rc_mm s) i) (bp_end_zone v) 0"
  obtain v1 sc1 s1 where a: "(if ?b then bp_shrink env priority n i (v, ?sc, s) else Some (v, ?sc, s)) = Some (v1, sc1, s1)"
    and j: "bp_judge env order cz i (v1, sc1, s1) = (v', sc', s')"
    using assms(4) False by (auto simp: bp_zone_def Let_def)
  have "mm_inv (rc_mm s1) \<and> sc_ready sc1"
    using a assms(2,3) bp_shrink_inv [OF assms(1,2), of ?sc priority n i v v1 sc1 s1] by (auto split: if_splits)
  then show ?thesis using bp_judge_inv [OF _ _ j] by simp
qed

lemma bp_zones_inv:
  assumes "rc_env_ok env" "mm_inv (rc_mm s)" "sc_ready sc" "bp_zones env order cz priority n is (v, sc, s) = Some (v', sc', s')"
  shows "mm_inv (rc_mm s') \<and> sc_ready sc'"
  using assms(2-)
proof (induction "is" arbitrary: v sc s)
  case (Cons i "is")
  obtain v1 sc1 s1 where "bp_zone env order cz priority n i (v, sc, s) = Some (v1, sc1, s1)"
    "bp_zones env order cz priority n is (v1, sc1, s1) = Some (v', sc', s')"
    using Cons.prems(3) by (auto split: option.splits)
  then show ?case using bp_zone_inv [OF assms(1) Cons.prems(1,2)] Cons.IH by blast
qed simp


lemma mm_inv_kcall: "mm_inv s \<Longrightarrow> mm_inv (kcall c s)"
  by (rule mm_safe_inv [OF mm_safe_release(5)])

lemma mm_inv_count: "mm_inv s \<Longrightarrow> mm_inv (count_vm_events e n s)"
  by (rule mm_safe_inv [OF mm_safe_release(4)])

lemma bp_nap_inv: "rc_env_ok env \<Longrightarrow> mm_inv (rc_mm s) \<Longrightarrow> mm_inv (rc_mm (bp_nap env priority v s))"
  by (auto simp: bp_nap_def on_mm_def rc_env_ok_def mm_inv_count intro: mm_safe_inv [OF env_okD(14)])

lemma bp_passes_inv:
  assumes "rc_env_ok env" "mm_inv (rc_mm s)" "sc_ready sc" "bp_passes env order cz n (v, sc, s) = Some (pr, v', sc', s')"
  shows "mm_inv (rc_mm s') \<and> sc_ready sc'"
  using assms(2-)
proof (induction n arbitrary: v sc s)
  case (Suc n)
  let ?s = "if int n = 0 then on_mm (kcall Disable_swap_token) s else s"
  let ?v = "v\<lparr>bp_all_zones_ok := True, bp_balanced := 0, bp_under_min := False\<rparr>"
  have s: "mm_inv (rc_mm ?s)" using Suc.prems(1) by (simp add: on_mm_def mm_inv_kcall)
  obtain r sc1 m where f: "bp_find_zone env order (int n) (rev [0..<nr_zones (rc_mm ?s)]) sc (rc_mm ?s) = Some (r, sc1, m)"
    using Suc.prems(3) by (auto simp: Let_def split: option.splits)
  have f1: "mm_inv m" "sc_ready sc1" using bp_find_zone_inv [OF assms(1) s f] Suc.prems(2) sc_ready_kept by auto
  show ?case
  proof (cases r)
    case None
    then show ?thesis using Suc.prems(3) f f1 by (auto simp: Let_def)
  next
    case (Some e)
    obtain v2 sc2 s2 where z: "bp_zones env order cz (int n) (sum_reclaimable [0..<e + 1] m) [0..<e + 1]
        (?v\<lparr>bp_end_zone := e\<rparr>, sc1, ?s\<lparr>rc_mm := m\<rparr>) = Some (v2, sc2, s2)"
      using Suc.prems(3) f Some by (auto simp: Let_def split: option.splits)
    have z1: "mm_inv (rc_mm s2)" "sc_ready sc2" using bp_zones_inv [OF assms(1) _ f1(2) z] f1(1) by simp_all
    note nap = bp_nap_inv [OF assms(1) z1(1), of "int n" v2]
    have res: "(if bp_done order cz v2 s2 then Some (int n, v2, sc2, s2)
        else if sc_nr_reclaimed sc2 \<ge> SWAP_CLUSTER_MAX then Some (int n, v2, sc2, bp_nap env (int n) v2 s2)
        else bp_passes env order cz n (v2, sc2, bp_nap env (int n) v2 s2)) = Some (pr, v', sc', s')"
      using Suc.prems(3) f Some z
      by (simp only: bp_passes.simps Let_def prod.case option.case)
    show ?thesis using res z1 nap Suc.IH [OF nap z1(2)] by (auto split: if_splits)
  qed
qed simp

lemma bp_confirm_inv: "mm_inv s \<Longrightarrow> mm_inv (snd (bp_confirm env priority is s))"
  by (induction "is" arbitrary: s) (auto intro: mm_inv_zone_clear_flag)

lemma bp_loop_inv:
  assumes "bp_loop env order cz v sc s = Some x" "kswapd_env_ok env" "mm_inv (rc_mm s)" "sc_ready sc"
  shows "mm_inv (rc_mm (snd (snd x)))"
  using assms
proof (induction rule: bp_loop.raw_induct [rotated 1, consumes 1])
  case (1 f env order cz v sc s x)
  let ?v = "v\<lparr>bp_total_scanned := 0\<rparr>"
  let ?sc = "sc\<lparr>sc_nr_reclaimed := 0, sc_may_writepage := \<not> r_laptop_mode env\<rparr>"
  let ?s = "on_mm (count_vm_events PAGEOUTRUN 1) s"
  have env: "rc_env_ok env" using "1.prems"(1) by (simp add: kswapd_env_ok_def)
  obtain pr v1 sc1 s1 where p: "bp_passes env order cz (nat (DEF_PRIORITY + 1)) (?v, ?sc, ?s) = Some (pr, v1, sc1, s1)"
    using "1.hyps" by (auto simp: Let_def split: option.splits)
  have "mm_inv (rc_mm ?s)" using "1.prems"(2) by (simp add: on_mm_def mm_inv_count)
  then have p1: "mm_inv (rc_mm s1)" "sc_ready sc1" using bp_passes_inv [OF env _ _ p] "1.prems"(3) by simp_all
  obtain b t where t: "r_try_to_freeze env s1 = (b, t)" by (rule prod.exhaust)
  have "rc_safe s1 t" using "1.prems"(1) t by (simp add: kswapd_env_ok_def) (metis snd_conv)
  then have t1: "mm_inv (rc_mm t)" by (rule mm_safe_inv [OF _ p1(1)])
  obtain c m where c: "bp_confirm env pr [0..<bp_end_zone v1 + 1] (rc_mm s1) = (c, m)" by (rule prod.exhaust)
  have c1: "mm_inv (rc_mm (s1\<lparr>rc_mm := m\<rparr>))" using bp_confirm_inv [OF p1(1), of env pr "[0..<bp_end_zone v1 + 1]"] c by simp
  have sc0: "sc_ready (sc1\<lparr>sc_order := 0\<rparr>)" using p1(2) by simp
  have res: "(if \<not> bp_done order cz v1 s1
      then if sc_nr_reclaimed sc1 < SWAP_CLUSTER_MAX then f env 0 cz v1 (sc1\<lparr>sc_order := 0\<rparr>) t else f env order cz v1 sc1 t
      else if order \<noteq> 0
      then if c then Some (order, int (bp_end_zone v1), s1\<lparr>rc_mm := m\<rparr>) else f env 0 cz v1 (sc1\<lparr>sc_order := 0\<rparr>) (s1\<lparr>rc_mm := m\<rparr>)
      else Some (order, int (bp_end_zone v1), s1)) = Some x"
    using "1.hyps" p t c by (simp only: Let_def prod.case option.case)
  show ?case
    using res p1(1) c1 "1.IH" [OF _ "1.prems"(1) t1 sc0] "1.IH" [OF _ "1.prems"(1) t1 p1(2)] "1.IH" [OF _ "1.prems"(1) c1 sc0]
    by (auto split: if_splits)
qed

lemma balance_pgdat_inv:
  assumes "kswapd_env_ok env" "mm_inv (rc_mm s)" "order < 11" "balance_pgdat env order cz s = Some (order', cz', s')"
  shows "mm_inv (rc_mm s')"
  using bp_loop_inv [OF assms(4) [unfolded balance_pgdat_def Let_def] assms(1,2)] assms(3) by (simp add: has_bits_def)


lemma kswapd_try_to_sleep_inv:
  assumes "kswapd_env_ok env" "mm_inv (rc_mm s)"
  shows "mm_inv (rc_mm (kswapd_try_to_sleep env order cz s))"
proof -
  have sched: "mm_inv (rc_mm (snd (r_schedule_timeout env t)))" "mm_inv (rc_mm (r_schedule env t))" if "mm_inv (rc_mm t)" for t
    using assms(1) mm_safe_inv [where A = "{}", OF _ that] by (simp_all add: kswapd_env_ok_def)
  have step: "mm_inv (rc_mm (on_mm (kcall c) t))" "mm_inv (rc_mm (on_mm (count_vm_events e n) t))" if "mm_inv (rc_mm t)" for c e n t
    using that by (simp_all add: on_mm_def mm_inv_kcall mm_inv_count)
  obtain rem t where t: "(if \<not> sleeping_prematurely env order 0 cz (rc_mm s)
      then r_schedule_timeout env (on_mm (kcall Kswapd_short_sleep) s) else (0, s)) = (rem, t)" by (rule prod.exhaust)
  have "mm_inv (rc_mm t)"
    using t assms(2) sched(1) [OF step(1) [OF assms(2)], of Kswapd_short_sleep] by (auto split: if_splits)
  then show ?thesis
    using assms(2) t by (simp add: kswapd_try_to_sleep_def Let_def step sched(2))
qed

lemma kswapd_take_request_mm [simp]: "rc_mm (snd (kswapd_take_request s)) = rc_mm s"
  by (simp add: kswapd_take_request_def)

lemma kswapd_wait_inv:
  assumes "kswapd_env_ok env" "mm_inv (rc_mm s)"
  shows "mm_inv (rc_mm (snd (kswapd_wait env (v, s))))"
proof -
  have k: "mm_inv (rc_mm t) \<Longrightarrow> mm_inv (rc_mm (kswapd_try_to_sleep env order cz t))" for order cz t
    by (rule kswapd_try_to_sleep_inv [OF assms(1)])
  show ?thesis
    using assms(2) by (auto simp: kswapd_wait_def kswapd_take_request_def Let_def k)
qed


section \<open>Unevictable pages\<close>

lemma lru_safe_move_unevictable:
  assumes "PageLRU s p \<and> PageUnevictable s p \<longrightarrow> \<not> PageActive s p"
  shows "lru_safe s (snd (snd (move_unevictable p (a, b, s))))"
proof (cases "PageLRU s p \<and> PageUnevictable s p \<and> page_evictable s p")
  case True
  let ?z = "pg_zonenum (mem_map s p)" and ?l = "page_lru_base_type (mem_map s p)"
  have "snd (snd (move_unevictable p (a, b, s))) =
      add_page_to_lru_list ?z p ?l (upd_page p (clear_flag PG_unevictable) (del_page_from_lru_list ?z p LRU_UNEVICTABLE s))"
    using True
    by (simp add: move_unevictable_def Let_def add_page_to_lru_list_def del_page_from_lru_list_def lru_move_def lru_link_def
        lru_unlink_def mod_zone_page_state_def upd_zone_def upd_page_def ClearPage_def page_zone_def fun_eq_iff)
  then show ?thesis
    using True assms by (simp add: lru_safe_relist lru_place_defs PageFlag_def)
next
  case False
  then show ?thesis by (auto simp: move_unevictable_def Let_def)
qed


lemma move_unevictable_flags:
  "PageActive (snd (snd (move_unevictable p (a, b, s)))) q = PageActive s q"
  by (simp add: move_unevictable_def Let_def PageFlag_def ClearPage_def clear_flag_def upd_page_def)

lemma check_move_unevictable_pages_inv:
  assumes "mm_inv s" "\<forall>p \<in> set pages. \<not> PageActive s p"
  shows "mm_inv (check_move_unevictable_pages pages s)"
proof -
  have inv: "mm_inv (snd (snd (fold move_unevictable pages (a, b, s))))" for a b
    using assms
  proof (induction pages arbitrary: a b s)
    case (Cons p ps)
    obtain a1 b1 s1 where m: "move_unevictable p (a, b, s) = (a1, b1, s1)" by (rule prod_cases3)
    have "mm_inv s1" using lru_safe_move_unevictable [of s p a b] Cons.prems m by (auto intro: mm_inv_safe)
    moreover have "\<forall>q \<in> set ps. \<not> PageActive s1 q"
      using Cons.prems(2) move_unevictable_flags [of p a b s] m by simp
    ultimately show ?case using m Cons.IH by simp
  qed simp
  obtain a b t where f: "fold move_unevictable pages (0, 0, s) = (a, b, t)" by (rule prod_cases3)
  then have "mm_inv t" using inv [of 0 0] by simp
  with f show ?thesis by (simp only: check_move_unevictable_pages_def Let_def prod.case) (simp add: mm_inv_count)
qed


section \<open>When the thread sleeps\<close>

definition zone_balanced :: "'w rc_env \<Rightarrow> int \<Rightarrow> 'w mm_state \<Rightarrow> nat \<Rightarrow> bool" where
  "zone_balanced env order s i \<longleftrightarrow>
     \<not> populated_zone s i \<or> all_unreclaimable (node_zones s i) \<or>
     zone_watermark_ok_safe env s i order (high_wmark_pages s i) i 0"

abbreviation node_ok :: "'w rc_env \<Rightarrow> int \<Rightarrow> 'w rc_state \<Rightarrow> bool" where
  "node_ok env cz s \<equiv> list_all (zone_balanced env 0 (rc_mm s)) (zones_upto cz)"

lemma premature_zones: "snd (fold (premature_zone env s order) is (b, ok)) \<longleftrightarrow> ok \<and> list_all (zone_balanced env order s) is"
  by (induction "is" arbitrary: b ok) (auto simp: premature_zone_def zone_balanced_def)

lemma sleeping_prematurely_0:
  "sleeping_prematurely env 0 remaining cz (rc_mm s) \<longleftrightarrow> remaining \<noteq> 0 \<or> \<not> node_ok env cz s"
  using premature_zones [of env "rc_mm s" 0 "zones_upto cz" 0 True]
  by (auto simp: sleeping_prematurely_def split: prod.splits)

end
