(* ===== verification/Vmscan_Spec.thy ===== *)
theory Vmscan_Spec
  imports Vmscan_Reclaim Swap_Spec
begin

text \<open>
  The properties of page reclaim: the LRU invariant through direct reclaim, this kernel's aging counter on the
  inactive and on the active list, the test before a page loses its mapping, and the shrinkers.
\<close>



section \<open>Aging\<close>

lemma add_referenced_cancel: "add_referenced (-1) p (add_referenced 1 p s) = s"
  by (simp add: add_referenced_def upd_page_def fun_upd_idem)

text \<open>
  C12. The reference check on the inactive list, for a page that is neither locked in memory nor reclaimed as part of a
  block. The counter of the page counts the scans that found it unreferenced. A referenced file page keeps its count
  and is activated when the count is still 0, when several page tables refer to it or when it is executable; a
  referenced anonymous page is always activated, and its count grows too.
\<close>

theorem inactive_aging:
  assumes "e_page_referenced env p True s = ((ptes, flags), s1)"
    and "\<not> has_bits (sc_reclaim_mode sc) RECLAIM_MODE_LUMPYRECLAIM" "\<not> has_bits flags VM_LOCKED"
  shows "page_check_references env sc p s =
    (if ptes = 0
     then (if pg_referenced (mem_map s1 p) = 0 \<and> \<not> PageSwapBacked s1 p then PAGEREF_RECLAIM_CLEAN else PAGEREF_RECLAIM,
           add_referenced 1 p s1)
     else if PageSwapBacked s1 p then (PAGEREF_ACTIVATE, add_referenced 1 p s1)
     else (if pg_referenced (mem_map s1 p) = 0 \<or> ptes > 1 \<or> has_bits flags VM_EXEC then PAGEREF_ACTIVATE else PAGEREF_KEEP, s1))"
proof -
  have "PageSwapBacked (add_referenced 1 p s1) p = PageSwapBacked s1 p"
    by (simp add: add_referenced_def PageFlag_def)
  moreover have "(n :: ulong) < 1 \<longleftrightarrow> n = 0" for n by (simp add: word_less_1)
  ultimately show ?thesis
    using assms by (simp add: page_check_references_def add_referenced_cancel)
qed

definition counts_kept :: "'w mm_env \<Rightarrow> nat \<Rightarrow> bool" where
  "counts_kept env p \<longleftrightarrow>
     (\<forall>l s. pg_referenced (mem_map (snd (e_page_referenced env p l s)) p) = pg_referenced (mem_map s p)) \<and>
     (\<forall>g s. pg_referenced (mem_map (snd (e_try_to_release_page env p g s)) p) = pg_referenced (mem_map s p))"

lemma sal_release_buffers_count:
  assumes "counts_kept env p"
  shows "pg_referenced (mem_map (sal_release_buffers env p s) p) = pg_referenced (mem_map s p)"
  using assms
  by (simp add: sal_release_buffers_def Let_def counts_kept_def trylock_page_def unlock_page_def ClearPage_def SetPage_def
      set_flag_def clear_flag_def split: prod.split)

lemma sal_page_ages:
  assumes "counts_kept env p" "page_evictable s p"
    and "\<not> has_bits (snd (fst (e_page_referenced env p False (sal_release_buffers env p s)))) VM_EXEC"
  shows "pg_referenced (mem_map s p) = 0 \<Longrightarrow> p \<in> set (l_active (fst (sal_page env p (v, s)))) \<and>
      pg_referenced (mem_map (snd (sal_page env p (v, s))) p) = 1"
    "pg_referenced (mem_map s p) = 1 \<Longrightarrow> p \<in> set (l_inactive (fst (sal_page env p (v, s)))) \<and>
      \<not> PageActive (snd (sal_page env p (v, s))) p"
proof -
  obtain r fl s1 where e: "e_page_referenced env p False (sal_release_buffers env p s) = ((r, fl), s1)" by (metis surj_pair)
  have "pg_referenced (mem_map s1 p) = pg_referenced (mem_map s p)"
    using assms(1) e sal_release_buffers_count [OF assms(1), of s] by (simp add: counts_kept_def) (metis snd_conv)
  then show "pg_referenced (mem_map s p) = 0 \<Longrightarrow> p \<in> set (l_active (fst (sal_page env p (v, s)))) \<and>
      pg_referenced (mem_map (snd (sal_page env p (v, s))) p) = 1"
    "pg_referenced (mem_map s p) = 1 \<Longrightarrow> p \<in> set (l_inactive (fst (sal_page env p (v, s)))) \<and>
      \<not> PageActive (snd (sal_page env p (v, s))) p"
    using assms(2,3) e
    by (simp_all add: sal_page_def sal_age_def Let_def add_referenced_def PG_REFERENCED_SHRINK_THRESHOLD_def
        PageFlag_def ClearPage_def clear_flag_def)
qed


text \<open>
  C13. On the active list the count alone decides, for pages that are not referenced executable file pages: from 0 a
  page survives one scan, and the next one deactivates it, even if it was referenced through page tables before
  both scans. Only an access that is marked with \<^verbatim>\<open>mark_page_accessed\<close> starts the count again.
\<close>

theorem active_aging:
  assumes "counts_kept env p" "page_evictable s p" "page_evictable s' p" "pg_referenced (mem_map s p) = 0"
    and "\<not> has_bits (snd (fst (e_page_referenced env p False (sal_release_buffers env p s)))) VM_EXEC"
    and "\<not> has_bits (snd (fst (e_page_referenced env p False (sal_release_buffers env p s')))) VM_EXEC"
    and "sal_page env p (v, s) = (v1, s1)" "sal_page env p (v', s') = (v2, s2)"
    and "pg_referenced (mem_map s' p) = pg_referenced (mem_map s1 p)"
  shows "p \<in> set (l_active v1) \<and> p \<in> set (l_inactive v2) \<and> \<not> PageActive s2 p"
  using sal_page_ages(1) [OF assms(1,2,5), of v] sal_page_ages(2) [OF assms(1,3,6), of v'] assms(4,7-) by simp


section \<open>Detaching pages\<close>

text \<open>
  C14. A page loses its mapping only if it is locked, belongs to the mapping, is clean and is referenced by the mapping
  and the caller alone; otherwise nothing changes.
\<close>

theorem remove_mapping_safe:
  assumes "raw_remove_mapping env mapping p s = Some (removed, s')"
  shows "PageLocked s p \<and> page_mapping s p = Some mapping \<and>
    (if removed then pg_count (mem_map s p) = 2 \<and> \<not> PageDirty s p
     else (pg_count (mem_map s p) \<noteq> 2 \<or> PageDirty s p) \<and> s' = s)"
  using assms
  by (auto simp: raw_remove_mapping_def Let_def page_freeze_refs_def page_unfreeze_refs_def PageFlag_def
      upd_page_def fun_upd_idem split: if_splits)



section \<open>Shrinkers\<close>

lemma sint_of_int_ulong: "- (2 ^ 31) \<le> k \<Longrightarrow> k < 2 ^ 31 \<Longrightarrow> sint (of_int k :: ulong) = k"
  by (simp add: signed_of_int signed_take_bit_int_eq_self_iff)

lemma sint_ulong_bounds: "- (2 ^ 31) \<le> sint (w :: ulong)" "sint (w :: ulong) < 2 ^ 31"
  using sint_ge [of w] sint_lt [of w] by simp_all

lemma sint_minus_batch:
  assumes "0 < batch" "batch \<le> sint (w :: ulong)"
  shows "sint (w - of_int batch) = sint w - batch"
proof -
  have b: "sint (of_int batch :: ulong) = batch" using assms sint_ulong_bounds(2) [of w] by (intro sint_of_int_ulong) simp_all
  have "sint (w - of_int batch) = signed_take_bit 31 (sint w - batch)" by (simp add: sint_word_ariths b)
  also have "\<dots> = sint w - batch"
    using assms sint_ulong_bounds [of w] by (simp add: signed_take_bit_int_eq_self_iff)
  finally show ?thesis .
qed

text \<open>The callbacks scan objects; they do not register or unregister shrinkers.\<close>

definition shrinkers_kept :: "'w rc_env \<Rightarrow> bool" where
  "shrinkers_kept env \<longleftrightarrow> (\<forall>i g n s. rc_shrinkers (snd (r_shrink env i g n s)) = rc_shrinkers s)"

lemma slab_loop_returns:
  assumes "shrinkers_kept env" "0 < batch"
  shows "\<exists>tot' ret' s'. slab_loop env i g batch tot ret s = Some (tot', ret', s') \<and> rc_shrinkers s' = rc_shrinkers s"
proof (induction "nat (sint tot)" arbitrary: tot ret s rule: less_induct)
  case less
  obtain nb t where t: "do_shrinker_shrink env i g 0 s = (nb, t)" by (rule prod.exhaust)
  obtain k u where u: "do_shrinker_shrink env i g (of_int batch) t = (k, u)" by (rule prod.exhaust)
  have kept: "rc_shrinkers u = rc_shrinkers s"
    using t u assms(1) by (auto simp: shrinkers_kept_def do_shrinker_shrink_def) (metis snd_conv)
  show ?case
  proof (cases "sint tot \<ge> batch")
    case True
    let ?u = "on_mm (count_vm_events SLABS_SCANNED (of_int batch)) u"
    let ?r = "if k < nb then ret + of_int (nb - k) else ret"
    have "nat (sint (tot - of_int batch)) < nat (sint tot)" using sint_minus_batch [OF assms(2) True] assms(2) True by simp
    from less [OF this, of ?r ?u] show ?thesis
      using True t u kept by (subst slab_loop.simps) (auto simp: Let_def on_mm_def)
  next
    case False
    then show ?thesis by (subst slab_loop.simps) simp
  qed
qed

abbreviation batches :: "'w rc_state \<Rightarrow> int list" where
  "batches s \<equiv> map sh_batch (rc_shrinkers s)"

lemma batches_set_nr [simp]: "batches (set_nr_in_batch k n s) = batches s"
  by (cases "k < length (rc_shrinkers s)") (simp_all add: set_nr_in_batch_def map_update list_update_same_conv list_update_beyond)

lemma shrink_slab_one_returns:
  assumes "shrinkers_kept env" "\<forall>b \<in> set (batches s). 0 \<le> b" "k < length (batches s)"
  shows "\<exists>ret' s'. shrink_slab_one env g np lp k (ret, s) = Some (ret', s') \<and> batches s' = batches s"
proof -
  let ?sh = "rc_shrinkers s ! k"
  define batch where "batch = (if sh_batch ?sh \<noteq> 0 then sh_batch ?sh else SHRINK_BATCH)"
  have "0 \<le> sh_batch ?sh" using assms(2,3) by simp
  then have batch: "0 < batch" by (simp add: batch_def SHRINK_BATCH_def)
  obtain m t where t: "do_shrinker_shrink env (sh_id ?sh) g 0 s = (m, t)" by (rule prod.exhaust)
  have kept: "rc_shrinkers t = rc_shrinkers s"
    using t assms(1) by (auto simp: shrinkers_kept_def do_shrinker_shrink_def) (metis snd_conv)
  let ?u = "set_nr_in_batch k 0 t"
  let ?tot = "slab_total_scan (sh_nr_in_batch (rc_shrinkers t ! k)) (slab_delta (sh_seeks ?sh) np lp m) m"
  obtain tot' ret' s' where l: "slab_loop env (sh_id ?sh) g batch ?tot ret ?u = Some (tot', ret', s')" "rc_shrinkers s' = rc_shrinkers ?u"
    using slab_loop_returns [OF assms(1) batch] by blast
  have "batches s' = batches s" using l(2) kept batches_set_nr [of k 0 t] by simp
  moreover have "batches (set_nr_in_batch k n s') = batches s'" for n by simp
  ultimately show ?thesis
    using t kept l(1) by (simp add: shrink_slab_one_def Let_def batch_def)
qed

lemma shrink_slab_loop_returns:
  assumes "shrinkers_kept env" "\<forall>b \<in> set (batches s). 0 \<le> b" "\<forall>k \<in> set ks. k < length (batches s)"
  shows "\<exists>r. shrink_slab_loop env g np lp ks (ret, s) = Some r"
  using assms(2,3)
proof (induction ks arbitrary: ret s)
  case (Cons k ks)
  have k: "k < length (batches s)" using Cons.prems(2) by (rule bspec) simp
  obtain ret' s' where one: "shrink_slab_one env g np lp k (ret, s) = Some (ret', s')" and same: "batches s' = batches s"
    using shrink_slab_one_returns [OF assms(1) Cons.prems(1) k] by blast
  have "\<exists>r. shrink_slab_loop env g np lp ks (ret', s') = Some r"
    by (rule Cons.IH) (use Cons.prems in \<open>simp_all only: same\<close>, simp)
  then show ?case by (simp only: shrink_slab_loop.simps one option.case)
qed simp

text \<open>
  C19. \<^verbatim>\<open>shrink_slab\<close> returns, whatever the shrinkers report, as long as no batch size is negative: a shrinker is
  called until the amount to scan is used up.
\<close>

theorem shrink_slab_returns:
  assumes "shrinkers_kept env" "\<forall>sh \<in> set (rc_shrinkers s). 0 \<le> sh_batch sh"
  shows "\<exists>r. shrink_slab env gfp_mask nr_pages_scanned lru_pages s = Some r"
  using shrink_slab_loop_returns [OF assms(1), of s "[0..<length (rc_shrinkers s)]"] assms(2)
  by (simp add: shrink_slab_def Let_def)



section \<open>An example\<close>

text \<open>Surroundings in which nothing is referenced, dirty or congested, and a memory with one empty zone.\<close>

definition quiet_env :: "unit mm_env" where
  "quiet_env =
     \<lparr>e_page_referenced = (\<lambda>p l s. ((0, 0), s)), e_try_to_unmap = (\<lambda>p s. (SWAP_SUCCESS, s)),
      e_add_to_swap = (\<lambda>p s. (False, s)), e_try_to_free_swap = (\<lambda>p s. (False, s)),
      e_try_to_free_buffers = (\<lambda>p s. (True, s)), e_try_to_release_page = (\<lambda>p g s. (True, s)),
      e_clear_page_dirty_for_io = (\<lambda>p s. (False, s)), e_writepage = (\<lambda>m p s. (0, s)),
      e_wait_on_page_writeback = (\<lambda>p s. s), e_delete_from_swap_cache = (\<lambda>p s. s), e_swapcache_free = (\<lambda>e p s. s),
      e_delete_from_page_cache = (\<lambda>p s. s), e_freepage = (\<lambda>m p s. s), e_bdi_write_congested = (\<lambda>m s. False),
      e_bdi_is_current = (\<lambda>m. False), e_pf_swapwrite = False, e_current_is_kswapd = False,
      e_congestion_wait = (\<lambda>s. s), e_fatal_signal_pending = (\<lambda>s. False), e_buffer_heads_over_limit = (\<lambda>s. False)\<rparr>"

definition quiet_rc :: "unit rc_env" where
  "quiet_rc =
     \<lparr>r_mm = quiet_env, r_vm_swappiness = 60, r_laptop_mode = False, r_min_free_order_shift = 1,
      r_oom_killer_disabled = False, r_shrink = (\<lambda>i g n s. (if n = 0 then 300 else 200, s)), r_shrinker_trylock = (\<lambda>s. True),
      r_throttle_vm_writeout = (\<lambda>g s. s), r_wait_iff_congested = (\<lambda>z s. s), r_freezing = (\<lambda>s. False),
      r_kthread_should_stop = (\<lambda>s. False), r_try_to_freeze = (\<lambda>s. (False, s)),
      r_schedule_timeout = (\<lambda>s. (0, s)), r_schedule = (\<lambda>s. s), r_waitqueue_active = (\<lambda>s. True)\<rparr>"

definition quiet_memory :: "unit rc_state" where
  "quiet_memory =
     \<lparr>rc_mm = idle_state (), rc_shrinkers = [\<lparr>sh_id = 1, sh_seeks = 2, sh_batch = 0, sh_nr_in_batch = 0\<rparr>],
      rc_reclaimed_slab = None, rc_kswapd_max_order = 0, rc_classzone_idx = 0\<rparr>"

lemma quiet_ok: "rc_env_ok quiet_rc" "shrinkers_kept quiet_rc" "mm_inv (rc_mm quiet_memory)" "counts_kept quiet_env p"
  using mm_inv_boot [OF lru_boot_idle_state [of "()"]]
  by (simp_all add: rc_env_ok_def env_ok_def quiet_rc_def quiet_env_def shrinkers_kept_def quiet_memory_def counts_kept_def)

theorem shrink_slab_returns_witness: "\<exists>r. shrink_slab quiet_rc 0xD0 32 1000 quiet_memory = Some r"
  by (rule shrink_slab_returns) (use quiet_ok(2) in \<open>simp_all add: quiet_memory_def\<close>)

theorem inactive_aging_witness:
  "page_check_references quiet_env \<lparr>sc_nr_scanned = 0, sc_nr_reclaimed = 0, sc_nr_to_reclaim = 32, sc_hibernation_mode = False,
      sc_gfp_mask = 0xD0, sc_may_writepage = True, sc_may_unmap = True, sc_may_swap = True, sc_order = 0, sc_reclaim_mode = 0\<rparr>
      7 (idle_state ()) = (PAGEREF_RECLAIM_CLEAN, add_referenced 1 7 (idle_state ()))"
  by (subst inactive_aging [where ptes = 0 and flags = 0 and ?s1.0 = "idle_state ()"])
    (simp_all add: quiet_env_def has_bits_def idle_state_def idle_page_def PageFlag_def)

theorem active_aging_witness:
  "7 \<in> set (l_active (fst (sal_page quiet_env 7 (\<lparr>l_active = [], l_inactive = [], nr_rotated = 0\<rparr>, idle_state ())))) \<and>
   7 \<in> set (l_inactive (fst (sal_page quiet_env 7 (\<lparr>l_active = [], l_inactive = [], nr_rotated = 0\<rparr>,
     snd (sal_page quiet_env 7 (\<lparr>l_active = [], l_inactive = [], nr_rotated = 0\<rparr>, idle_state ()))))))"
proof -
  let ?v = "\<lparr>l_active = [], l_inactive = [], nr_rotated = 0\<rparr>"
  let ?s = "idle_state ()" and ?s1 = "snd (sal_page quiet_env 7 (?v, idle_state ()))"
  have "page_evictable ?s 7" "page_evictable ?s1 7" "pg_referenced (mem_map ?s 7) = 0"
    by (simp_all add: idle_state_def idle_page_def page_evictable_def mapping_unevictable_def page_mapping_def PageFlag_def
        sal_page_def sal_release_buffers_def quiet_env_def sal_age_def add_referenced_def upd_page_def
        PG_REFERENCED_SHRINK_THRESHOLD_def has_bits_def)
  moreover have "\<not> has_bits (snd (fst (e_page_referenced quiet_env 7 False s))) VM_EXEC" for s
    by (simp add: quiet_env_def has_bits_def)
  ultimately show ?thesis
    using active_aging [OF quiet_ok(4) [of 7], where s = ?s and s' = ?s1 and v = ?v and v' = ?v, OF _ _ _ _ _ prod.collapse [symmetric] prod.collapse [symmetric]]
    by simp
qed

definition cached_page_state :: "unit mm_state" where
  "cached_page_state =
     upd_page 7 (\<lambda>pg. (set_flag PG_locked pg)\<lparr>pg_mapping := Map_as (Inode_space 3), pg_count := 2\<rparr>) (idle_state ())"

theorem remove_mapping_safe_witness:
  "\<exists>s'. raw_remove_mapping quiet_env (Inode_space 3) 7 cached_page_state = Some (True, s') \<and>
     pg_count (mem_map cached_page_state 7) = 2 \<and> \<not> PageDirty cached_page_state 7"
proof -
  obtain s' where "raw_remove_mapping quiet_env (Inode_space 3) 7 cached_page_state = Some (True, s')"
    by (simp add: raw_remove_mapping_def cached_page_state_def page_mapping_def page_freeze_refs_def PageFlag_def upd_page_def
        idle_state_def idle_page_def quiet_env_def set_flag_def)
  with remove_mapping_safe [OF this] show ?thesis by simp
qed







end
