(* ===== verification/Kswapd_Spec.thy ===== *)
theory Kswapd_Spec
  imports Vmscan_Kswapd Vmscan_Spec
begin

text \<open>The properties of the background reclaimer.\<close>



section \<open>An example\<close>








end
