(* ===== verification/Burger_Queue.thy ===== *)
theory Burger_Queue
  imports Kernel_Prelude
begin

text \<open>
  The queue of sleeping cashiers of \<^verbatim>\<open>BurgerBuddies.c\<close>: a ring buffer of \<^verbatim>\<open>cashiers + 1\<close> slots, of which
  one stays free so that a full queue differs from an empty one. The interface \<open>bounded_fifo\<close> is what
  the cashiers and customers rely on; the ring buffer is shown to provide it.
\<close>

section \<open>The interface\<close>

primrec get_many :: "('q \<Rightarrow> 'a \<times> 'q) \<Rightarrow> nat \<Rightarrow> 'q \<Rightarrow> 'a list \<times> 'q" where
  "get_many get 0 q = ([], q)"
| "get_many get (Suc n) q = (let (x, q) = get q; (xs, q) = get_many get n q in (x # xs, q))"

locale bounded_fifo =
  fixes inv :: "'q \<Rightarrow> bool" and abs :: "'q \<Rightarrow> 'a list"
    and size :: "'q \<Rightarrow> int" and put :: "'a \<Rightarrow> 'q \<Rightarrow> 'q" and get :: "'q \<Rightarrow> 'a \<times> 'q"
    and capacity :: nat and missing :: 'a
  assumes abs_bound: "inv q \<Longrightarrow> length (abs q) \<le> capacity"
    and size_abs: "inv q \<Longrightarrow> size q = int (length (abs q))"
    and put_inv: "inv q \<Longrightarrow> length (abs q) < capacity \<Longrightarrow> inv (put x q)"
    and put_abs: "inv q \<Longrightarrow> length (abs q) < capacity \<Longrightarrow> abs (put x q) = abs q @ [x]"
    and get_inv: "inv q \<Longrightarrow> inv (snd (get q))"
    and get_abs: "inv q \<Longrightarrow> abs (snd (get q)) = tl (abs q)"
    and get_fst: "inv q \<Longrightarrow> fst (get q) = (case abs q of [] \<Rightarrow> missing | x # _ \<Rightarrow> x)"
begin

lemma put_list:
  "inv q \<Longrightarrow> length (abs q) + length xs \<le> capacity \<Longrightarrow>
     inv (fold put xs q) \<and> abs (fold put xs q) = abs q @ xs"
  by (induction xs arbitrary: q) (simp_all add: put_inv put_abs)

lemma get_list:
  "inv q \<Longrightarrow> n \<le> length (abs q) \<Longrightarrow>
     inv (snd (get_many get n q)) \<and> fst (get_many get n q) = take n (abs q) \<and> abs (snd (get_many get n q)) = drop n (abs q)"
proof (induction n arbitrary: q)
  case (Suc n)
  then obtain x xs where q: "abs q = x # xs" by (cases "abs q") auto
  have "inv (snd (get q))" "abs (snd (get q)) = xs" "fst (get q) = x"
    using get_inv get_abs get_fst Suc.prems(1) q by simp_all
  with Suc.IH [of "snd (get q)"] Suc.prems(2) q show ?case
    by (simp add: Let_def split_beta)
qed simp

text \<open>What goes in comes out, in order, behind what was there.\<close>

lemma fifo:
  assumes "inv q" "length (abs q) + length xs \<le> capacity"
  shows "fst (get_many get (length (abs q) + length xs) (fold put xs q)) = abs q @ xs"
    and "abs (snd (get_many get (length (abs q) + length xs) (fold put xs q))) = []"
  using put_list [OF assms] get_list [of "fold put xs q" "length (abs q) + length xs"] by simp_all

end


section \<open>The ring buffer\<close>

text \<open>\<^verbatim>\<open>head\<close>, \<^verbatim>\<open>tail\<close> and \<^verbatim>\<open>sleepingQueue\<close>; \<open>n\<close> is \<^verbatim>\<open>cashiers\<close>.\<close>

record ring =
  r_head :: int
  r_tail :: int
  sleepingQueue :: "int list"

definition queueSize :: "int \<Rightarrow> ring \<Rightarrow> int" where
  "queueSize n q = (r_tail q + 1 - r_head q + n + 1) mod (n + 1)"

definition enqueue :: "int \<Rightarrow> int \<Rightarrow> ring \<Rightarrow> ring" where
  "enqueue n i q =
     (let tail = (r_tail q + 1) mod (n + 1)
      in q\<lparr>r_tail := tail, sleepingQueue := (sleepingQueue q)[nat tail := i]\<rparr>)"

definition dequeue :: "int \<Rightarrow> ring \<Rightarrow> int \<times> ring" where
  "dequeue n q =
     (if r_head q \<noteq> (r_tail q + 1) mod (n + 1)
      then (sleepingQueue q ! nat (r_head q), q\<lparr>r_head := (r_head q + 1) mod (n + 1)\<rparr>)
      else (0, q))"

definition ring_init :: "int \<Rightarrow> ring" where
  "ring_init n = \<lparr>r_head = 0, r_tail = -1, sleepingQueue = replicate (nat (n + 1)) 0\<rparr>"

text \<open>
  The invariant: the indices stay in the buffer; before the first \<^verbatim>\<open>enqueue\<close> the tail is \<open>-1\<close>. The
  abstraction reads \<^verbatim>\<open>queueSize\<close> slots from the head on.
\<close>

definition ring_ok :: "int \<Rightarrow> ring \<Rightarrow> bool" where
  "ring_ok n q \<longleftrightarrow>
     0 \<le> n \<and> 0 \<le> r_head q \<and> r_head q \<le> n \<and> -1 \<le> r_tail q \<and> r_tail q \<le> n \<and>
     length (sleepingQueue q) = nat (n + 1)"

definition ring_list :: "int \<Rightarrow> ring \<Rightarrow> int list" where
  "ring_list n q =
     map (\<lambda>i. sleepingQueue q ! nat ((r_head q + int i) mod (n + 1))) [0..<nat (queueSize n q)]"

lemma ring_ok_init: "0 \<le> n \<Longrightarrow> ring_ok n (ring_init n)" "0 \<le> n \<Longrightarrow> ring_list n (ring_init n) = []"
  by (simp_all add: ring_ok_def ring_init_def ring_list_def queueSize_def)

lemma queueSize_bounds: "ring_ok n q \<Longrightarrow> 0 \<le> queueSize n q" "ring_ok n q \<Longrightarrow> queueSize n q \<le> n"
proof -
  assume "ring_ok n q"
  then have "0 < n + 1" by (simp add: ring_ok_def)
  then show "0 \<le> queueSize n q" "queueSize n q \<le> n"
    using pos_mod_bound [of "n + 1"] pos_mod_sign [of "n + 1"] unfolding queueSize_def by force+
qed

text \<open>The slot behind the tail is \<^verbatim>\<open>queueSize\<close> slots from the head.\<close>

lemma tail_slot: "(r_head q + queueSize n q) mod (n + 1) = (r_tail q + 1) mod (n + 1)"
proof -
  have "(r_head q + queueSize n q) mod (n + 1) = (r_head q + (r_tail q + 1 - r_head q + n + 1)) mod (n + 1)"
    unfolding queueSize_def by (simp add: mod_add_right_eq)
  also have "r_head q + (r_tail q + 1 - r_head q + n + 1) = r_tail q + 1 + (n + 1)" by simp
  finally show ?thesis by (simp only: mod_add_self2)
qed

lemma head_tail: "ring_ok n q \<Longrightarrow> r_head q = (r_tail q + 1) mod (n + 1) \<longleftrightarrow> queueSize n q = 0"
proof -
  assume ok: "ring_ok n q"
  have h: "r_head q mod (n + 1) = r_head q" using ok by (intro mod_pos_pos_trivial) (simp_all add: ring_ok_def)
  have "queueSize n q = 0 \<longleftrightarrow> n + 1 dvd queueSize n q"
    using queueSize_bounds [OF ok] zdvd_imp_le [of "n + 1" "queueSize n q"] by force
  also have "\<dots> \<longleftrightarrow> (r_head q + queueSize n q) mod (n + 1) = r_head q mod (n + 1)"
    by (metis add_diff_cancel_left' mod_eq_dvd_iff)
  finally have "queueSize n q = 0 \<longleftrightarrow> (r_head q + queueSize n q) mod (n + 1) = r_head q mod (n + 1)" .
  then show ?thesis unfolding tail_slot h by auto
qed

lemma slot_range:
  assumes "ring_ok n q"
  shows "0 \<le> x mod (n + 1)" "nat (x mod (n + 1)) < length (sleepingQueue q)" "x mod (n + 1) \<le> n"
proof -
  have "0 < n + 1" using assms by (simp add: ring_ok_def)
  then have *: "0 \<le> x mod (n + 1)" "x mod (n + 1) < n + 1"
    by (rule pos_mod_sign, rule pos_mod_bound)
  then show "0 \<le> x mod (n + 1)" "x mod (n + 1) \<le> n" by simp_all
  show "nat (x mod (n + 1)) < length (sleepingQueue q)"
    using assms * by (simp add: ring_ok_def nat_less_eq_zless)
qed

lemma ring_ok_enqueue:
  assumes "ring_ok n q"
  shows "ring_ok n (enqueue n i q)"
  using assms slot_range [OF assms, of "r_tail q + 1"]
  by (simp add: ring_ok_def enqueue_def Let_def order_trans [of "- 1" 0])

lemma queueSize_enqueue:
  assumes ok: "ring_ok n q" and room: "queueSize n q < n"
  shows "queueSize n (enqueue n i q) = queueSize n q + 1"
proof -
  have "queueSize n (enqueue n i q) = ((r_tail q + 1) mod (n + 1) + (1 - r_head q + n + 1)) mod (n + 1)"
    by (simp add: queueSize_def enqueue_def Let_def algebra_simps)
  also have "\<dots> = (r_tail q + 1 + (1 - r_head q + n + 1)) mod (n + 1)" by (rule mod_add_left_eq)
  also have "r_tail q + 1 + (1 - r_head q + n + 1) = (r_tail q + 1 - r_head q + n + 1) + 1" by simp
  also have "(r_tail q + 1 - r_head q + n + 1 + 1) mod (n + 1) = (queueSize n q + 1) mod (n + 1)"
    unfolding queueSize_def by (simp add: mod_add_left_eq)
  also have "\<dots> = queueSize n q + 1"
    using queueSize_bounds [OF ok] room by (intro mod_pos_pos_trivial) simp_all
  finally show ?thesis .
qed

lemma ring_slots_distinct:
  assumes ok: "ring_ok n q" and i: "int i < queueSize n q"
  shows "nat ((r_head q + int i) mod (n + 1)) \<noteq> nat ((r_tail q + 1) mod (n + 1))"
proof
  assume "nat ((r_head q + int i) mod (n + 1)) = nat ((r_tail q + 1) mod (n + 1))"
  then have "(r_head q + int i) mod (n + 1) = (r_head q + queueSize n q) mod (n + 1)"
    using slot_range(1) [OF ok] unfolding tail_slot [symmetric] by (simp add: nat_eq_iff)
  then have "n + 1 dvd queueSize n q - int i"
    by (simp add: mod_eq_dvd_iff dvd_diff_commute)
  then have "n + 1 \<le> queueSize n q - int i" using i by (intro zdvd_imp_le) simp_all
  then show False using queueSize_bounds [OF ok] by simp
qed

lemma ring_list_enqueue:
  assumes ok: "ring_ok n q" and room: "queueSize n q < n"
  shows "ring_list n (enqueue n i q) = ring_list n q @ [i]"
proof -
  let ?k = "nat (queueSize n q)"
  have k: "nat (queueSize n (enqueue n i q)) = Suc ?k"
    using queueSize_enqueue [OF ok room] queueSize_bounds [OF ok] by (simp add: nat_add_distrib)
  have old: "sleepingQueue (enqueue n i q) ! nat ((r_head q + int j) mod (n + 1)) =
      sleepingQueue q ! nat ((r_head q + int j) mod (n + 1))" if "j < ?k" for j
    using ring_slots_distinct [OF ok, of j] that by (simp add: enqueue_def Let_def zless_nat_eq_int_zless)
  have new: "sleepingQueue (enqueue n i q) ! nat ((r_head q + int ?k) mod (n + 1)) = i"
    using slot_range(2) [OF ok] queueSize_bounds [OF ok] tail_slot [of q n]
    by (simp add: enqueue_def Let_def)
  have head: "r_head (enqueue n i q) = r_head q" by (simp add: enqueue_def Let_def)
  show ?thesis unfolding ring_list_def k head using old new by simp
qed

lemma ring_ok_dequeue:
  assumes "ring_ok n q"
  shows "ring_ok n (snd (dequeue n q))"
  using assms slot_range [OF assms, of "r_head q + 1"] by (simp add: ring_ok_def dequeue_def)

lemma ring_list_dequeue:
  assumes ok: "ring_ok n q"
  shows "ring_list n (snd (dequeue n q)) = tl (ring_list n q)"
    "fst (dequeue n q) = (case ring_list n q of [] \<Rightarrow> 0 | x # _ \<Rightarrow> x)"
proof -
  let ?k = "nat (queueSize n q)"
  have "ring_list n (snd (dequeue n q)) = tl (ring_list n q) \<and>
    fst (dequeue n q) = (case ring_list n q of [] \<Rightarrow> 0 | x # _ \<Rightarrow> x)"
  proof (cases "queueSize n q = 0")
    case True
    then show ?thesis using head_tail [OF ok] by (simp add: dequeue_def ring_list_def)
  next
    case False
    have deq: "dequeue n q = (sleepingQueue q ! nat (r_head q), q\<lparr>r_head := (r_head q + 1) mod (n + 1)\<rparr>)"
      using False head_tail [OF ok] by (simp add: dequeue_def)
    have "queueSize n (snd (dequeue n q)) = (r_tail q + 1 + n + 1 - (r_head q + 1) mod (n + 1)) mod (n + 1)"
      by (simp add: deq queueSize_def algebra_simps)
    also have "\<dots> = (r_tail q + 1 + n + 1 - (r_head q + 1)) mod (n + 1)" by (rule mod_diff_right_eq)
    also have "\<dots> = ((r_tail q + 1 - r_head q + n + 1) mod (n + 1) - 1) mod (n + 1)"
      by (simp add: mod_diff_left_eq algebra_simps)
    also have "\<dots> = queueSize n q - 1"
      using False queueSize_bounds [OF ok] ok unfolding queueSize_def [symmetric]
      by (intro mod_pos_pos_trivial) (simp_all add: ring_ok_def)
    finally have size: "nat (queueSize n (snd (dequeue n q))) = ?k - 1" by simp
    have k: "?k = Suc (?k - 1)" using False queueSize_bounds(1) [OF ok] by simp
    have "((r_head q + 1) mod (n + 1) + int j) mod (n + 1) = (r_head q + int (Suc j)) mod (n + 1)" for j
      using mod_add_left_eq [of "r_head q + 1" "n + 1" "int j"] by (simp add: add.assoc)
    then have rest: "ring_list n (snd (dequeue n q)) =
        map (\<lambda>j. sleepingQueue q ! nat ((r_head q + int (Suc j)) mod (n + 1))) [0..<?k - 1]"
      unfolding ring_list_def size by (simp add: deq)
    have "ring_list n q = map (\<lambda>j. sleepingQueue q ! nat ((r_head q + int j) mod (n + 1))) [0..<Suc (?k - 1)]"
      unfolding ring_list_def using k by simp
    moreover have "[0..<Suc (?k - 1)] = 0 # map Suc [0..<?k - 1]"
      by (simp add: map_Suc_upt upt_conv_Cons del: upt_Suc)
    ultimately have "ring_list n q =
        sleepingQueue q ! nat (r_head q mod (n + 1)) # ring_list n (snd (dequeue n q))"
      unfolding rest by (simp add: o_def del: upt_Suc)
    moreover have "r_head q mod (n + 1) = r_head q"
      using ok by (intro mod_pos_pos_trivial) (simp_all add: ring_ok_def)
    ultimately show ?thesis by (simp add: deq)
  qed
  then show "ring_list n (snd (dequeue n q)) = tl (ring_list n q)"
    "fst (dequeue n q) = (case ring_list n q of [] \<Rightarrow> 0 | x # _ \<Rightarrow> x)" by blast+
qed


text \<open>The ring buffer provides the interface, with room for all cashiers.\<close>

lemma ring_bounded_fifo:
  "0 \<le> n \<Longrightarrow> bounded_fifo (ring_ok n) (ring_list n) (queueSize n) (enqueue n) (dequeue n) (nat n) 0"
proof
  fix q i
  assume n: "0 \<le> n" and ok: "ring_ok n q"
  have len: "length (ring_list n q) = nat (queueSize n q)" by (simp add: ring_list_def)
  show "length (ring_list n q) \<le> nat n" using queueSize_bounds [OF ok] len by (simp add: nat_mono)
  show "queueSize n q = int (length (ring_list n q))" using queueSize_bounds [OF ok] len by simp
  show "ring_ok n (snd (dequeue n q))" by (rule ring_ok_dequeue [OF ok])
  show "ring_list n (snd (dequeue n q)) = tl (ring_list n q)" by (rule ring_list_dequeue [OF ok])
  show "fst (dequeue n q) = (case ring_list n q of [] \<Rightarrow> 0 | x # _ \<Rightarrow> x)" by (rule ring_list_dequeue [OF ok])
  assume "length (ring_list n q) < nat n"
  then have "queueSize n q < n" using queueSize_bounds [OF ok] len by simp
  then show "ring_ok n (enqueue n i q)" "ring_list n (enqueue n i q) = ring_list n q @ [i]"
    using ring_ok_enqueue [OF ok] ring_list_enqueue [OF ok] by blast+
qed

interpretation cashier_queue: bounded_fifo "ring_ok (int n)" "ring_list (int n)" "queueSize (int n)"
    "enqueue (int n)" "dequeue (int n)" n 0 for n :: nat
  using ring_bounded_fifo [of "int n"] by simp

text \<open>
  C24. The ring buffer is a first-in first-out queue with room for every cashier: from any state
  reached by the program, at most \<^verbatim>\<open>cashiers\<close> further cashiers that enqueue are dequeued in the order in
  which they came, behind those already waiting, although the indices wrap around.
\<close>

theorem ring_is_fifo:
  assumes "ring_ok (int n) q" "length (ring_list (int n) q) + length xs \<le> n"
  shows "fst (get_many (dequeue (int n)) (length (ring_list (int n) q) + length xs)
               (fold (enqueue (int n)) xs q)) = ring_list (int n) q @ xs"
  by (rule cashier_queue.fifo [OF assms])

theorem ring_is_fifo_witness:
  "fst (get_many (dequeue 3) 3 (fold (enqueue 3) [2, 3]
     \<lparr>r_head = 3, r_tail = 3, sleepingQueue = [9, 9, 9, 1]\<rparr>)) = [1, 2, 3]"
proof -
  let ?q = "\<lparr>r_head = 3, r_tail = 3, sleepingQueue = [9, 9, 9, 1]\<rparr>"
  have "ring_ok (int 3) ?q" by (simp add: ring_ok_def)
  moreover have l: "ring_list (int 3) ?q = [1]" by (simp add: ring_list_def queueSize_def)
  ultimately show ?thesis using ring_is_fifo [of 3 ?q "[2, 3]"] by (simp add: l numeral_3_eq_3)
qed

end
