(* ===== verification/Burger_Buddies.thy ===== *)
theory Burger_Buddies
  imports Burger_Queue
begin

text \<open>
  The threads of \<^verbatim>\<open>BurgerBuddies.c\<close>: cooks, cashiers, customers and the manager, as interleaved steps.
  A thread is at a program counter in front of the next operation on a mutex or semaphore; the
  statements between two such operations run within one step, since the variables they touch are
  protected by a mutex the thread holds. A step function returns \<open>None\<close> when the thread is blocked.
\<close>

section \<open>State\<close>

record config =
  cooks :: nat
  cashiers :: nat
  customers :: nat
  racksize :: int

datatype thread = Cook nat | Cashier nat | Customer nat

datatype mutex = CntMutex | CheckRack | QueueMutex | CK | CA | CM

datatype cook_pc = Ck_start | Ck_lock | Ck_check | Ck_wait | Ck_relock | Ck_make | Ck_done | Ck_killed

datatype cashier_pc =
    Ca_start | Ca_enqueue | Ca_sleep | Ca_lockCA | Ca_lock | Ca_check | Ca_wait | Ca_relock | Ca_take
  | Ca_unlockCA | Ca_lockCnt | Ca_count | Ca_killed

datatype customer_pc =
    Cu_start | Cu_lock | Cu_check | Cu_wait | Cu_relock | Cu_dequeue | Cu_post int | Cu_unlockCM | Cu_exit

datatype manager_pc = Ma_wait | Ma_kill_cooks nat | Ma_kill_cashiers nat | Ma_exit

record bbc =
  rack :: int
  customersServed :: int
  waitForCashier :: int
  waitForBurger :: int
  queue :: ring
  rackFull :: nat
  rackEmpty :: nat
  cashiersAllBusy :: nat
  finish :: nat
  cashierAvailable :: "int \<Rightarrow> nat"
  owner :: "mutex \<Rightarrow> thread option"
  cook_at :: "nat \<Rightarrow> cook_pc"
  cashier_at :: "nat \<Rightarrow> cashier_pc"
  customer_at :: "nat \<Rightarrow> customer_pc"
  manager_at :: manager_pc

text \<open>\<^verbatim>\<open>pthread_mutex_lock\<close> blocks while the mutex is owned; \<^verbatim>\<open>sem_wait\<close> blocks at 0.\<close>

definition lock :: "mutex \<Rightarrow> thread \<Rightarrow> bbc \<Rightarrow> bbc option" where
  "lock m t s = (if owner s m = None then Some (s\<lparr>owner := (owner s)(m := Some t)\<rparr>) else None)"

definition unlock :: "mutex \<Rightarrow> bbc \<Rightarrow> bbc" where
  "unlock m s = s\<lparr>owner := (owner s)(m := None)\<rparr>"

abbreviation "cook_goto i pc s \<equiv> s\<lparr>cook_at := (cook_at s)(i := pc)\<rparr>"
abbreviation "cashier_goto i pc s \<equiv> s\<lparr>cashier_at := (cashier_at s)(i := pc)\<rparr>"
abbreviation "customer_goto i pc s \<equiv> s\<lparr>customer_at := (customer_at s)(i := pc)\<rparr>"


section \<open>The threads\<close>

definition cook_make :: "bbc \<Rightarrow> bbc" where
  "cook_make s =
     (let s = s\<lparr>rack := rack s + 1\<rparr>
      in if rack s = 1 \<and> waitForBurger s \<noteq> 0
         then s\<lparr>waitForBurger := waitForBurger s - 1, rackEmpty := rackEmpty s + 1\<rparr>
         else s)"

definition cook :: "config \<Rightarrow> nat \<Rightarrow> bbc \<Rightarrow> bbc option" where
  "cook c i s =
     (case cook_at s i of
        Ck_start \<Rightarrow> map_option (cook_goto i Ck_lock) (lock CK (Cook i) s)
      | Ck_lock \<Rightarrow> map_option (cook_goto i Ck_check) (lock CheckRack (Cook i) s)
      | Ck_check \<Rightarrow>
          Some (if rack s = racksize c then cook_goto i Ck_wait (unlock CheckRack s)
                else cook_goto i Ck_make s)
      | Ck_wait \<Rightarrow>
          (if rackFull s > 0 then Some (cook_goto i Ck_relock (s\<lparr>rackFull := rackFull s - 1\<rparr>)) else None)
      | Ck_relock \<Rightarrow> map_option (cook_goto i Ck_make) (lock CheckRack (Cook i) s)
      | Ck_make \<Rightarrow> Some (cook_goto i Ck_done (unlock CheckRack (cook_make s)))
      | Ck_done \<Rightarrow> Some (cook_goto i Ck_start (unlock CK s))
      | Ck_killed \<Rightarrow> None)"

definition cashier_enqueue :: "config \<Rightarrow> nat \<Rightarrow> bbc \<Rightarrow> bbc" where
  "cashier_enqueue c i s =
     (let s = s\<lparr>queue := enqueue (int (cashiers c)) (int i) (queue s)\<rparr>
      in if queueSize (int (cashiers c)) (queue s) = 1 \<and> waitForCashier s \<noteq> 0
         then s\<lparr>waitForCashier := waitForCashier s - 1, cashiersAllBusy := cashiersAllBusy s + 1\<rparr>
         else s)"

definition cashier_take :: "config \<Rightarrow> bbc \<Rightarrow> bbc" where
  "cashier_take c s =
     (let s = s\<lparr>rack := rack s - 1\<rparr>
      in if rack s + 1 = racksize c then s\<lparr>rackFull := rackFull s + 1\<rparr> else s)"

definition cashier_count :: "config \<Rightarrow> bbc \<Rightarrow> bbc" where
  "cashier_count c s =
     (let s = s\<lparr>customersServed := customersServed s + 1\<rparr>
      in if customersServed s = int (customers c) then s\<lparr>finish := finish s + 1\<rparr> else s)"

definition cashier :: "config \<Rightarrow> nat \<Rightarrow> bbc \<Rightarrow> bbc option" where
  "cashier c i s =
     (case cashier_at s i of
        Ca_start \<Rightarrow> map_option (cashier_goto i Ca_enqueue) (lock QueueMutex (Cashier i) s)
      | Ca_enqueue \<Rightarrow> Some (cashier_goto i Ca_sleep (unlock QueueMutex (cashier_enqueue c i s)))
      | Ca_sleep \<Rightarrow>
          (if cashierAvailable s (int i - 1) > 0
           then Some (cashier_goto i Ca_lockCA (s\<lparr>cashierAvailable :=
                  (cashierAvailable s)(int i - 1 := cashierAvailable s (int i - 1) - 1)\<rparr>))
           else None)
      | Ca_lockCA \<Rightarrow> map_option (cashier_goto i Ca_lock) (lock CA (Cashier i) s)
      | Ca_lock \<Rightarrow> map_option (cashier_goto i Ca_check) (lock CheckRack (Cashier i) s)
      | Ca_check \<Rightarrow>
          Some (if rack s = 0
                then cashier_goto i Ca_wait (unlock CheckRack (s\<lparr>waitForBurger := waitForBurger s + 1\<rparr>))
                else cashier_goto i Ca_take s)
      | Ca_wait \<Rightarrow>
          (if rackEmpty s > 0 then Some (cashier_goto i Ca_relock (s\<lparr>rackEmpty := rackEmpty s - 1\<rparr>)) else None)
      | Ca_relock \<Rightarrow> map_option (cashier_goto i Ca_take) (lock CheckRack (Cashier i) s)
      | Ca_take \<Rightarrow> Some (cashier_goto i Ca_unlockCA (unlock CheckRack (cashier_take c s)))
      | Ca_unlockCA \<Rightarrow> Some (cashier_goto i Ca_lockCnt (unlock CA s))
      | Ca_lockCnt \<Rightarrow> map_option (cashier_goto i Ca_count) (lock CntMutex (Cashier i) s)
      | Ca_count \<Rightarrow> Some (cashier_goto i Ca_start (unlock CntMutex (cashier_count c s)))
      | Ca_killed \<Rightarrow> None)"

definition customer :: "config \<Rightarrow> nat \<Rightarrow> bbc \<Rightarrow> bbc option" where
  "customer c i s =
     (case customer_at s i of
        Cu_start \<Rightarrow> map_option (customer_goto i Cu_lock) (lock CM (Customer i) s)
      | Cu_lock \<Rightarrow> map_option (customer_goto i Cu_check) (lock QueueMutex (Customer i) s)
      | Cu_check \<Rightarrow>
          Some (if queueSize (int (cashiers c)) (queue s) = 0
                then customer_goto i Cu_wait (unlock QueueMutex (s\<lparr>waitForCashier := waitForCashier s + 1\<rparr>))
                else customer_goto i Cu_dequeue s)
      | Cu_wait \<Rightarrow>
          (if cashiersAllBusy s > 0
           then Some (customer_goto i Cu_relock (s\<lparr>cashiersAllBusy := cashiersAllBusy s - 1\<rparr>)) else None)
      | Cu_relock \<Rightarrow> map_option (customer_goto i Cu_dequeue) (lock QueueMutex (Customer i) s)
      | Cu_dequeue \<Rightarrow>
          (let (serverID, q) = dequeue (int (cashiers c)) (queue s)
           in Some (customer_goto i (Cu_post serverID) (unlock QueueMutex (s\<lparr>queue := q\<rparr>))))
      | Cu_post serverID \<Rightarrow>
          Some (customer_goto i Cu_unlockCM (s\<lparr>cashierAvailable :=
            (cashierAvailable s)(serverID - 1 := cashierAvailable s (serverID - 1) + 1)\<rparr>))
      | Cu_unlockCM \<Rightarrow> Some (customer_goto i Cu_exit (unlock CM s))
      | Cu_exit \<Rightarrow> None)"

text \<open>
  The manager dismisses the threads one by one; a thread that received \<^verbatim>\<open>SIGUSR1\<close> makes no further
  step, wherever it is.
\<close>

definition manager :: "config \<Rightarrow> bbc \<Rightarrow> bbc option" where
  "manager c s =
     (case manager_at s of
        Ma_wait \<Rightarrow> (if finish s > 0 then Some (s\<lparr>finish := finish s - 1, manager_at := Ma_kill_cooks 0\<rparr>) else None)
      | Ma_kill_cooks i \<Rightarrow>
          Some (if i < cooks c
                then cook_goto (i + 1) Ck_killed (s\<lparr>manager_at := Ma_kill_cooks (i + 1)\<rparr>)
                else s\<lparr>manager_at := Ma_kill_cashiers 0\<rparr>)
      | Ma_kill_cashiers i \<Rightarrow>
          Some (if i < cashiers c
                then cashier_goto (i + 1) Ca_killed (s\<lparr>manager_at := Ma_kill_cashiers (i + 1)\<rparr>)
                else s\<lparr>manager_at := Ma_exit\<rparr>)
      | Ma_exit \<Rightarrow> None)"

text \<open>The state when \<^verbatim>\<open>main\<close> has initialised everything and created the threads.\<close>

definition bbc_main :: "config \<Rightarrow> bbc" where
  "bbc_main c =
     \<lparr>rack = 0, customersServed = 0, waitForCashier = 0, waitForBurger = 0,
      queue = ring_init (int (cashiers c)),
      rackFull = 0, rackEmpty = 0, cashiersAllBusy = 0, finish = 0, cashierAvailable = (\<lambda>_. 0),
      owner = (\<lambda>_. None), cook_at = (\<lambda>_. Ck_start), cashier_at = (\<lambda>_. Ca_start),
      customer_at = (\<lambda>_. Cu_start), manager_at = Ma_wait\<rparr>"

inductive bbc_step :: "config \<Rightarrow> bbc \<Rightarrow> bbc \<Rightarrow> bool" for c where
  Step_cook: "1 \<le> i \<Longrightarrow> i \<le> cooks c \<Longrightarrow> cook c i s = Some s' \<Longrightarrow> bbc_step c s s'"
| Step_cashier: "1 \<le> i \<Longrightarrow> i \<le> cashiers c \<Longrightarrow> cashier c i s = Some s' \<Longrightarrow> bbc_step c s s'"
| Step_customer: "1 \<le> i \<Longrightarrow> i \<le> customers c \<Longrightarrow> customer c i s = Some s' \<Longrightarrow> bbc_step c s s'"
| Step_manager: "manager c s = Some s' \<Longrightarrow> bbc_step c s s'"

inductive bbc_reachable :: "config \<Rightarrow> bbc \<Rightarrow> bool" for c where
  Reach_main: "bbc_reachable c (bbc_main c)"
| Reach_step: "bbc_reachable c s \<Longrightarrow> bbc_step c s s' \<Longrightarrow> bbc_reachable c s'"


section \<open>Mutual exclusion\<close>

text \<open>The mutexes that a thread holds at each point of its program.\<close>

fun cook_holds :: "cook_pc \<Rightarrow> mutex \<Rightarrow> bool" where
  "cook_holds pc CK = (pc \<notin> {Ck_start, Ck_killed})"
| "cook_holds pc CheckRack = (pc \<in> {Ck_check, Ck_make})"
| "cook_holds pc _ = False"

fun cashier_holds :: "cashier_pc \<Rightarrow> mutex \<Rightarrow> bool" where
  "cashier_holds pc QueueMutex = (pc = Ca_enqueue)"
| "cashier_holds pc CA = (pc \<in> {Ca_lock, Ca_check, Ca_wait, Ca_relock, Ca_take, Ca_unlockCA})"
| "cashier_holds pc CheckRack = (pc \<in> {Ca_check, Ca_take})"
| "cashier_holds pc CntMutex = (pc = Ca_count)"
| "cashier_holds pc _ = False"

fun customer_holds :: "customer_pc \<Rightarrow> mutex \<Rightarrow> bool" where
  "customer_holds pc CM = (pc \<notin> {Cu_start, Cu_exit})"
| "customer_holds pc QueueMutex = (pc \<in> {Cu_check, Cu_dequeue})"
| "customer_holds pc _ = False"

definition holds :: "bbc \<Rightarrow> thread \<Rightarrow> mutex \<Rightarrow> bool" where
  "holds s t m =
     (case t of
        Cook i \<Rightarrow> cook_holds (cook_at s i) m
      | Cashier i \<Rightarrow> cashier_holds (cashier_at s i) m
      | Customer i \<Rightarrow> customer_holds (customer_at s i) m)"

definition owner_inv :: "bbc \<Rightarrow> bool" where
  "owner_inv s \<longleftrightarrow> (\<forall>t m. holds s t m \<longrightarrow> owner s m = Some t)"

lemma owner_invD:
  "owner_inv s \<Longrightarrow> cook_holds (cook_at s i) m \<Longrightarrow> owner s m = Some (Cook i)"
  "owner_inv s \<Longrightarrow> cashier_holds (cashier_at s i) m \<Longrightarrow> owner s m = Some (Cashier i)"
  "owner_inv s \<Longrightarrow> customer_holds (customer_at s i) m \<Longrightarrow> owner s m = Some (Customer i)"
proof -
  assume inv: "owner_inv s"
  show "cook_holds (cook_at s i) m \<Longrightarrow> owner s m = Some (Cook i)"
    using inv unfolding owner_inv_def holds_def by (metis thread.simps(10))
  show "cashier_holds (cashier_at s i) m \<Longrightarrow> owner s m = Some (Cashier i)"
    using inv unfolding owner_inv_def holds_def by (metis thread.simps(11))
  show "customer_holds (customer_at s i) m \<Longrightarrow> owner s m = Some (Customer i)"
    using inv unfolding owner_inv_def holds_def by (metis thread.simps(12))
qed

lemma owner_invI:
  assumes "\<And>i m. cook_holds (cook_at s i) m \<Longrightarrow> owner s m = Some (Cook i)"
    "\<And>i m. cashier_holds (cashier_at s i) m \<Longrightarrow> owner s m = Some (Cashier i)"
    "\<And>i m. customer_holds (customer_at s i) m \<Longrightarrow> owner s m = Some (Customer i)"
  shows "owner_inv s"
  unfolding owner_inv_def holds_def using assms by (auto split: thread.splits)

text \<open>
  A step changes the mutexes that one thread holds, and the owners accordingly. The three rules cover
  taking a mutex, releasing one and neither.
\<close>

definition thread_moves :: "thread \<Rightarrow> bbc \<Rightarrow> bbc \<Rightarrow> bool" where
  "thread_moves t s s' \<longleftrightarrow> (\<forall>u. u \<noteq> t \<longrightarrow> holds s' u = holds s u)"

lemma owner_inv_step:
  assumes inv: "owner_inv s" and t: "thread_moves t s s'"
    and own: "\<And>m. owner s' m \<noteq> owner s m \<Longrightarrow> owner s m = None \<or> owner s m = Some t"
    and hold: "\<And>m. holds s' t m \<Longrightarrow> owner s' m = Some t"
  shows "owner_inv s'"
  unfolding owner_inv_def
proof (intro allI impI)
  fix u m
  assume h: "holds s' u m"
  show "owner s' m = Some u"
  proof (cases "u = t")
    case False
    then have "owner s m = Some u" using inv h t by (auto simp: owner_inv_def thread_moves_def)
    then show ?thesis using own [of m] False by force
  qed (use hold h in simp)
qed

lemma thread_moves_goto:
  "thread_moves (Cook i) s (cook_goto i pc s)"
  "thread_moves (Cashier i) s (cashier_goto i pca s)"
  "thread_moves (Customer i) s (customer_goto i pcu s)"
  by (auto simp: thread_moves_def holds_def fun_eq_iff split: thread.splits)

lemma holds_cong:
  "cook_at s' = cook_at s \<Longrightarrow> cashier_at s' = cashier_at s \<Longrightarrow> customer_at s' = customer_at s \<Longrightarrow>
     holds s' = holds s"
  by (simp add: holds_def fun_eq_iff split: thread.split)

lemmas bbc_defs = lock_def unlock_def cook_make_def cashier_enqueue_def cashier_take_def
  cashier_count_def Let_def

lemma cook_frame:
  assumes "cook c i s = Some s'"
  shows "cashier_at s' = cashier_at s" "customer_at s' = customer_at s" "manager_at s' = manager_at s"
    "queue s' = queue s" "cashierAvailable s' = cashierAvailable s" "customersServed s' = customersServed s"
    "waitForCashier s' = waitForCashier s" "cashiersAllBusy s' = cashiersAllBusy s" "finish s' = finish s"
    "\<exists>pc. cook_at s' = (cook_at s)(i := pc)"
  using assms by (auto simp: cook_def bbc_defs split: cook_pc.splits if_splits)

lemma cashier_frame:
  assumes "cashier c i s = Some s'"
  shows "cook_at s' = cook_at s" "customer_at s' = customer_at s" "manager_at s' = manager_at s"
    "\<exists>pc. cashier_at s' = (cashier_at s)(i := pc)"
  using assms by (auto simp: cashier_def bbc_defs split: cashier_pc.splits if_splits)

lemma customer_frame:
  assumes "customer c i s = Some s'"
  shows "cook_at s' = cook_at s" "cashier_at s' = cashier_at s" "manager_at s' = manager_at s"
    "rack s' = rack s" "waitForBurger s' = waitForBurger s" "rackEmpty s' = rackEmpty s"
    "customersServed s' = customersServed s" "finish s' = finish s"
    "\<exists>pc. customer_at s' = (customer_at s)(i := pc)"
  using assms by (auto simp: customer_def bbc_defs split: customer_pc.splits if_splits prod.splits)

lemma owner_inv_cook:
  assumes inv: "owner_inv s" and st: "cook c i s = Some s'"
  shows "owner_inv s'"
proof (rule owner_inv_step [OF inv, of "Cook i"])
  show "thread_moves (Cook i) s s'"
    using cook_frame [OF st] by (auto simp: thread_moves_def holds_def fun_eq_iff split: thread.splits)
  note own = owner_invD(1) [OF inv, of i]
  show "owner s' m \<noteq> owner s m \<Longrightarrow> owner s m = None \<or> owner s m = Some (Cook i)" for m
    using st own [of CK] own [of CheckRack]
    by (auto simp: cook_def bbc_defs split: cook_pc.splits if_splits)
  show "holds s' (Cook i) m \<Longrightarrow> owner s' m = Some (Cook i)" for m
    using st own [of CK] own [of CheckRack]
    by (cases m) (auto simp: cook_def bbc_defs holds_def split: cook_pc.splits if_splits)
qed

lemma owner_inv_cashier:
  assumes inv: "owner_inv s" and st: "cashier c i s = Some s'"
  shows "owner_inv s'"
proof (rule owner_inv_step [OF inv, of "Cashier i"])
  show "thread_moves (Cashier i) s s'"
    using cashier_frame [OF st] by (auto simp: thread_moves_def holds_def fun_eq_iff split: thread.splits)
  note own = owner_invD(2) [OF inv, of i]
  show "owner s' m \<noteq> owner s m \<Longrightarrow> owner s m = None \<or> owner s m = Some (Cashier i)" for m
    using st own [of CA] own [of CheckRack] own [of QueueMutex] own [of CntMutex]
    by (auto simp: cashier_def bbc_defs split: cashier_pc.splits if_splits)
  show "holds s' (Cashier i) m \<Longrightarrow> owner s' m = Some (Cashier i)" for m
    using st own [of CA] own [of CheckRack] own [of QueueMutex] own [of CntMutex]
    by (cases m) (auto simp: cashier_def bbc_defs holds_def split: cashier_pc.splits if_splits)
qed

lemma owner_inv_customer:
  assumes inv: "owner_inv s" and st: "customer c i s = Some s'"
  shows "owner_inv s'"
proof (rule owner_inv_step [OF inv, of "Customer i"])
  show "thread_moves (Customer i) s s'"
    using customer_frame [OF st] by (auto simp: thread_moves_def holds_def fun_eq_iff split: thread.splits)
  note own = owner_invD(3) [OF inv, of i]
  show "owner s' m \<noteq> owner s m \<Longrightarrow> owner s m = None \<or> owner s m = Some (Customer i)" for m
    using st own [of CM] own [of QueueMutex]
    by (auto simp: customer_def bbc_defs split: customer_pc.splits if_splits prod.splits)
  show "holds s' (Customer i) m \<Longrightarrow> owner s' m = Some (Customer i)" for m
    using st own [of CM] own [of QueueMutex]
    by (cases m) (auto simp: customer_def bbc_defs holds_def split: customer_pc.splits if_splits prod.splits)
qed

lemma owner_inv_manager:
  assumes inv: "owner_inv s" and st: "manager c s = Some s'"
  shows "owner_inv s'"
proof (rule owner_invI)
  have own: "owner s' = owner s" using st by (auto simp: manager_def split: manager_pc.splits if_splits)
  show "cook_holds (cook_at s' i) m \<Longrightarrow> owner s' m = Some (Cook i)" for i m
    using owner_invD(1) [OF inv, of i m] st own
    by (cases m) (auto simp: manager_def split: manager_pc.splits if_splits)
  show "cashier_holds (cashier_at s' i) m \<Longrightarrow> owner s' m = Some (Cashier i)" for i m
    using owner_invD(2) [OF inv, of i m] st own
    by (cases m) (auto simp: manager_def split: manager_pc.splits if_splits)
  show "customer_holds (customer_at s' i) m \<Longrightarrow> owner s' m = Some (Customer i)" for i m
    using owner_invD(3) [OF inv, of i m] st own
    by (auto simp: manager_def split: manager_pc.splits if_splits)
qed

lemma owner_inv_main: "owner_inv (bbc_main c)"
proof (rule owner_invI)
  fix i m
  show "cook_holds (cook_at (bbc_main c) i) m \<Longrightarrow> owner (bbc_main c) m = Some (Cook i)"
    "cashier_holds (cashier_at (bbc_main c) i) m \<Longrightarrow> owner (bbc_main c) m = Some (Cashier i)"
    "customer_holds (customer_at (bbc_main c) i) m \<Longrightarrow> owner (bbc_main c) m = Some (Customer i)"
    by (cases m; simp add: bbc_main_def)+
qed

end
