(* ===== verification/Burger_Inv.thy ===== *)
theory Burger_Inv
  imports Burger_Buddies
begin

text \<open>
  Invariants of the burger shop: the rack and the semaphore \<^verbatim>\<open>rackEmpty\<close>, the queue of cashiers and the
  semaphores around it, and the count of the customers served.
\<close>

section \<open>The rack\<close>

text \<open>
  \<open>rack_phase pc s\<close>: what the cashier that holds \<^verbatim>\<open>CA\<close> knows about the rack at \<open>pc\<close>. While it waits, either
  it is still registered in \<^verbatim>\<open>waitForBurger\<close> and the rack is empty, or a cook has posted \<^verbatim>\<open>rackEmpty\<close> and
  there is a burger.
\<close>

definition rack_phase :: "cashier_pc \<Rightarrow> bbc \<Rightarrow> bool" where
  "rack_phase pc s =
     (case pc of
        Ca_wait \<Rightarrow> waitForBurger s + int (rackEmpty s) = 1 \<and> (rackEmpty s > 0 \<longrightarrow> rack s \<ge> 1)
      | Ca_relock \<Rightarrow> rack s \<ge> 1 \<and> waitForBurger s = 0 \<and> rackEmpty s = 0
      | Ca_take \<Rightarrow> rack s \<ge> 1 \<and> waitForBurger s = 0 \<and> rackEmpty s = 0
      | Ca_killed \<Rightarrow> True
      | _ \<Rightarrow> waitForBurger s = 0 \<and> rackEmpty s = 0)"

definition rack_inv :: "bbc \<Rightarrow> bool" where
  "rack_inv s \<longleftrightarrow>
     0 \<le> rack s \<and> 0 \<le> waitForBurger s \<and> waitForBurger s \<le> 1 \<and> (waitForBurger s > 0 \<longrightarrow> rack s = 0) \<and>
     (case owner s CA of
        Some (Cashier i) \<Rightarrow> rack_phase (cashier_at s i) s
      | _ \<Rightarrow> waitForBurger s = 0 \<and> rackEmpty s = 0)"

lemma rack_inv_cong:
  assumes "rack s' = rack s" "waitForBurger s' = waitForBurger s" "rackEmpty s' = rackEmpty s"
    "owner s' CA = owner s CA" "\<And>i. owner s CA = Some (Cashier i) \<Longrightarrow> cashier_at s' i = cashier_at s i"
  shows "rack_inv s' = rack_inv s"
proof -
  have "rack_phase pc s' = rack_phase pc s" for pc by (simp only: rack_phase_def assms(1-3))
  then show ?thesis
    using assms by (simp add: rack_inv_def split: option.split thread.split)
qed

lemma rack_phase_more:
  assumes "rack_phase pc s" "0 \<le> rack s" "0 \<le> waitForBurger s" "waitForBurger s \<le> 1"
    "waitForBurger s > 0 \<longrightarrow> rack s = 0"
  shows "rack_phase pc (cook_make s)"
  using assms by (cases pc) (auto simp: rack_phase_def cook_make_def Let_def)

lemma rack_inv_more:
  assumes "rack_inv s"
  shows "rack_inv (cook_make s)"
proof -
  have "owner (cook_make s) = owner s" "cashier_at (cook_make s) = cashier_at s"
    by (simp_all add: cook_make_def Let_def)
  moreover have "rack_phase pc (cook_make s)" if "rack_phase pc s" for pc
    using assms that by (intro rack_phase_more) (simp_all add: rack_inv_def)
  moreover have "waitForBurger (cook_make s) = 0 \<and> rackEmpty (cook_make s) = 0"
    if "waitForBurger s = 0 \<and> rackEmpty s = 0"
    using that by (simp add: cook_make_def Let_def)
  moreover have "0 \<le> rack (cook_make s)" "0 \<le> waitForBurger (cook_make s)" "waitForBurger (cook_make s) \<le> 1"
    "waitForBurger (cook_make s) > 0 \<longrightarrow> rack (cook_make s) = 0"
    using assms by (auto simp: rack_inv_def cook_make_def Let_def)
  ultimately show ?thesis
    using assms unfolding rack_inv_def by (auto split: option.splits thread.splits)
qed

lemma rack_inv_cook:
  assumes inv: "rack_inv s" and st: "cook c i s = Some s'"
  shows "rack_inv s'"
proof (cases "cook_at s i = Ck_make")
  case True
  then have "s' = cook_goto i Ck_done (unlock CheckRack (cook_make s))"
    using st by (simp add: cook_def)
  then have "rack_inv s' = rack_inv (cook_make s)" by (intro rack_inv_cong) (simp_all add: unlock_def)
  then show ?thesis using rack_inv_more [OF inv] by blast
next
  case False
  then have "rack s' = rack s" "waitForBurger s' = waitForBurger s" "rackEmpty s' = rackEmpty s"
    "owner s' CA = owner s CA"
    using st by (auto simp: cook_def lock_def unlock_def split: cook_pc.splits if_splits)
  then have "rack_inv s' = rack_inv s" by (rule rack_inv_cong) (simp add: cook_frame(1) [OF st])
  then show ?thesis using inv by blast
qed

lemma rack_inv_cashier:
  assumes own: "owner_inv s" and inv: "rack_inv s" and st: "cashier c i s = Some s'"
  shows "rack_inv s'"
proof (cases "owner s CA = Some (Cashier i)")
  case True
  then have "rack_phase (cashier_at s i) s" using inv by (simp add: rack_inv_def)
  then show ?thesis
    using True inv st
    by (cases "cashier_at s i")
       (auto simp: rack_inv_def rack_phase_def cashier_def bbc_defs split: if_splits)
next
  case False
  then have "cashier_at s i \<in> {Ca_start, Ca_enqueue, Ca_sleep, Ca_lockCA, Ca_lockCnt, Ca_count, Ca_killed}"
    using owner_invD(2) [OF own, of i CA] by (cases "cashier_at s i") simp_all
  moreover have "rack_inv s'" if "cashier_at s i = Ca_lockCA"
    using that st False inv
    by (auto simp: cashier_def lock_def rack_inv_def rack_phase_def split: if_splits)
  moreover have "rack_inv s'" if "cashier_at s i \<in> {Ca_start, Ca_enqueue, Ca_sleep, Ca_lockCnt, Ca_count}"
  proof -
    have "rack s' = rack s" "waitForBurger s' = waitForBurger s" "rackEmpty s' = rackEmpty s"
      "owner s' CA = owner s CA"
      using st that by (auto simp: cashier_def bbc_defs split: if_splits)
    moreover have "cashier_at s' j = cashier_at s j" if "owner s CA = Some (Cashier j)" for j
      using cashier_frame(4) [OF st] that False by auto
    ultimately have "rack_inv s' = rack_inv s" by (rule rack_inv_cong)
    then show ?thesis using inv by blast
  qed
  ultimately show ?thesis using st by (auto simp: cashier_def)
qed

lemma rack_inv_customer:
  assumes inv: "rack_inv s" and st: "customer c i s = Some s'"
  shows "rack_inv s'"
proof -
  have "owner s' CA = owner s CA"
    using st by (auto simp: customer_def bbc_defs split: customer_pc.splits if_splits prod.splits)
  with customer_frame(4-6) [OF st] have "rack_inv s' = rack_inv s"
    by (rule rack_inv_cong) (simp add: customer_frame(2) [OF st])
  then show ?thesis using inv by blast
qed

lemma manager_frame:
  assumes "manager c s = Some s'"
  shows "rack s' = rack s" "waitForBurger s' = waitForBurger s" "rackEmpty s' = rackEmpty s"
    "owner s' = owner s" "customer_at s' = customer_at s" "queue s' = queue s"
    "waitForCashier s' = waitForCashier s" "cashiersAllBusy s' = cashiersAllBusy s"
    "cashierAvailable s' = cashierAvailable s" "customersServed s' = customersServed s"
    "cashier_at s' j = cashier_at s j \<or> cashier_at s' j = Ca_killed"
  using assms by (cases "manager_at s"; auto simp: manager_def split: if_splits)+

lemma rack_inv_manager:
  assumes inv: "rack_inv s" and st: "manager c s = Some s'"
  shows "rack_inv s'"
proof -
  have "rack_phase pc s' = rack_phase pc s" for pc
    by (simp only: rack_phase_def manager_frame(1-3) [OF st])
  moreover have "rack_phase Ca_killed s'" by (simp add: rack_phase_def)
  ultimately have "rack_phase (cashier_at s' i) s'" if "rack_phase (cashier_at s i) s" for i
    using manager_frame(11) [OF st, of i] that by metis
  then show ?thesis
    using inv unfolding rack_inv_def manager_frame(1-4) [OF st]
    by (simp split: option.splits thread.splits)
qed

lemma rack_inv_main: "rack_inv (bbc_main c)"
  by (simp add: rack_inv_def bbc_main_def)



section \<open>The queue of cashiers\<close>

text \<open>
  A sleeping cashier is in exactly one place: in the queue, in the hands of a customer that has taken
  it from the queue, or woken by its semaphore. \<open>tokens s j\<close> counts these places.
\<close>

abbreviation cqueue :: "config \<Rightarrow> bbc \<Rightarrow> int list" where
  "cqueue c s \<equiv> ring_list (int (cashiers c)) (queue s)"

definition tokens :: "config \<Rightarrow> bbc \<Rightarrow> nat \<Rightarrow> nat" where
  "tokens c s j =
     of_bool (int j \<in> set (cqueue c s)) + of_bool (\<exists>k. customer_at s k = Cu_post (int j)) +
     cashierAvailable s (int j - 1)"

definition tokens_ok :: "cashier_pc \<Rightarrow> nat \<Rightarrow> bool" where
  "tokens_ok pc n = (if pc = Ca_sleep then n = 1 else if pc = Ca_killed then n \<le> 1 else n = 0)"

definition queue_phase :: "config \<Rightarrow> customer_pc \<Rightarrow> bbc \<Rightarrow> bool" where
  "queue_phase c pc s =
     (if pc = Cu_wait then waitForCashier s + int (cashiersAllBusy s) = 1 \<and>
        (cashiersAllBusy s > 0 \<longrightarrow> cqueue c s \<noteq> [])
      else (pc = Cu_relock \<or> pc = Cu_dequeue \<longrightarrow> cqueue c s \<noteq> []) \<and>
        waitForCashier s = 0 \<and> cashiersAllBusy s = 0)"

definition counters_inv :: "config \<Rightarrow> bbc \<Rightarrow> bool" where
  "counters_inv c s \<longleftrightarrow>
     0 \<le> waitForCashier s \<and> waitForCashier s \<le> 1 \<and> (waitForCashier s > 0 \<longrightarrow> cqueue c s = []) \<and>
     (case owner s CM of
        Some (Customer k) \<Rightarrow> queue_phase c (customer_at s k) s
      | _ \<Rightarrow> waitForCashier s = 0 \<and> cashiersAllBusy s = 0)"

definition places_inv :: "config \<Rightarrow> bbc \<Rightarrow> bool" where
  "places_inv c s \<longleftrightarrow>
     ring_ok (int (cashiers c)) (queue s) \<and> distinct (cqueue c s) \<and>
     set (cqueue c s) \<subseteq> {1..int (cashiers c)} \<and>
     (\<forall>k v. customer_at s k = Cu_post v \<longrightarrow> v \<in> {1..int (cashiers c)}) \<and>
     (\<forall>j. tokens_ok (cashier_at s j) (tokens c s j))"

lemma places_invD: "places_inv c s \<Longrightarrow> tokens_ok (cashier_at s j) (tokens c s j)"
  by (simp add: places_inv_def)

lemma counters_inv_cong:
  assumes "waitForCashier s' = waitForCashier s" "cashiersAllBusy s' = cashiersAllBusy s"
    "queue s' = queue s" "owner s' CM = owner s CM" "customer_at s' = customer_at s"
  shows "counters_inv c s' = counters_inv c s"
proof -
  have "queue_phase c pc s' = queue_phase c pc s" for pc by (simp only: queue_phase_def assms(1-3))
  then show ?thesis by (simp add: counters_inv_def assms split: option.split thread.split)
qed

lemma places_inv_cong:
  assumes "places_inv c s" "queue s' = queue s" "customer_at s' = customer_at s"
    "cashierAvailable s' = cashierAvailable s"
    "\<And>j. cashier_at s' j = cashier_at s j \<or> cashier_at s' j = Ca_killed \<or>
       cashier_at s j \<notin> {Ca_sleep, Ca_killed} \<and> cashier_at s' j \<notin> {Ca_sleep, Ca_killed}"
  shows "places_inv c s'"
proof -
  have "tokens c s' = tokens c s" by (simp add: tokens_def fun_eq_iff assms(2-4))
  moreover have "tokens_ok (cashier_at s' j) n" if "tokens_ok (cashier_at s j) n" for j n
    using assms(5) [of j] that by (auto simp: tokens_ok_def split: if_splits)
  ultimately show ?thesis using assms(1) by (auto simp: places_inv_def assms(2-4))
qed

lemma counters_inv_cook: "counters_inv c s \<Longrightarrow> cook c i s = Some s' \<Longrightarrow> counters_inv c s'"
proof -
  assume inv: "counters_inv c s" and st: "cook c i s = Some s'"
  have "owner s' CM = owner s CM" using st by (auto simp: cook_def bbc_defs split: cook_pc.splits if_splits)
  with inv cook_frame [OF st] show ?thesis using counters_inv_cong [of s' s c] by blast
qed

lemma places_inv_cook: "places_inv c s \<Longrightarrow> cook c i s = Some s' \<Longrightarrow> places_inv c s'"
  using places_inv_cong [of c s s'] cook_frame [of c i s s'] by simp

lemma counters_inv_manager: "counters_inv c s \<Longrightarrow> manager c s = Some s' \<Longrightarrow> counters_inv c s'"
  using counters_inv_cong [of s' s c] manager_frame [of c s s'] by simp

lemma places_inv_manager: "places_inv c s \<Longrightarrow> manager c s = Some s' \<Longrightarrow> places_inv c s'"
  using places_inv_cong [of c s s'] manager_frame [of c s s'] by blast

text \<open>A cashier that is about to enqueue is not in the queue, so there is room for it.\<close>

lemma queue_room:
  assumes inv: "places_inv c s" and pc: "cashier_at s i \<notin> {Ca_sleep, Ca_killed}" and i: "1 \<le> i" "i \<le> cashiers c"
  shows "int i \<notin> set (cqueue c s)" "length (cqueue c s) < cashiers c"
proof -
  have "tokens c s i = 0" using inv pc by (auto simp: places_inv_def tokens_ok_def dest: spec [of _ i])
  then show out: "int i \<notin> set (cqueue c s)" by (simp add: tokens_def)
  have "set (cqueue c s) \<subset> {1..int (cashiers c)}" using inv out i by (auto simp: places_inv_def)
  then have "card (set (cqueue c s)) < card {1..int (cashiers c)}" by (intro psubset_card_mono) simp_all
  then show "length (cqueue c s) < cashiers c" using inv by (simp add: places_inv_def distinct_card)
qed

lemma enqueue_queue:
  assumes inv: "places_inv c s" and pc: "cashier_at s i \<notin> {Ca_sleep, Ca_killed}" and i: "1 \<le> i" "i \<le> cashiers c"
  shows "ring_ok (int (cashiers c)) (enqueue (int (cashiers c)) (int i) (queue s))"
    "ring_list (int (cashiers c)) (enqueue (int (cashiers c)) (int i) (queue s)) = cqueue c s @ [int i]"
  using cashier_queue.put_inv cashier_queue.put_abs queue_room [OF assms] inv by (auto simp: places_inv_def)

lemma places_inv_enqueue:
  assumes inv: "places_inv c s" and pc: "cashier_at s i = Ca_enqueue" and i: "1 \<le> i" "i \<le> cashiers c"
  shows "places_inv c (cashier_goto i Ca_sleep (unlock QueueMutex (cashier_enqueue c i s)))" (is "places_inv c ?s")
proof -
  have pc': "cashier_at s i \<notin> {Ca_sleep, Ca_killed}" using pc by simp
  note room = queue_room [OF inv pc' i] and q = enqueue_queue [OF inv pc' i]
  have f: "queue ?s = enqueue (int (cashiers c)) (int i) (queue s)" "customer_at ?s = customer_at s"
    "cashierAvailable ?s = cashierAvailable s" "cashier_at ?s = (cashier_at s)(i := Ca_sleep)"
    by (simp_all add: unlock_def cashier_enqueue_def Let_def)
  have t0: "tokens c s i = 0"
    using inv pc by (auto simp: places_inv_def tokens_ok_def dest: spec [of _ i])
  have "tokens c ?s j = (if j = i then 1 else tokens c s j)" for j
    using t0 by (simp add: tokens_def f(1-3) q(2))
  then have "tokens_ok (cashier_at ?s j) (tokens c ?s j)" for j
    using places_invD [OF inv, of j] by (auto simp: f(4) tokens_ok_def split: if_splits)
  then show ?thesis
    using inv q room i unfolding places_inv_def f by simp
qed

lemma counters_inv_enqueue:
  assumes pl: "places_inv c s" and inv: "counters_inv c s"
    and pc: "cashier_at s i = Ca_enqueue" and i: "1 \<le> i" "i \<le> cashiers c"
  shows "counters_inv c (cashier_goto i Ca_sleep (unlock QueueMutex (cashier_enqueue c i s)))"
    (is "counters_inv c ?s")
proof -
  have pc': "cashier_at s i \<notin> {Ca_sleep, Ca_killed}" using pc by simp
  note q = enqueue_queue [OF pl pc' i]
  let ?q = "enqueue (int (cashiers c)) (int i) (queue s)"
  have size: "queueSize (int (cashiers c)) ?q = int (length (cqueue c s)) + 1"
    using cashier_queue.size_abs [OF q(1)] q(2) by simp
  have f: "queue ?s = ?q" "owner ?s CM = owner s CM" "customer_at ?s = customer_at s"
    by (simp_all add: unlock_def cashier_enqueue_def Let_def)
  have w: "waitForCashier ?s = 0"
    "int (cashiersAllBusy ?s) = int (cashiersAllBusy s) + waitForCashier s"
    using inv by (auto simp: unlock_def cashier_enqueue_def Let_def size counters_inv_def)
  have Q: "cqueue c ?s \<noteq> []" using q(2) f(1) by simp
  have "queue_phase c p ?s" if "queue_phase c p s" for p
    using that Q w unfolding queue_phase_def by (auto split: if_splits)
  moreover have "cashiersAllBusy ?s = 0" if "waitForCashier s = 0" "cashiersAllBusy s = 0" using w that by simp
  ultimately show ?thesis
    using inv w(1) unfolding counters_inv_def f(2,3) by (auto split: option.splits thread.splits)
qed

lemma places_inv_wake:
  assumes inv: "places_inv c s" and pc: "cashier_at s i = Ca_sleep" and av: "cashierAvailable s (int i - 1) > 0"
  shows "places_inv c (cashier_goto i Ca_lockCA (s\<lparr>cashierAvailable :=
    (cashierAvailable s)(int i - 1 := cashierAvailable s (int i - 1) - 1)\<rparr>))" (is "places_inv c ?s")
proof -
  have "tokens c s i = 1" using inv pc by (auto simp: places_inv_def tokens_ok_def dest: spec [of _ i])
  then have "int i \<notin> set (cqueue c s)" "\<not> (\<exists>k. customer_at s k = Cu_post (int i))"
    "cashierAvailable s (int i - 1) = 1"
    using av by (auto simp: tokens_def of_bool_def split: if_splits)
  then have "tokens c ?s j = (if j = i then 0 else tokens c s j)" for j by (simp add: tokens_def)
  then have "tokens_ok (cashier_at ?s j) (tokens c ?s j)" for j
    using places_invD [OF inv, of j] by (auto simp: tokens_ok_def split: if_splits)
  then show ?thesis using inv by (simp add: places_inv_def)
qed

lemma places_inv_cashier:
  assumes inv: "places_inv c s" and i: "1 \<le> i" "i \<le> cashiers c" and st: "cashier c i s = Some s'"
  shows "places_inv c s'"
proof (cases "cashier_at s i \<in> {Ca_enqueue, Ca_sleep}")
  case True
  then show ?thesis
    using st places_inv_enqueue [OF inv _ i] places_inv_wake [OF inv]
    by (auto simp: cashier_def split: if_splits)
next
  case False
  then have "queue s' = queue s" "cashierAvailable s' = cashierAvailable s"
    "cashier_at s' i \<notin> {Ca_sleep, Ca_killed} \<and> cashier_at s i \<notin> {Ca_sleep, Ca_killed}"
    using st by (auto simp: cashier_def bbc_defs split: cashier_pc.splits if_splits)
  moreover have "cashier_at s' j = cashier_at s j" if "j \<noteq> i" for j using cashier_frame(4) [OF st] that by auto
  ultimately show ?thesis using places_inv_cong [OF inv, of s'] cashier_frame(2) [OF st] by metis
qed

lemma counters_inv_cashier:
  assumes pl: "places_inv c s" and inv: "counters_inv c s" and i: "1 \<le> i" "i \<le> cashiers c"
    and st: "cashier c i s = Some s'"
  shows "counters_inv c s'"
proof (cases "cashier_at s i = Ca_enqueue")
  case True
  then show ?thesis using st counters_inv_enqueue [OF pl inv _ i] by (auto simp: cashier_def)
next
  case False
  then have "waitForCashier s' = waitForCashier s" "cashiersAllBusy s' = cashiersAllBusy s"
    "queue s' = queue s" "owner s' CM = owner s CM"
    using st by (auto simp: cashier_def lock_def unlock_def cashier_take_def cashier_count_def Let_def
        split: cashier_pc.splits if_splits)
  then show ?thesis using inv counters_inv_cong [of s' s c] cashier_frame(2) [OF st] by blast
qed

text \<open>At most one customer holds a cashier taken from the queue.\<close>

lemma post_unique:
  assumes "owner_inv s" "owner s CM = Some (Customer i)" "customer_at s k = Cu_post v"
  shows "k = i"
  using owner_invD(3) [OF assms(1), of k CM] assms(2,3) by simp

lemma places_inv_dequeue:
  assumes own: "owner_inv s" and inv: "places_inv c s" and pc: "customer_at s i = Cu_dequeue"
    and Q: "cqueue c s = v # vs"
  shows "places_inv c (customer_goto i (Cu_post v) (unlock QueueMutex
    (s\<lparr>queue := snd (dequeue (int (cashiers c)) (queue s))\<rparr>)))" (is "places_inv c ?s")
proof -
  have ok: "ring_ok (int (cashiers c)) (queue s)" using inv by (simp add: places_inv_def)
  have q: "cqueue c ?s = vs" using ring_list_dequeue(1) [OF ok] Q by (simp add: unlock_def)
  have CM: "owner s CM = Some (Customer i)" using owner_invD(3) [OF own, of i CM] pc by simp
  have d: "v \<notin> set vs" using inv Q by (simp add: places_inv_def)
  have no: "customer_at s k \<noteq> Cu_post w" for k w using post_unique [OF own CM, of k w] pc by auto
  have "tokens c ?s j = tokens c s j" for j
    unfolding tokens_def q Q using no d by (auto simp: unlock_def)
  then have "tokens_ok (cashier_at ?s j) (tokens c ?s j)" for j
    using places_invD [OF inv, of j] by (simp add: unlock_def)
  moreover have "ring_ok (int (cashiers c)) (queue ?s)" using ring_ok_dequeue [OF ok] by (simp add: unlock_def)
  ultimately show ?thesis
    using inv Q no unfolding places_inv_def q by (auto simp: unlock_def)
qed

lemma places_inv_post:
  assumes own: "owner_inv s" and inv: "places_inv c s" and pc: "customer_at s i = Cu_post v"
  shows "places_inv c (customer_goto i Cu_unlockCM (s\<lparr>cashierAvailable :=
    (cashierAvailable s)(v - 1 := cashierAvailable s (v - 1) + 1)\<rparr>))" (is "places_inv c ?s")
proof -
  have CM: "owner s CM = Some (Customer i)" using owner_invD(3) [OF own, of i CM] pc by simp
  have only: "customer_at s k = Cu_post w \<longleftrightarrow> k = i \<and> w = v" for k w
    using post_unique [OF own CM, of k w] pc by auto
  have "tokens c ?s j = tokens c s j" for j unfolding tokens_def using only by auto
  then have "tokens_ok (cashier_at ?s j) (tokens c ?s j)" for j using places_invD [OF inv, of j] by simp
  then show ?thesis using inv unfolding places_inv_def by auto
qed

lemma queue_phase_owner:
  assumes own: "owner_inv s" and inv: "counters_inv c s" and pc: "customer_at s i \<notin> {Cu_start, Cu_exit}"
  shows "owner s CM = Some (Customer i)" "queue_phase c (customer_at s i) s"
  using owner_invD(3) [OF own, of i CM] pc inv by (simp_all add: counters_inv_def)

lemma dequeue_nonempty:
  assumes "owner_inv s" "counters_inv c s" "places_inv c s" "customer_at s i = Cu_dequeue"
  obtains v vs where "cqueue c s = v # vs" "fst (dequeue (int (cashiers c)) (queue s)) = v" "1 \<le> v"
    "v \<le> int (cashiers c)"
proof -
  have "cqueue c s \<noteq> []" using queue_phase_owner(2) [OF assms(1,2), of i] assms(4) by (simp add: queue_phase_def)
  then obtain v vs where Q: "cqueue c s = v # vs" by (cases "cqueue c s") auto
  have "ring_ok (int (cashiers c)) (queue s)" using assms(3) by (simp add: places_inv_def)
  from ring_list_dequeue(2) [OF this] Q have "fst (dequeue (int (cashiers c)) (queue s)) = v" by simp
  moreover have "1 \<le> v" "v \<le> int (cashiers c)" using assms(3) Q by (simp_all add: places_inv_def)
  ultimately show thesis using that Q by blast
qed

lemma places_inv_same_posts:
  assumes "places_inv c s" "queue s' = queue s" "cashierAvailable s' = cashierAvailable s"
    "cashier_at s' = cashier_at s" "\<And>k v. customer_at s' k = Cu_post v \<longleftrightarrow> customer_at s k = Cu_post v"
  shows "places_inv c s'"
proof -
  have "tokens c s' = tokens c s" by (simp add: tokens_def fun_eq_iff assms(2,3,5))
  then show ?thesis using assms(1) by (simp add: places_inv_def assms(2-5))
qed

lemma places_inv_customer:
  assumes own: "owner_inv s" and cnt: "counters_inv c s" and inv: "places_inv c s"
    and st: "customer c i s = Some s'"
  shows "places_inv c s'"
proof (cases "customer_at s i = Cu_dequeue \<or> (\<exists>v. customer_at s i = Cu_post v)")
  case False
  then have "queue s' = queue s" "cashierAvailable s' = cashierAvailable s"
    "customer_at s' k = Cu_post v \<longleftrightarrow> customer_at s k = Cu_post v" for k v
    using st by (auto simp: customer_def lock_def unlock_def split: customer_pc.splits if_splits)
  then show ?thesis by (rule places_inv_same_posts [OF inv _ _ customer_frame(2) [OF st]])
next
  case True
  then show ?thesis
  proof
    assume Cu_dequeue: "customer_at s i = Cu_dequeue"
    obtain v vs where "cqueue c s = v # vs" "fst (dequeue (int (cashiers c)) (queue s)) = v"
      by (rule dequeue_nonempty [OF own cnt inv Cu_dequeue])
    then show ?thesis
      using st places_inv_dequeue [OF own inv Cu_dequeue] by (auto simp: customer_def Cu_dequeue split_beta)
  next
    assume "\<exists>v. customer_at s i = Cu_post v"
    then show ?thesis using st places_inv_post [OF own inv] by (auto simp: customer_def)
  qed
qed

lemma counters_inv_customer:
  assumes own: "owner_inv s" and pl: "places_inv c s" and inv: "counters_inv c s"
    and st: "customer c i s = Some s'"
  shows "counters_inv c s'"
proof (cases "customer_at s i \<in> {Cu_start, Cu_exit}")
  case True
  then show ?thesis
    using st inv by (auto simp: customer_def lock_def counters_inv_def queue_phase_def split: if_splits)
next
  case False
  note CM = queue_phase_owner [OF own inv False]
  have size: "queueSize (int (cashiers c)) (queue s) = int (length (cqueue c s))"
    by (rule cashier_queue.size_abs) (use pl in \<open>simp add: places_inv_def\<close>)
  show ?thesis
  proof (cases "customer_at s i")
    case Cu_dequeue
    obtain v vs where "cqueue c s = v # vs" by (rule dequeue_nonempty [OF own inv pl Cu_dequeue])
    then show ?thesis
      using st CM inv by (auto simp: customer_def Cu_dequeue unlock_def counters_inv_def queue_phase_def split_beta)
  qed (use False st CM inv in
      \<open>auto simp: customer_def lock_def unlock_def counters_inv_def queue_phase_def size split: if_splits\<close>)
qed



section \<open>Customers served\<close>

text \<open>
  Every customer that has woken a cashier is accounted for: its cashier has not yet woken up, is
  serving it, or has counted it in \<^verbatim>\<open>customersServed\<close>.
\<close>

definition busy :: "cashier_pc \<Rightarrow> int" where
  "busy pc = of_bool (pc \<notin> {Ca_start, Ca_enqueue, Ca_sleep, Ca_killed})"

definition departed :: "customer_pc \<Rightarrow> int" where
  "departed pc = of_bool (pc = Cu_unlockCM \<or> pc = Cu_exit)"

definition n_busy :: "config \<Rightarrow> bbc \<Rightarrow> int" where
  "n_busy c s = (\<Sum>j \<in> {1..cashiers c}. busy (cashier_at s j))"

definition n_woken :: "config \<Rightarrow> bbc \<Rightarrow> int" where
  "n_woken c s = (\<Sum>j \<in> {1..cashiers c}. int (cashierAvailable s (int j - 1)))"

definition n_departed :: "config \<Rightarrow> bbc \<Rightarrow> int" where
  "n_departed c s = (\<Sum>k \<in> {1..customers c}. departed (customer_at s k))"

definition count_inv :: "config \<Rightarrow> bbc \<Rightarrow> bool" where
  "count_inv c s \<longleftrightarrow>
     0 \<le> customersServed s \<and>
     customersServed s + n_busy c s + n_woken c s \<le> n_departed c s \<and>
     (manager_at s = Ma_wait \<longrightarrow> customersServed s + n_busy c s + n_woken c s = n_departed c s) \<and>
     int (finish s) + of_bool (manager_at s \<noteq> Ma_wait) =
       of_bool (customersServed s = int (customers c) \<and> customers c \<noteq> 0)"

lemma sum_upd:
  assumes "finite A" "i \<in> A"
  shows "(\<Sum>j \<in> A. F ((g(i := v)) j)) = (\<Sum>j \<in> A. F (g j)) - F (g i) + (F v :: int)"
proof -
  have "(\<Sum>j \<in> A - {i}. F ((g(i := v)) j)) = (\<Sum>j \<in> A - {i}. F (g j))" by (rule sum.cong) auto
  then show ?thesis by (simp add: sum.remove [OF assms])
qed

lemma n_departed_le: "n_departed c s \<le> int (customers c)"
proof -
  have "n_departed c s \<le> (\<Sum>k \<in> {1..customers c}. 1)"
    unfolding n_departed_def by (rule sum_mono) (simp add: departed_def)
  then show ?thesis by simp
qed

lemma n_nonneg: "0 \<le> n_busy c s" "0 \<le> n_woken c s"
  by (simp_all add: n_busy_def n_woken_def busy_def sum_nonneg)

lemma count_inv_cook:
  assumes "count_inv c s" "cook c i s = Some s'"
  shows "count_inv c s'"
  using assms(1) cook_frame [OF assms(2)]
  by (simp add: count_inv_def n_busy_def n_woken_def n_departed_def)

lemma n_busy_cashier:
  assumes "cashier c i s = Some s'" "1 \<le> i" "i \<le> cashiers c"
  shows "n_busy c s' = n_busy c s - busy (cashier_at s i) + busy (cashier_at s' i)"
proof -
  obtain pc where pc: "cashier_at s' = (cashier_at s)(i := pc)" using cashier_frame(4) [OF assms(1)] by blast
  have "i \<in> {1..cashiers c}" using assms(2,3) by simp
  from sum_upd [where F = busy, OF _ this] show ?thesis by (simp add: n_busy_def pc)
qed

lemma n_woken_upd:
  assumes "v \<in> {1..int (cashiers c)}"
    "cashierAvailable s' = (cashierAvailable s)(v - 1 := n)"
  shows "n_woken c s' = n_woken c s - int (cashierAvailable s (v - 1)) + int n"
proof -
  let ?g = "\<lambda>j. cashierAvailable s (int j - 1)"
  have v: "nat v \<in> {1..cashiers c}" "int (nat v) = v" using assms(1) by auto
  have "cashierAvailable s' (int j - 1) = (?g(nat v := n)) j" for j
    using assms by auto
  then have "n_woken c s' = (\<Sum>j \<in> {1..cashiers c}. int ((?g(nat v := n)) j))"
    unfolding n_woken_def by (simp only:)
  also have "\<dots> = n_woken c s - int (?g (nat v)) + int n"
    unfolding n_woken_def by (rule sum_upd) (use v in simp_all)
  finally show ?thesis by (simp only: v(2))
qed

lemma count_inv_cashier:
  assumes inv: "count_inv c s" and i: "1 \<le> i" "i \<le> cashiers c" and st: "cashier c i s = Some s'"
  shows "count_inv c s'"
proof -
  note b = n_busy_cashier [OF st i]
  have d: "n_departed c s' = n_departed c s" using cashier_frame(2) [OF st] by (simp add: n_departed_def)
  note m = cashier_frame(3) [OF st]
  consider (sleep) "cashier_at s i = Ca_sleep" | (count) "cashier_at s i = Ca_count"
    | (other) "cashier_at s i \<notin> {Ca_sleep, Ca_count}" by blast
  then show ?thesis
  proof cases
    case sleep
    have "customersServed s' = customersServed s" "finish s' = finish s" "cashier_at s' i = Ca_lockCA"
      "cashierAvailable s (int i - 1) > 0" "cashierAvailable s' =
        (cashierAvailable s)(int i - 1 := cashierAvailable s (int i - 1) - 1)"
      using st sleep by (auto simp: cashier_def split: if_splits)
    moreover have "n_woken c s' = n_woken c s - 1"
      using n_woken_upd [of "int i" c s' s, OF _ calculation(5)] calculation(4) i by simp
    ultimately show ?thesis using inv b d m sleep by (auto simp: count_inv_def busy_def)
  next
    case count
    have "n_woken c s' = n_woken c s" "cashier_at s' i = Ca_start"
      "customersServed s' = customersServed s + 1"
      "finish s' = (if customersServed s' = int (customers c) then finish s + 1 else finish s)"
      using st count by (auto simp: cashier_def unlock_def cashier_count_def Let_def n_woken_def split: if_splits)
    moreover have "1 \<le> n_busy c s"
    proof -
      have "busy (cashier_at s i) \<le> n_busy c s"
        unfolding n_busy_def using i by (intro member_le_sum) (simp_all add: busy_def)
      then show ?thesis by (simp add: count busy_def)
    qed
    moreover have "customersServed s < int (customers c)"
      using inv n_departed_le [of c s] n_nonneg(2) [of c s] \<open>1 \<le> n_busy c s\<close> by (simp add: count_inv_def)
    ultimately show ?thesis using inv b d m count by (auto simp: count_inv_def busy_def)
  next
    case other
    have "n_woken c s' = n_woken c s" "customersServed s' = customersServed s" "finish s' = finish s"
      "busy (cashier_at s' i) = busy (cashier_at s i)"
      using st other by (auto simp: cashier_def lock_def unlock_def cashier_enqueue_def cashier_take_def Let_def
          n_woken_def busy_def split: cashier_pc.splits if_splits)
    then show ?thesis using inv b d m by (simp add: count_inv_def)
  qed
qed

lemma count_inv_customer:
  assumes pl: "places_inv c s" and inv: "count_inv c s" and i: "1 \<le> i" "i \<le> customers c"
    and st: "customer c i s = Some s'"
  shows "count_inv c s'"
proof -
  obtain pc where pc: "customer_at s' = (customer_at s)(i := pc)" using customer_frame(9) [OF st] by blast
  have "i \<in> {1..customers c}" using i by simp
  from sum_upd [where F = departed, OF _ this]
  have d: "n_departed c s' = n_departed c s - departed (customer_at s i) + departed (customer_at s' i)"
    by (simp add: n_departed_def pc)
  have b: "n_busy c s' = n_busy c s" using customer_frame(2) [OF st] by (simp add: n_busy_def)
  note f = customer_frame(3,7,8) [OF st]
  show ?thesis
  proof (cases "\<exists>v. customer_at s i = Cu_post v")
    case True
    then obtain v where v: "customer_at s i = Cu_post v" by blast
    then have a: "cashierAvailable s' = (cashierAvailable s)(v - 1 := cashierAvailable s (v - 1) + 1)"
      "customer_at s' i = Cu_unlockCM" using st by (auto simp: customer_def)
    have "v \<in> {1..int (cashiers c)}" using pl v by (auto simp: places_inv_def)
    from n_woken_upd [OF this a(1)] have "n_woken c s' = n_woken c s + 1" by simp
    then show ?thesis using inv b d f a(2) v by (auto simp: count_inv_def departed_def)
  next
    case False
    then have "n_woken c s' = n_woken c s" "departed (customer_at s' i) = departed (customer_at s i)"
      using st by (auto simp: customer_def lock_def unlock_def n_woken_def departed_def
          split: customer_pc.splits if_splits prod.splits)
    then show ?thesis using inv b d f by (simp add: count_inv_def)
  qed
qed

lemma count_inv_manager:
  assumes inv: "count_inv c s" and st: "manager c s = Some s'"
  shows "count_inv c s'"
proof -
  have f: "n_woken c s' = n_woken c s" "n_departed c s' = n_departed c s"
    "customersServed s' = customersServed s"
    using manager_frame(5,9,10) [OF st] by (simp_all add: n_woken_def n_departed_def)
  have "n_busy c s' \<le> n_busy c s"
    unfolding n_busy_def
  proof (rule sum_mono)
    fix j
    show "busy (cashier_at s' j) \<le> busy (cashier_at s j)"
      using manager_frame(11) [OF st, of j] by (auto simp: busy_def)
  qed
  moreover have "int (finish s') + of_bool (manager_at s' \<noteq> Ma_wait) =
      int (finish s) + of_bool (manager_at s \<noteq> Ma_wait)" "manager_at s' \<noteq> Ma_wait"
    using st by (auto simp: manager_def split: manager_pc.splits if_splits)
  ultimately show ?thesis using inv f by (simp add: count_inv_def)
qed

lemma count_inv_main: "count_inv c (bbc_main c)"
  by (auto simp: count_inv_def bbc_main_def n_busy_def n_woken_def n_departed_def busy_def departed_def)

lemma places_inv_main: "places_inv c (bbc_main c)"
  by (simp add: places_inv_def bbc_main_def ring_ok_init tokens_def tokens_ok_def)

lemma counters_inv_main: "counters_inv c (bbc_main c)"
  by (simp add: counters_inv_def bbc_main_def)

text \<open>The invariants together hold in every reachable state.\<close>

definition bbc_inv :: "config \<Rightarrow> bbc \<Rightarrow> bool" where
  "bbc_inv c s \<longleftrightarrow> owner_inv s \<and> rack_inv s \<and> places_inv c s \<and> counters_inv c s \<and> count_inv c s"

lemmas owner_inv_steps = owner_inv_cook owner_inv_cashier owner_inv_customer owner_inv_manager
lemmas rack_inv_steps = rack_inv_cook rack_inv_cashier rack_inv_customer rack_inv_manager
lemmas places_inv_steps = places_inv_cook places_inv_cashier places_inv_customer places_inv_manager
lemmas counters_inv_steps = counters_inv_cook counters_inv_cashier counters_inv_customer counters_inv_manager
lemmas count_inv_steps = count_inv_cook count_inv_cashier count_inv_customer count_inv_manager

lemma bbc_inv_step: "bbc_step c s s' \<Longrightarrow> bbc_inv c s \<Longrightarrow> bbc_inv c s'"
proof (induction rule: bbc_step.induct)
  case (Step_cook i s s')
  then show ?case unfolding bbc_inv_def
    using owner_inv_steps(1) rack_inv_steps(1) places_inv_steps(1) counters_inv_steps(1) count_inv_steps(1)
    by blast
next
  case (Step_cashier i s s')
  then show ?case unfolding bbc_inv_def
    using owner_inv_steps(2) rack_inv_steps(2) places_inv_steps(2) counters_inv_steps(2) count_inv_steps(2)
    by blast
next
  case (Step_customer i s s')
  then show ?case unfolding bbc_inv_def
    using owner_inv_steps(3) rack_inv_steps(3) places_inv_steps(3) counters_inv_steps(3) count_inv_steps(3)
    by blast
next
  case (Step_manager s s')
  then show ?case unfolding bbc_inv_def
    using owner_inv_steps(4) rack_inv_steps(4) places_inv_steps(4) counters_inv_steps(4) count_inv_steps(4)
    by blast
qed

lemma bbc_reachable_inv: "bbc_reachable c s \<Longrightarrow> bbc_inv c s"
proof (induction rule: bbc_reachable.induct)
  case Reach_main
  show ?case
    using owner_inv_main rack_inv_main places_inv_main counters_inv_main count_inv_main
    by (simp add: bbc_inv_def)
next
  case (Reach_step s s')
  then show ?case by (blast intro: bbc_inv_step)
qed



section \<open>Until the manager closes the shop\<close>

text \<open>
  As long as no thread has been dismissed, an owned mutex is held by a thread that will release it,
  and a cook that waits for room has either been posted or found the rack exactly full.
\<close>

definition in_range :: "config \<Rightarrow> thread \<Rightarrow> bool" where
  "in_range c t =
     (case t of
        Cook i \<Rightarrow> 1 \<le> i \<and> i \<le> cooks c
      | Cashier i \<Rightarrow> 1 \<le> i \<and> i \<le> cashiers c
      | Customer i \<Rightarrow> 1 \<le> i \<and> i \<le> customers c)"

definition open_inv :: "config \<Rightarrow> bbc \<Rightarrow> bool" where
  "open_inv c s \<longleftrightarrow>
     (\<forall>m t. owner s m = Some t \<longrightarrow> in_range c t \<and> holds s t m) \<and>
     (\<forall>i. cook_at s i = Ck_wait \<longrightarrow> rackFull s > 0 \<or> rack s = racksize c) \<and>
     (\<forall>i. cook_at s i \<noteq> Ck_killed) \<and> (\<forall>i. cashier_at s i \<noteq> Ca_killed)"

lemma open_inv_owner:
  assumes inv: "open_inv c s" and own: "owner_inv s" and t: "in_range c t" and mv: "thread_moves t s s'"
    and o1: "\<And>m. owner s' m = Some t \<Longrightarrow> holds s' t m"
    and o2: "\<And>m. owner s' m = owner s m \<or> owner s' m = Some t \<or> owner s' m = None"
  shows "\<forall>m u. owner s' m = Some u \<longrightarrow> in_range c u \<and> holds s' u m"
proof (intro allI impI)
  fix m u
  assume u: "owner s' m = Some u"
  show "in_range c u \<and> holds s' u m"
  proof (cases "u = t")
    case False
    then have "owner s m = Some u" using u o2 [of m] by auto
    then show ?thesis using inv mv False by (auto simp: open_inv_def thread_moves_def)
  qed (use u o1 t in auto)
qed

lemma holds_simps [simp]:
  "holds s (Cook i) m = cook_holds (cook_at s i) m"
  "holds s (Cashier i) m = cashier_holds (cashier_at s i) m"
  "holds s (Customer i) m = customer_holds (customer_at s i) m"
  by (simp_all add: holds_def)

lemma open_inv_cook:
  assumes inv: "open_inv c s" and own: "owner_inv s" and i: "1 \<le> i" "i \<le> cooks c"
    and st: "cook c i s = Some s'"
  shows "open_inv c s'"
proof -
  have "thread_moves (Cook i) s s'"
    using cook_frame [OF st] by (auto simp: thread_moves_def holds_def fun_eq_iff split: thread.splits)
  moreover have "holds s' (Cook i) m" if "owner s' m = Some (Cook i)" for m
  proof -
    have "owner s m = Some (Cook i) \<Longrightarrow> cook_holds (cook_at s i) m"
      using inv by (force simp: open_inv_def)
    then show ?thesis using st that
      by (cases m) (auto simp: cook_def bbc_defs split: cook_pc.splits if_splits)
  qed
  moreover have "owner s' m = owner s m \<or> owner s' m = Some (Cook i) \<or> owner s' m = None" for m
    using st by (auto simp: cook_def bbc_defs split: cook_pc.splits if_splits)
  ultimately have 1: "\<forall>m u. owner s' m = Some u \<longrightarrow> in_range c u \<and> holds s' u m"
    using i by (intro open_inv_owner [OF inv own, of "Cook i"]) (auto simp: in_range_def)
  have other: "cook_at s' j = cook_at s j" if "j \<noteq> i" for j using cook_frame(10) [OF st] that by auto
  have alone: "cook_at s j \<noteq> Ck_wait" if "j \<noteq> i" "rack s' \<noteq> rack s \<or> rackFull s' \<noteq> rackFull s" for j
  proof -
    have "cook_holds (cook_at s i) CK"
      using st that(2) by (auto simp: cook_def bbc_defs split: cook_pc.splits if_splits)
    then show ?thesis
      using owner_invD(1) [OF own, of i CK] owner_invD(1) [OF own, of j CK] that(1) by auto
  qed
  have "cook_at s' j = Ck_wait \<Longrightarrow> rackFull s' > 0 \<or> rack s' = racksize c" for j
  proof (cases "j = i")
    case True
    then show "cook_at s' j = Ck_wait \<Longrightarrow> rackFull s' > 0 \<or> rack s' = racksize c"
      using st by (auto simp: cook_def bbc_defs split: cook_pc.splits if_splits)
  next
    case False
    then show "cook_at s' j = Ck_wait \<Longrightarrow> rackFull s' > 0 \<or> rack s' = racksize c"
      using inv other [OF False] alone [OF False] unfolding open_inv_def by metis
  qed
  moreover have "cook_at s' j \<noteq> Ck_killed" for j
    using inv st by (auto simp: open_inv_def cook_def bbc_defs split: cook_pc.splits if_splits)
  ultimately show ?thesis
    using 1 inv cook_frame(1) [OF st] by (simp add: open_inv_def)
qed

lemma open_inv_cashier:
  assumes inv: "open_inv c s" and own: "owner_inv s" and i: "1 \<le> i" "i \<le> cashiers c"
    and st: "cashier c i s = Some s'"
  shows "open_inv c s'"
proof -
  have "thread_moves (Cashier i) s s'"
    using cashier_frame [OF st] by (auto simp: thread_moves_def holds_def fun_eq_iff split: thread.splits)
  moreover have "holds s' (Cashier i) m" if "owner s' m = Some (Cashier i)" for m
  proof -
    have "owner s m = Some (Cashier i) \<Longrightarrow> cashier_holds (cashier_at s i) m"
      using inv by (force simp: open_inv_def)
    then show ?thesis using st that
      by (cases m) (auto simp: cashier_def bbc_defs split: cashier_pc.splits if_splits)
  qed
  moreover have "owner s' m = owner s m \<or> owner s' m = Some (Cashier i) \<or> owner s' m = None" for m
    using st by (auto simp: cashier_def bbc_defs split: cashier_pc.splits if_splits)
  ultimately have 1: "\<forall>m u. owner s' m = Some u \<longrightarrow> in_range c u \<and> holds s' u m"
    using i by (intro open_inv_owner [OF inv own, of "Cashier i"]) (auto simp: in_range_def)
  have "rackFull s' \<ge> rackFull s \<and> rack s' = rack s \<or>
      rack s' = rack s - 1 \<and> rackFull s' = rackFull s + of_bool (rack s = racksize c)"
    using st by (auto simp: cashier_def bbc_defs split: cashier_pc.splits if_splits)
  then have "rackFull s > 0 \<or> rack s = racksize c \<Longrightarrow> rackFull s' > 0 \<or> rack s' = racksize c" by auto
  moreover have "cashier_at s' j \<noteq> Ca_killed" for j
    using inv st by (auto simp: open_inv_def cashier_def bbc_defs split: cashier_pc.splits if_splits)
  ultimately show ?thesis
    using 1 inv cashier_frame(1) [OF st] unfolding open_inv_def by metis
qed

lemma open_inv_customer:
  assumes inv: "open_inv c s" and own: "owner_inv s" and i: "1 \<le> i" "i \<le> customers c"
    and st: "customer c i s = Some s'"
  shows "open_inv c s'"
proof -
  have "thread_moves (Customer i) s s'"
    using customer_frame [OF st] by (auto simp: thread_moves_def holds_def fun_eq_iff split: thread.splits)
  moreover have "holds s' (Customer i) m" if "owner s' m = Some (Customer i)" for m
  proof -
    have "owner s m = Some (Customer i) \<Longrightarrow> customer_holds (customer_at s i) m"
      using inv by (force simp: open_inv_def)
    then show ?thesis using st that
      by (cases m) (auto simp: customer_def bbc_defs split: customer_pc.splits if_splits prod.splits)
  qed
  moreover have "owner s' m = owner s m \<or> owner s' m = Some (Customer i) \<or> owner s' m = None" for m
    using st by (auto simp: customer_def bbc_defs split: customer_pc.splits if_splits prod.splits)
  ultimately have 1: "\<forall>m u. owner s' m = Some u \<longrightarrow> in_range c u \<and> holds s' u m"
    using i by (intro open_inv_owner [OF inv own, of "Customer i"]) (auto simp: in_range_def)
  have "rackFull s' = rackFull s"
    using st by (auto simp: customer_def bbc_defs split: customer_pc.splits if_splits prod.splits)
  then show ?thesis
    using 1 inv customer_frame(1,2,4) [OF st] by (simp add: open_inv_def)
qed

lemma open_inv_main: "open_inv c (bbc_main c)"
  by (simp add: open_inv_def bbc_main_def)

lemma bbc_reachable_open: "bbc_reachable c s \<Longrightarrow> manager_at s = Ma_wait \<longrightarrow> open_inv c s"
proof (induction rule: bbc_reachable.induct)
  case Reach_main
  show ?case by (simp add: open_inv_main)
next
  case (Reach_step s s')
  have own: "owner_inv s" using bbc_reachable_inv [OF Reach_step.hyps(1)] by (simp add: bbc_inv_def)
  from Reach_step.hyps(2) Reach_step.IH show ?case
  proof cases
    case (Step_cook i)
    with own Reach_step.IH open_inv_cook cook_frame(3) show ?thesis by metis
  next
    case (Step_cashier i)
    with own Reach_step.IH open_inv_cashier cashier_frame(3) show ?thesis by metis
  next
    case (Step_customer i)
    with own Reach_step.IH open_inv_customer customer_frame(3) show ?thesis by metis
  next
    case Step_manager
    then show ?thesis by (auto simp: manager_def split: manager_pc.splits if_splits)
  qed
qed

end
