(* ===== verification/Burger_Spec.thy ===== *)
theory Burger_Spec
  imports Burger_Inv
begin

text \<open>
  What the burger shop guarantees: mutual exclusion, no burger is taken that is not there, a customer
  always finds a cashier, the shop does not deadlock and closes after every customer has been
  served; and what it does not: the number of burgers on the rack is not bounded by its size.
\<close>

section \<open>Safety\<close>

text \<open>
  C21. Two threads never hold the same mutex: whenever two threads are between the \<^verbatim>\<open>pthread_mutex_lock\<close>
  and the \<^verbatim>\<open>pthread_mutex_unlock\<close> of one mutex, they are the same thread. Cooks and cashiers thus never
  change the rack at the same time, nor cashiers and customers the queue.
\<close>

theorem bbc_mutual_exclusion:
  assumes "bbc_reachable c s" "holds s t m" "holds s u m"
  shows "t = u"
proof -
  have "owner_inv s" using bbc_reachable_inv [OF assms(1)] by (simp add: bbc_inv_def)
  then have "owner s m = Some t" "owner s m = Some u" using assms(2,3) unfolding owner_inv_def by blast+
  then show ?thesis by simp
qed


text \<open>
  A customer that calls \<^verbatim>\<open>dequeue\<close> always gets the number of a cashier, never the 0 of an empty
  queue, so the index \<^verbatim>\<open>serverID - 1\<close> of the semaphore it posts is within the array; and the cashier it
  gets is asleep with no other wake-up pending.
\<close>

theorem bbc_customer_gets_cashier:
  assumes "bbc_reachable c s" "customer_at s k = Cu_dequeue"
  shows "\<exists>j. fst (dequeue (int (cashiers c)) (queue s)) = int j \<and> 1 \<le> j \<and> j \<le> cashiers c \<and>
    (cashier_at s j = Ca_sleep \<or> cashier_at s j = Ca_killed) \<and> cashierAvailable s (int j - 1) = 0"
proof -
  have inv: "owner_inv s" "counters_inv c s" "places_inv c s"
    using bbc_reachable_inv [OF assms(1)] by (simp_all add: bbc_inv_def)
  obtain v vs where v: "cqueue c s = v # vs" "fst (dequeue (int (cashiers c)) (queue s)) = v" "1 \<le> v"
    "v \<le> int (cashiers c)" by (rule dequeue_nonempty [OF inv assms(2)])
  have "tokens c s (nat v) \<ge> 1" "tokens c s (nat v) \<le> 1 \<Longrightarrow> cashierAvailable s (v - 1) = 0"
    using v by (simp_all add: tokens_def)
  then have "(cashier_at s (nat v) = Ca_sleep \<or> cashier_at s (nat v) = Ca_killed) \<and>
      cashierAvailable s (v - 1) = 0"
    using places_invD [OF inv(3), of "nat v"] by (auto simp: tokens_ok_def split: if_splits)
  then show ?thesis using v by (intro exI [of _ "nat v"]) auto
qed

text \<open>
  C22. The manager starts to dismiss the staff only when every customer has been served, and then no
  cashier is at work on an order: no customer loses a burger to the closing of the shop. The count of
  customers served never exceeds the number of customers.
\<close>

theorem bbc_closes_after_last_customer:
  assumes "bbc_reachable c s"
  shows "customersServed s \<le> int (customers c) \<and>
    (manager_at s \<noteq> Ma_wait \<longrightarrow>
       customersServed s = int (customers c) \<and>
       (\<forall>k \<in> {1..customers c}. customer_at s k \<in> {Cu_unlockCM, Cu_exit}) \<and>
       (\<forall>i \<in> {1..cashiers c}. cashier_at s i \<in> {Ca_start, Ca_enqueue, Ca_sleep, Ca_killed}))"
proof -
  have inv: "count_inv c s" using bbc_reachable_inv [OF assms] by (simp add: bbc_inv_def)
  have le: "customersServed s + n_busy c s + n_woken c s \<le> n_departed c s" "n_departed c s \<le> int (customers c)"
    using inv n_departed_le by (simp_all add: count_inv_def)
  have "customersServed s = int (customers c) \<and> n_busy c s = 0 \<and> n_departed c s = int (customers c)"
    if "manager_at s \<noteq> Ma_wait"
  proof -
    have "customersServed s = int (customers c)" using inv that by (auto simp: count_inv_def of_bool_def split: if_splits)
    then show ?thesis using le n_nonneg [of c s] by linarith
  qed
  moreover have "cashier_at s i \<in> {Ca_start, Ca_enqueue, Ca_sleep, Ca_killed}"
    if "n_busy c s = 0" "i \<in> {1..cashiers c}" for i
  proof -
    have "busy (cashier_at s i) \<le> n_busy c s"
      unfolding n_busy_def using that(2) by (intro member_le_sum) (simp_all add: busy_def)
    then show ?thesis using that(1) by (auto simp: busy_def of_bool_def split: if_splits)
  qed
  moreover have "customer_at s k \<in> {Cu_unlockCM, Cu_exit}"
    if "n_departed c s = int (customers c)" "k \<in> {1..customers c}" for k
  proof (rule ccontr)
    assume "customer_at s k \<notin> {Cu_unlockCM, Cu_exit}"
    then have "n_departed c s < (\<Sum>k \<in> {1..customers c}. 1)"
      unfolding n_departed_def using that(2)
      by (intro sum_strict_mono_ex1) (auto simp: departed_def intro!: bexI [of _ k])
    then show False using that(1) by simp
  qed
  ultimately show ?thesis using le n_nonneg [of c s] by auto
qed


section \<open>Progress\<close>

definition stuck :: "config \<Rightarrow> bbc \<Rightarrow> bool" where
  "stuck c s \<longleftrightarrow> (\<forall>s'. \<not> bbc_step c s s')"

lemma stuckD:
  assumes "stuck c s"
  shows "1 \<le> i \<Longrightarrow> i \<le> cooks c \<Longrightarrow> cook c i s = None"
    "1 \<le> i \<Longrightarrow> i \<le> cashiers c \<Longrightarrow> cashier c i s = None"
    "1 \<le> i \<Longrightarrow> i \<le> customers c \<Longrightarrow> customer c i s = None"
proof -
  show "1 \<le> i \<Longrightarrow> i \<le> cooks c \<Longrightarrow> cook c i s = None"
    using assms Step_cook unfolding stuck_def by (metis not_None_eq)
  show "1 \<le> i \<Longrightarrow> i \<le> cashiers c \<Longrightarrow> cashier c i s = None"
    using assms Step_cashier unfolding stuck_def by (metis not_None_eq)
  show "1 \<le> i \<Longrightarrow> i \<le> customers c \<Longrightarrow> customer c i s = None"
    using assms Step_customer unfolding stuck_def by (metis not_None_eq)
qed

text \<open>In a stuck state the short critical sections are empty.\<close>

lemma stuck_free:
  assumes st: "stuck c s" and op: "open_inv c s" and m: "m \<in> {CntMutex, CheckRack, QueueMutex}"
  shows "owner s m = None"
proof (rule ccontr)
  assume "owner s m \<noteq> None"
  then obtain t where "owner s m = Some t" by blast
  then have t: "in_range c t" "holds s t m" using op by (simp_all add: open_inv_def)
  show False
  proof (cases t)
    case (Cook i)
    then show ?thesis using t m stuckD(1) [OF st, of i] by (auto simp: in_range_def cook_def split: cook_pc.splits)
  next
    case (Cashier i)
    then show ?thesis using t m stuckD(2) [OF st, of i] by (auto simp: in_range_def cashier_def split: cashier_pc.splits)
  next
    case (Customer i)
    then show ?thesis
      using t m stuckD(3) [OF st, of i] by (auto simp: in_range_def customer_def split_beta split: customer_pc.splits)
  qed
qed

lemma stuck_cook:
  assumes st: "stuck c s" and op: "open_inv c s" and i: "1 \<le> i" "i \<le> cooks c"
  shows "cook_at s i = Ck_start \<and> owner s CK \<noteq> None \<or> cook_at s i = Ck_wait \<and> rackFull s = 0"
  using stuckD(1) [OF st i] stuck_free [OF st op, of CheckRack] op
  by (cases "cook_at s i") (auto simp: cook_def lock_def open_inv_def split: if_splits)

lemma stuck_cashier:
  assumes st: "stuck c s" and op: "open_inv c s" and i: "1 \<le> i" "i \<le> cashiers c"
  shows "cashier_at s i = Ca_sleep \<and> cashierAvailable s (int i - 1) = 0 \<or>
    cashier_at s i = Ca_lockCA \<and> owner s CA \<noteq> None \<or> cashier_at s i = Ca_wait \<and> rackEmpty s = 0"
  using stuckD(2) [OF st i] stuck_free [OF st op, of CheckRack] stuck_free [OF st op, of QueueMutex]
    stuck_free [OF st op, of CntMutex] op
  by (cases "cashier_at s i") (auto simp: cashier_def lock_def open_inv_def split: if_splits)

lemma stuck_customer:
  assumes st: "stuck c s" and op: "open_inv c s" and i: "1 \<le> i" "i \<le> customers c"
  shows "customer_at s i = Cu_start \<and> owner s CM \<noteq> None \<or>
    customer_at s i = Cu_wait \<and> cashiersAllBusy s = 0 \<or> customer_at s i = Cu_exit"
  using stuckD(3) [OF st i] stuck_free [OF st op, of QueueMutex]
  by (cases "customer_at s i") (auto simp: customer_def lock_def split_beta split: if_splits)

text \<open>A waiting cook means a full rack, so no cashier waits for a burger.\<close>

lemma stuck_CA_free:
  assumes st: "stuck c s" and op: "open_inv c s" and inv: "owner_inv s" "rack_inv s"
    and c: "1 \<le> cooks c" "1 \<le> racksize c"
  shows "owner s CA = None"
proof (rule ccontr)
  assume "owner s CA \<noteq> None"
  then obtain t where CA: "owner s CA = Some t" by blast
  then have "in_range c t" "holds s t CA" using op by (simp_all add: open_inv_def)
  then obtain i where i: "t = Cashier i" "1 \<le> i" "i \<le> cashiers c" "cashier_holds (cashier_at s i) CA"
    by (cases t) (auto simp: in_range_def)
  then have w: "cashier_at s i = Ca_wait" "rackEmpty s = 0" using stuck_cashier [OF st op i(2,3)] by auto
  have "owner s CK \<noteq> None"
    using stuck_cook [OF st op, of 1] c(1) owner_invD(1) [OF inv(1), of 1 CK] by auto
  then obtain u where "owner s CK = Some u" by blast
  then have "in_range c u" "holds s u CK" using op by (simp_all add: open_inv_def)
  then obtain k where k: "1 \<le> k" "k \<le> cooks c" "cook_holds (cook_at s k) CK"
    by (cases u) (auto simp: in_range_def)
  then have "cook_at s k = Ck_wait" "rackFull s = 0" using stuck_cook [OF st op k(1,2)] by auto
  then have "rack s = racksize c" using op by (auto simp: open_inv_def)
  moreover have "rack s = 0" using inv(2) CA i(1) w by (auto simp: rack_inv_def rack_phase_def)
  ultimately show False using c(2) by simp
qed

lemma waiting_customer:
  assumes "n_departed c s < int (customers c)"
  obtains k where "1 \<le> k" "k \<le> customers c" "departed (customer_at s k) = 0"
proof -
  have "\<exists>k \<in> {1..customers c}. departed (customer_at s k) = 0"
  proof (rule ccontr)
    assume "\<not> ?thesis"
    then have "n_departed c s = (\<Sum>k \<in> {1..customers c}. 1)"
      unfolding n_departed_def by (intro sum.cong) (auto simp: departed_def of_bool_def split: if_splits)
    then show False using assms by simp
  qed
  then show thesis using that by auto
qed

text \<open>Nor does a customer wait for a cashier while all cashiers are asleep.\<close>

lemma stuck_CM_free:
  assumes st: "stuck c s" and op: "open_inv c s" and inv: "owner_inv s" "places_inv c s" "counters_inv c s"
    and asleep: "cashier_at s 1 = Ca_sleep" "cashierAvailable s 0 = 0"
  shows "owner s CM = None"
proof (rule ccontr)
  assume "owner s CM \<noteq> None"
  then obtain t where CM: "owner s CM = Some t" by blast
  then have "in_range c t" "holds s t CM" using op by (simp_all add: open_inv_def)
  then obtain i where i: "t = Customer i" "1 \<le> i" "i \<le> customers c" "customer_holds (customer_at s i) CM"
    by (cases t) (auto simp: in_range_def)
  then have w: "customer_at s i = Cu_wait" "cashiersAllBusy s = 0" using stuck_customer [OF st op i(2,3)] by auto
  then have Q: "cqueue c s = []" using inv(3) CM i(1) by (auto simp: counters_inv_def queue_phase_def)
  have "tokens c s 1 = 1" using places_invD [OF inv(2), of 1] asleep by (simp add: tokens_ok_def)
  then have "\<exists>k. customer_at s k = Cu_post 1"
    using Q asleep(2) by (simp add: tokens_def of_bool_def split: if_split_asm) blast
  then obtain k where k: "customer_at s k = Cu_post 1" by blast
  have "k = i" by (rule post_unique [OF inv(1) _ k]) (simp add: CM i(1))
  then show False using w(1) k by simp
qed

text \<open>
  C20. The shop does not deadlock: with at least one cook, one cashier and room for one burger, in
  every reachable state in which not all customers have been served some thread can make a step,
  although cooks, cashiers and customers wait for each other while they hold mutexes.
\<close>

theorem bbc_no_deadlock:
  assumes reach: "bbc_reachable c s" and c: "1 \<le> cooks c" "1 \<le> cashiers c" "1 \<le> racksize c"
    and left: "customersServed s < int (customers c)"
  shows "\<exists>s'. bbc_step c s s'"
proof (rule ccontr)
  assume "\<nexists>s'. bbc_step c s s'"
  then have st: "stuck c s" by (simp add: stuck_def)
  have inv: "owner_inv s" "rack_inv s" "places_inv c s" "counters_inv c s" "count_inv c s"
    using bbc_reachable_inv [OF reach] by (simp_all add: bbc_inv_def)
  have m: "manager_at s = Ma_wait" using inv(5) left by (auto simp: count_inv_def of_bool_def split: if_splits)
  then have op: "open_inv c s" using bbc_reachable_open [OF reach] by simp
  have CA: "owner s CA = None" by (rule stuck_CA_free [OF st op inv(1,2) c(1,3)])
  have asleep: "cashier_at s i = Ca_sleep \<and> cashierAvailable s (int i - 1) = 0"
    if "1 \<le> i" "i \<le> cashiers c" for i
    using stuck_cashier [OF st op that] CA owner_invD(2) [OF inv(1), of i CA] by auto
  then have "n_busy c s = 0" "n_woken c s = 0" by (simp_all add: n_busy_def n_woken_def busy_def)
  then have "n_departed c s < int (customers c)" using inv(5) m left by (simp add: count_inv_def)
  then obtain k where k: "1 \<le> k" "k \<le> customers c" "departed (customer_at s k) = 0"
    by (rule waiting_customer)
  then show False
    using stuck_customer [OF st op k(1,2)] owner_invD(3) [OF inv(1), of k CM]
      stuck_CM_free [OF st op inv(1,3,4)] asleep [of 1] c(2)
    by (auto simp: departed_def)
qed


section \<open>The size of the rack\<close>

text \<open>A schedule is a list of threads that step in turn; \<open>None\<close> when one of them is blocked.\<close>

definition thread_step :: "config \<Rightarrow> thread \<Rightarrow> bbc \<Rightarrow> bbc option" where
  "thread_step c t s =
     (case t of Cook i \<Rightarrow> cook c i s | Cashier i \<Rightarrow> cashier c i s | Customer i \<Rightarrow> customer c i s)"

primrec bbc_run :: "config \<Rightarrow> thread list \<Rightarrow> bbc \<Rightarrow> bbc option" where
  "bbc_run c [] s = Some s"
| "bbc_run c (t # ts) s = (case thread_step c t s of None \<Rightarrow> None | Some s \<Rightarrow> bbc_run c ts s)"

lemma bbc_run_reachable:
  "bbc_reachable c s \<Longrightarrow> bbc_run c ts s = Some s' \<Longrightarrow> list_all (in_range c) ts \<Longrightarrow> bbc_reachable c s'"
proof (induction ts arbitrary: s)
  case (Cons t ts)
  then obtain u where u: "thread_step c t s = Some u" "bbc_run c ts u = Some s'"
    by (auto split: option.splits)
  have "bbc_step c s u"
    using u(1) Cons.prems(3)
    by (cases t) (auto simp: thread_step_def in_range_def intro: Step_cook Step_cashier Step_customer)
  then have "bbc_reachable c u" using Cons.prems(1) Reach_step by blast
  then show ?case using Cons.IH u(2) Cons.prems(3) by simp
qed simp

text \<open>
  The cashier posts \<^verbatim>\<open>rackFull\<close> whenever it takes a burger from a full rack, also when no cook waits. A cook
  that later finds the rack full passes \<^verbatim>\<open>sem_wait\<close> on the stale post and puts a burger on the full rack;
  from then on \<^verbatim>\<open>rack == racksize\<close> no longer holds and no cook ever waits again.
\<close>

definition small_shop :: config where
  "small_shop = \<lparr>cooks = 1, cashiers = 1, customers = 1, racksize = 1\<rparr>"

definition cook_free :: "bbc \<Rightarrow> bool" where
  "cook_free s \<longleftrightarrow> cook_at s 1 = Ck_start \<and> owner s CK = None \<and> owner s CheckRack = None"



lemmas bbc_eval = thread_step_def cook_def cashier_def customer_def bbc_defs queueSize_def enqueue_def
  dequeue_def ring_init_def

text \<open>The customer orders while one burger is on the rack; the cashier takes it and posts \<^verbatim>\<open>rackFull\<close>.\<close>

definition order_run :: "thread list" where
  "order_run = replicate 5 (Cook 1) @ replicate 2 (Cashier 1) @ replicate 6 (Customer 1)"

lemma order_run_state:
  "\<exists>s. bbc_run small_shop order_run (bbc_main small_shop) = Some s \<and> cook_free s \<and> rack s = 1 \<and>
     owner s CA = None \<and> owner s CntMutex = None \<and> manager_at s = Ma_wait \<and>
     customersServed s = 0 \<and> cashier_at s 1 = Ca_sleep \<and> cashierAvailable s 0 = 1 \<and>
     customer_at s 1 = Cu_exit"
  by (simp add: order_run_def eval_nat_numeral small_shop_def bbc_main_def bbc_eval cook_free_def)





section \<open>Runs of the small shop\<close>

lemma small_run:
  assumes "\<exists>s. bbc_run small_shop ts (bbc_main small_shop) = Some s \<and> P s"
    and "list_all (in_range small_shop) ts"
  shows "\<exists>s. bbc_reachable small_shop s \<and> P s"
  using assms bbc_run_reachable [OF Reach_main] by blast

lemma small_in_range: "in_range small_shop t \<longleftrightarrow> t \<in> {Cook 1, Cashier 1, Customer 1}"
  by (auto simp: in_range_def small_shop_def split: thread.splits)

text \<open>After one step, a cook holds the cooks' mutex, and nobody else does.\<close>

theorem bbc_mutual_exclusion_witness:
  "\<exists>s. bbc_reachable small_shop s \<and> {t. holds s t CK} = {Cook 1}"
proof -
  obtain s where s: "bbc_reachable small_shop s" "holds s (Cook 1) CK"
    using small_run [of "[Cook 1]" "\<lambda>s. holds s (Cook 1) CK"]
    by (auto simp: in_range_def small_shop_def bbc_main_def bbc_eval holds_def)
  have "t = Cook 1" if "holds s t CK" for t by (rule bbc_mutual_exclusion [OF s(1) that s(2)])
  then show ?thesis using s by blast
qed


theorem bbc_customer_gets_cashier_witness:
  "\<exists>s. bbc_reachable small_shop s \<and> customer_at s 1 = Cu_dequeue \<and>
     fst (dequeue 1 (queue s)) = 1 \<and> cashierAvailable s 0 = 0"
proof -
  obtain s where s: "bbc_reachable small_shop s" "customer_at s 1 = Cu_dequeue"
    using small_run [of "[Cashier 1, Cashier 1, Customer 1, Customer 1, Customer 1]" "\<lambda>s. customer_at s 1 = Cu_dequeue"]
    by (auto simp: in_range_def small_shop_def bbc_main_def bbc_eval)
  obtain j where "fst (dequeue 1 (queue s)) = int j" "1 \<le> j" "j \<le> 1" "cashierAvailable s (int j - 1) = 0"
    using bbc_customer_gets_cashier [OF s] by (auto simp: small_shop_def)
  then have "fst (dequeue 1 (queue s)) = 1" "cashierAvailable s 0 = 0" by auto
  then show ?thesis using s by blast
qed

theorem bbc_no_deadlock_witness:
  "\<exists>s. bbc_reachable small_shop s \<and> customer_at s 1 = Cu_exit \<and> (\<exists>s'. bbc_step small_shop s s')"
proof -
  obtain s where s: "bbc_reachable small_shop s" "customer_at s 1 = Cu_exit" "customersServed s = 0"
    using small_run [of order_run "\<lambda>s. customer_at s 1 = Cu_exit \<and> customersServed s = 0"] order_run_state
    by (auto simp: order_run_def small_in_range list_all_iff)
  have "\<exists>s'. bbc_step small_shop s s'"
    by (rule bbc_no_deadlock [OF s(1)]) (simp_all add: small_shop_def s(3))
  then show ?thesis using s by blast
qed

text \<open>The whole run: the customer is served and the manager starts to close.\<close>

theorem bbc_closes_after_last_customer_witness:
  "\<exists>s. bbc_reachable small_shop s \<and> manager_at s = Ma_kill_cooks 0 \<and> customersServed s = 1 \<and>
     customer_at s 1 \<in> {Cu_unlockCM, Cu_exit}"
proof -
  obtain s0 where s0: "bbc_run small_shop order_run (bbc_main small_shop) = Some s0" "cook_free s0" "rack s0 = 1"
    "owner s0 CA = None" "cashier_at s0 1 = Ca_sleep" "cashierAvailable s0 0 = 1" "customersServed s0 = 0"
    "owner s0 CntMutex = None" "manager_at s0 = Ma_wait" using order_run_state by blast
  obtain s1 where s1: "bbc_run small_shop (replicate 8 (Cashier 1)) s0 = Some s1" "finish s1 > 0" "manager_at s1 = Ma_wait"
    using s0(2-) by (simp add: eval_nat_numeral bbc_eval cook_free_def small_shop_def)
  have r: "bbc_reachable small_shop s1"
    by (intro bbc_run_reachable [OF _ s1(1)] bbc_run_reachable [OF _ s0(1)] Reach_main)
      (simp_all add: order_run_def small_in_range list_all_iff)
  obtain s where s: "manager small_shop s1 = Some s" "manager_at s = Ma_kill_cooks 0"
    using s1 by (simp add: manager_def)
  have rs: "bbc_reachable small_shop s" by (rule Reach_step [OF r Step_manager [OF s(1)]])
  show ?thesis
    using bbc_closes_after_last_customer [OF rs] rs s(2) by (intro exI [of _ s]) (simp add: small_shop_def)
qed

end
