(* ===== verification/Ptree_Module.thy ===== *)
theory Ptree_Module
  imports Linux_List
begin

text \<open>
  The process tree module, \<^verbatim>\<open>ptreemodule.c\<close>: the system call \<^verbatim>\<open>ptree\<close> walks the tree of tasks through the
  kernel's child lists and copies one record per task to user space.

  The tasks are in the kernel's memory: \<open>tasks\<close> gives the pointers of the list heads embedded in
  the task structures and the fields that the module reads, through any pointer of type
  \<^verbatim>\<open>struct task_struct *\<close>, valid or not. The walk has fuel, since child lists could be cyclic; on a
  tree of \<open>n\<close> tasks \<open>2 n\<close> is enough.
\<close>

section \<open>Tasks\<close>

record tasks =
  links :: lheap
  off_children :: addr
  off_sibling :: addr
  pid_at :: "addr \<Rightarrow> int"
  parent_at :: "addr \<Rightarrow> addr"
  state_at :: "addr \<Rightarrow> int"
  uid_at :: "addr \<Rightarrow> 32 word"
  comm_at :: "addr \<Rightarrow> string"
  init_task :: addr

definition children :: "tasks \<Rightarrow> addr \<Rightarrow> addr" where
  "children k t = t + off_children k"

definition sibling :: "tasks \<Rightarrow> addr \<Rightarrow> addr" where
  "sibling k t = t + off_sibling k"

definition list_entry :: "tasks \<Rightarrow> addr \<Rightarrow> addr" where
  "list_entry k p = p - off_sibling k"

record prinfo =
  parent_pid :: int
  pid :: int
  first_child_pid :: int
  next_sibling_pid :: int
  state :: int
  uid :: int
  comm :: string


section \<open>The system call\<close>

definition convert :: "tasks \<Rightarrow> addr \<Rightarrow> prinfo" where
  "convert k from =
     \<lparr>parent_pid = (if parent_at k from \<noteq> 0 then pid_at k (parent_at k from) else 0),
      pid = pid_at k from,
      first_child_pid =
        (if list_empty (children k from) (links k) then 0
         else pid_at k (list_entry k (nxt (links k) (children k from)))),
      next_sibling_pid =
        (if list_empty (sibling k from) (links k) then 0
         else pid_at k (list_entry k (nxt (links k) (sibling k from)))),
      state = state_at k from,
      uid = sint (uid_at k from),
      comm = comm_at k from\<rparr>"

text \<open>What goes wrong outside the language: a write past the end of an array or through \<^verbatim>\<open>NULL\<close>.\<close>

datatype ptree_error = Buffer_overrun | Null_write | Stack_overrun | Stack_underrun | Out_of_fuel

type_synonym info_buf = "prinfo list \<times> nat"

fun dfs :: "nat \<Rightarrow> tasks \<Rightarrow> addr \<Rightarrow> info_buf \<Rightarrow> ptree_error + info_buf"
  and dfs_each :: "nat \<Rightarrow> tasks \<Rightarrow> addr \<Rightarrow> addr \<Rightarrow> info_buf \<Rightarrow> ptree_error + info_buf" where
  "dfs 0 k task st = Inl Out_of_fuel"
| "dfs (Suc n) k task (buf, nr) =
     (if nr < length buf
      then dfs_each n k (nxt (links k) (children k task)) (children k task) (buf[nr := convert k task], nr + 1)
      else Inl Buffer_overrun)"
| "dfs_each 0 k p head st = Inl Out_of_fuel"
| "dfs_each (Suc n) k p head st =
     (if p = head then Inr st
      else case dfs n k (list_entry k p) st of
             Inl e \<Rightarrow> Inl e
           | Inr st \<Rightarrow> dfs_each n k (nxt (links k) p) head st)"

definition MAXBUFFERSIZE :: nat where
  "MAXBUFFERSIZE = 2048"

text \<open>
  What the caller sees: the return value, the buffer and the count in user space as far as they were
  written, and whether the kernel's buffer was freed. \<open>mem\<close> is what \<^verbatim>\<open>kmalloc\<close> returned, \<open>None\<close> for
  \<^verbatim>\<open>NULL\<close>, with whatever the memory held; \<open>bad_buf\<close> and \<open>bad_nr\<close> say that \<^verbatim>\<open>copy_to_user\<close> fails.
\<close>

record ptree_result =
  ret :: int
  user_buf :: "prinfo list option"
  user_nr :: "nat option"
  kfreed :: bool

definition ptree :: "nat \<Rightarrow> tasks \<Rightarrow> prinfo list option \<Rightarrow> bool \<Rightarrow> bool \<Rightarrow> ptree_error + ptree_result" where
  "ptree n k mem bad_buf bad_nr =
     (case mem of
        None \<Rightarrow> Inl Null_write
      | Some m \<Rightarrow>
          (case dfs n k (init_task k) (m, 0) of
             Inl e \<Rightarrow> Inl e
           | Inr (buf, nr) \<Rightarrow>
               Inr (if bad_buf then \<lparr>ret = 1, user_buf = None, user_nr = None, kfreed = False\<rparr>
                    else if bad_nr then \<lparr>ret = 1, user_buf = Some buf, user_nr = None, kfreed = False\<rparr>
                    else \<lparr>ret = 0, user_buf = Some buf, user_nr = Some nr, kfreed = True\<rparr>)))"


section \<open>The tree of tasks\<close>

datatype ttree = TNode (root: addr) (kids: "ttree list")

fun preorder :: "ttree \<Rightarrow> addr list" where
  "preorder (TNode t us) = t # concat (map preorder us)"

fun task_tree :: "tasks \<Rightarrow> ttree \<Rightarrow> bool" where
  "task_tree k (TNode t us) \<longleftrightarrow>
     is_list (links k) (children k t) (map (sibling k \<circ> root) us) \<and> (\<forall>u \<in> set us. task_tree k u)"

abbreviation "nodes T \<equiv> length (preorder T)"
abbreviation "nodes_all us \<equiv> length (concat (map preorder us))"

text \<open>Writing a list into an array from an index on.\<close>

definition write_all :: "'a list \<Rightarrow> nat \<Rightarrow> 'a list \<Rightarrow> 'a list" where
  "write_all buf nr es = take nr buf @ es @ drop (nr + length es) buf"

lemma write_all_Nil [simp]: "write_all buf nr [] = buf"
  by (simp add: write_all_def)

lemma length_write_all [simp]: "nr + length es \<le> length buf \<Longrightarrow> length (write_all buf nr es) = length buf"
  by (simp add: write_all_def)

lemma write_all_one: "nr < length buf \<Longrightarrow> buf[nr := e] = write_all buf nr [e]"
  by (simp add: write_all_def upd_conv_take_nth_drop)

lemma write_all_append:
  assumes "nr + length es + length fs \<le> length buf"
  shows "write_all (write_all buf nr es) (nr + length es) fs = write_all buf nr (es @ fs)"
proof -
  have "take (nr + length es) (take nr buf @ es @ drop (nr + length es) buf) = take nr buf @ es"
    using assms by (simp add: min_absorb2)
  moreover have "drop (nr + length es + length fs) (take nr buf @ es @ drop (nr + length es) buf) =
      drop (nr + length es + length fs) buf"
    using assms by (simp add: min_absorb2 add.commute)
  ultimately show ?thesis by (simp add: write_all_def add.assoc)
qed

text \<open>The walk of a subtree, when there is room for it, and when there is not.\<close>

definition dfs_result :: "tasks \<Rightarrow> addr list \<Rightarrow> info_buf \<Rightarrow> ptree_error + info_buf" where
  "dfs_result k ts st =
     (case st of (buf, nr) \<Rightarrow>
        if ts = [] \<or> nr + length ts \<le> length buf then Inr (write_all buf nr (map (convert k) ts), nr + length ts)
        else Inl Buffer_overrun)"

lemma dfs_result_append:
  "dfs_result k (ts @ us) st =
     (case dfs_result k ts st of Inl e \<Rightarrow> Inl e | Inr st \<Rightarrow> dfs_result k us st)"
  by (auto simp: dfs_result_def write_all_append [of _ "map (convert k) ts" "map (convert k) us", simplified]
      add.assoc split: prod.split)

lemma list_entry_sibling [simp]: "list_entry k (sibling k t) = t"
  by (simp add: list_entry_def sibling_def)

lemma dfs_each_spec:
  assumes "\<And>u n st. u \<in> set us \<Longrightarrow> 2 * nodes u \<le> n \<Longrightarrow> dfs n k (root u) st = dfs_result k (preorder u) st"
    and "lseg (nxt (links k)) (prv (links k)) a (map (sibling k \<circ> root) us) head"
    and "head \<notin> set (map (sibling k \<circ> root) us)" and "2 * nodes_all us < n"
  shows "dfs_each n k (nxt (links k) a) head st = dfs_result k (concat (map preorder us)) st"
  using assms
proof (induction us arbitrary: a n st)
  case Nil
  then show ?case by (cases n) (auto simp: dfs_result_def split: prod.split)
next
  case (Cons u us)
  obtain m where n: "n = Suc m" using Cons.prems(4) by (cases n) auto
  have u: "dfs m k (root u) st = dfs_result k (preorder u) st" for st
    using Cons.prems(1,4) n by simp
  have "1 \<le> nodes u" by (cases u) simp
  then have us: "dfs_each m k (nxt (links k) (sibling k (root u))) head st = dfs_result k (concat (map preorder us)) st" for st
    using Cons.prems n by (intro Cons.IH) auto
  show ?case
    using Cons.prems(2,3) u us n by (auto simp: dfs_result_append split: sum.split)
qed

lemma dfs_spec:
  assumes "task_tree k T" "2 * nodes T \<le> n"
  shows "dfs n k (root T) st = dfs_result k (preorder T) st"
  using assms
proof (induction T arbitrary: n st)
  case (TNode t us)
  obtain m where n: "n = Suc m" using TNode.prems(2) by (cases n) auto
  have list: "is_list (links k) (children k t) (map (sibling k \<circ> root) us)" using TNode.prems(1) by simp
  have each: "dfs_each m k (nxt (links k) (children k t)) (children k t) st = dfs_result k (concat (map preorder us)) st" for st
    using TNode.prems n list by (intro dfs_each_spec TNode.IH) (auto simp: is_list_def)
  have step: "dfs_result k (t # ts) (buf, nr) =
      (if nr < length buf then dfs_result k ts (buf[nr := convert k t], nr + 1) else Inl Buffer_overrun)" for ts buf nr
    using write_all_append [of nr "[convert k t]" "map (convert k) ts" buf]
    by (auto simp: dfs_result_def write_all_one)
  show ?case by (cases st) (simp add: n each step)
qed

lemma ptree_result:
  assumes "task_tree k T" "root T = init_task k" "2 * nodes T \<le> n" "length m = MAXBUFFERSIZE"
  shows "ptree n k (Some m) bad_buf bad_nr =
    (if nodes T \<le> 2048
     then Inr (if bad_buf then \<lparr>ret = 1, user_buf = None, user_nr = None, kfreed = False\<rparr>
       else let buf = map (convert k) (preorder T) @ drop (nodes T) m
            in if bad_nr then \<lparr>ret = 1, user_buf = Some buf, user_nr = None, kfreed = False\<rparr>
               else \<lparr>ret = 0, user_buf = Some buf, user_nr = Some (nodes T), kfreed = True\<rparr>)
     else Inl Buffer_overrun)"
proof -
  have "preorder T \<noteq> []" by (cases T) simp
  then show ?thesis
    using dfs_spec [OF assms(1,3), of "(m, 0)"] assms(2,4)
    by (simp add: ptree_def dfs_result_def write_all_def MAXBUFFERSIZE_def)
qed


section \<open>What a record says\<close>

text \<open>
  The last child's \<^verbatim>\<open>next_sibling_pid\<close> is read through the list head in the parent: \<open>stray k t\<close> is the
  word that lies where the process number would be, if the head were in a task's \<^verbatim>\<open>sibling\<close> field.
\<close>

definition stray :: "tasks \<Rightarrow> addr \<Rightarrow> int" where
  "stray k t = pid_at k (list_entry k (children k t))"

lemma convert_pid [simp]: "pid (convert k t) = pid_at k t"
  by (simp add: convert_def)

lemma convert_first_child:
  assumes "task_tree k (TNode t us)"
  shows "first_child_pid (convert k t) = (case us of [] \<Rightarrow> 0 | u # _ \<Rightarrow> pid_at k (root u))"
proof -
  have l: "is_list (links k) (children k t) (map (sibling k \<circ> root) us)" using assms by simp
  show ?thesis using list_empty_spec [OF l] is_list_first [OF l] by (simp add: convert_def split: list.split)
qed

lemma convert_next_sibling:
  assumes "task_tree k (TNode t (xs @ u # ys))"
  shows "next_sibling_pid (convert k (root u)) = (case ys of [] \<Rightarrow> stray k t | v # _ \<Rightarrow> pid_at k (root v))"
proof -
  let ?s = "sibling k \<circ> root"
  have l: "is_list (links k) (children k t) (map ?s xs @ ?s u # map ?s ys)" using assms by simp
  then have "nxt (links k) (?s u) = hd (map ?s ys @ [children k t])" by (rule is_list_entry(2))
  moreover have "nxt (links k) (?s u) \<noteq> ?s u" using calculation l by (cases ys) (auto simp: is_list_def)
  ultimately show ?thesis by (simp add: convert_def list_empty_def stray_def split: list.split)
qed

end
