(* ===== verification/Ptree_Display.thy ===== *)
theory Ptree_Display
  imports Ptree_Module
begin

text \<open>
  The program \<^verbatim>\<open>ptree.c\<close>: it calls the system call and prints one line per task, indented by the
  depth of the task. \<^verbatim>\<open>display\<close> finds the depths with a stack of indices, using only the process numbers
  in the records; it is shown to compute the depths in the tree of tasks.
\<close>

section \<open>The program\<close>

definition MAXPROCESSNUMBER :: nat where
  "MAXPROCESSNUMBER = 256"

record display_state =
  d_buf :: "prinfo list"
  d_stack :: "nat list"
  d_tabcnt :: "nat list"
  d_top :: nat

definition set_next :: "nat \<Rightarrow> int \<Rightarrow> prinfo list \<Rightarrow> prinfo list" where
  "set_next i v buf = buf[i := (buf ! i)\<lparr>next_sibling_pid := v\<rparr>]"

fun pop_until :: "int \<Rightarrow> nat list \<Rightarrow> prinfo list \<Rightarrow> nat \<Rightarrow> ptree_error + prinfo list \<times> nat" where
  "pop_until x stack buf 0 = Inl Stack_underrun"
| "pop_until x stack buf (Suc tp) =
     (if x \<noteq> next_sibling_pid (buf ! (stack ! tp))
      then pop_until x stack (set_next (stack ! tp) 0 buf) tp
      else Inr (buf, Suc tp))"

definition fix_sibling :: "nat \<Rightarrow> nat \<Rightarrow> prinfo list \<Rightarrow> prinfo list" where
  "fix_sibling nr i buf =
     (if i = nr - 1 \<or>
        (next_sibling_pid (buf ! i) \<noteq> pid (buf ! (i + 1)) \<and> first_child_pid (buf ! i) \<noteq> pid (buf ! (i + 1)))
      then set_next i 0 buf else buf)"

definition set_tabcnt :: "nat \<Rightarrow> display_state \<Rightarrow> ptree_error + display_state" where
  "set_tabcnt i d =
     (if i < length (d_tabcnt d) then Inr (d\<lparr>d_tabcnt := (d_tabcnt d)[i := d_top d - 1]\<rparr>)
      else Inl Stack_overrun)"

definition display_step :: "nat \<Rightarrow> nat \<Rightarrow> display_state \<Rightarrow> ptree_error + display_state" where
  "display_step nr i d =
     (let buf = fix_sibling nr i (d_buf d); stack = d_stack d; tp = d_top d in
      if tp = 0 \<or> pid (buf ! i) = first_child_pid (buf ! (stack ! (tp - 1)))
      then if tp < length stack
           then set_tabcnt i (d\<lparr>d_buf := buf, d_stack := stack[tp := i], d_top := tp + 1\<rparr>)
           else Inl Stack_overrun
      else case pop_until (pid (buf ! i)) stack buf tp of
             Inl e \<Rightarrow> Inl e
           | Inr (buf, tp) \<Rightarrow> set_tabcnt i (d\<lparr>d_buf := buf, d_stack := stack[tp - 1 := i], d_top := tp\<rparr>))"

fun display_loop :: "nat \<Rightarrow> nat list \<Rightarrow> display_state \<Rightarrow> ptree_error + display_state" where
  "display_loop nr [] d = Inr d"
| "display_loop nr (i # is) d =
     (case display_step nr i d of Inl e \<Rightarrow> Inl e | Inr d \<Rightarrow> display_loop nr is d)"

text \<open>The result is the printed lines: the number of tabs and the record. \<open>junk\<close> is the uninitialised stack.\<close>

definition display :: "nat list \<Rightarrow> prinfo list \<Rightarrow> nat \<Rightarrow> ptree_error + (nat \<times> prinfo) list" where
  "display junk buf nr =
     (case display_loop nr [0..<nr]
             \<lparr>d_buf = buf, d_stack = junk, d_tabcnt = replicate MAXPROCESSNUMBER 0, d_top = 0\<rparr> of
        Inl e \<Rightarrow> Inl e
      | Inr d \<Rightarrow> Inr (map (\<lambda>i. (d_tabcnt d ! i, d_buf d ! i)) [0..<nr]))"

text \<open>\<^verbatim>\<open>main\<close> ignores the result of the system call; \<open>buf\<close> and \<open>nr\<close> are what its memory held before.\<close>

definition ptree_main ::
  "nat list \<Rightarrow> prinfo list \<Rightarrow> nat \<Rightarrow> ptree_error + ptree_result \<Rightarrow> ptree_error + (nat \<times> prinfo) list" where
  "ptree_main junk buf nr call =
     (case call of
        Inl e \<Rightarrow> Inl e
      | Inr r \<Rightarrow>
          display junk (case user_buf r of None \<Rightarrow> buf | Some b \<Rightarrow> b) (case user_nr r of None \<Rightarrow> nr | Some n \<Rightarrow> n))"


section \<open>Records in tree order\<close>

text \<open>
  A tree of records is good for a set \<open>G\<close> of numbers that are no process number of the tree: a record
  names its first child, or 0, and its next sibling, or a number of \<open>G\<close>.
\<close>

datatype itree = INode (info: prinfo) (ikids: "itree list")

fun flatten :: "itree \<Rightarrow> prinfo list" where
  "flatten (INode e us) = e # concat (map flatten us)"

fun depths :: "nat \<Rightarrow> itree \<Rightarrow> nat list" where
  "depths d (INode e us) = d # concat (map (depths (d + 1)) us)"

abbreviation "ipid u \<equiv> pid (info u)"
abbreviation "flatten_all us \<equiv> concat (map flatten us)"
abbreviation "inext u \<equiv> next_sibling_pid (info u)"

fun chained :: "int set \<Rightarrow> itree list \<Rightarrow> bool" where
  "chained G [] \<longleftrightarrow> True"
| "chained G [u] \<longleftrightarrow> inext u \<in> G"
| "chained G (u # v # us) \<longleftrightarrow> inext u = ipid v \<and> chained G (v # us)"

fun good :: "int set \<Rightarrow> itree \<Rightarrow> bool" where
  "good G (INode e us) \<longleftrightarrow>
     first_child_pid e = (case us of [] \<Rightarrow> 0 | u # _ \<Rightarrow> ipid u) \<and> chained G us \<and>
     (\<forall>u \<in> set us. ipid u \<notin> G \<and> good G u)"

text \<open>What the loop may do to a record: clear a number of \<open>G\<close> in \<^verbatim>\<open>next_sibling_pid\<close>.\<close>

definition cleared :: "int set \<Rightarrow> prinfo \<Rightarrow> prinfo \<Rightarrow> bool" where
  "cleared G e e' \<longleftrightarrow> e' = e \<or> next_sibling_pid e \<in> G \<and> e' = e\<lparr>next_sibling_pid := 0\<rparr>"

definition cleared_buf :: "int set \<Rightarrow> prinfo list \<Rightarrow> prinfo list \<Rightarrow> bool" where
  "cleared_buf G b b' \<longleftrightarrow> list_all2 (cleared G) b b'"

lemma cleared_buf_length: "cleared_buf G b b' \<Longrightarrow> length b' = length b"
  by (auto simp: cleared_buf_def dest: list_all2_lengthD)

lemma cleared_buf_nth:
  assumes "cleared_buf G b b'" "i < length b"
  shows "pid (b' ! i) = pid (b ! i)" "first_child_pid (b' ! i) = first_child_pid (b ! i)"
    "next_sibling_pid (b ! i) \<notin> G \<Longrightarrow> next_sibling_pid (b' ! i) = next_sibling_pid (b ! i)"
    "0 \<in> G \<Longrightarrow> next_sibling_pid (b ! i) \<in> G \<Longrightarrow> next_sibling_pid (b' ! i) \<in> G"
  using list_all2_nthD [OF assms(1) [unfolded cleared_buf_def] assms(2)] by (auto simp: cleared_def)

lemma cleared_buf_set_next:
  assumes "cleared_buf G b b'" "i < length b" "next_sibling_pid (b ! i) \<in> G"
  shows "cleared_buf G b (set_next i 0 b')"
proof -
  have "cleared G (b ! i) ((b' ! i)\<lparr>next_sibling_pid := 0\<rparr>)"
    using list_all2_nthD [OF assms(1) [unfolded cleared_buf_def] assms(2)] assms(3)
    by (auto simp: cleared_def)
  then show ?thesis
    using assms(1,2) unfolding cleared_buf_def set_next_def
    by (auto simp: list_all2_conv_all_nth nth_list_update)
qed


section \<open>The loop on a tree of records\<close>

text \<open>
  The invariant of the loop at index \<open>i\<close> for arrays of length \<open>N\<close>: \<open>S\<close> is on the stack, \<open>b\<close> is the buffer at the start.
  \<open>ready\<close> says that the record at \<open>i\<close> belongs below the path \<open>P\<close>: as a first child, or as the sibling
  of the record \<open>j\<close> next on the stack.
\<close>

definition dinv :: "nat \<Rightarrow> int set \<Rightarrow> prinfo list \<Rightarrow> nat \<Rightarrow> nat list \<Rightarrow> display_state \<Rightarrow> bool" where
  "dinv N G b i S d \<longleftrightarrow>
     cleared_buf G b (d_buf d) \<and> length (d_stack d) = N \<and> length (d_tabcnt d) = N \<and>
     d_top d \<le> N \<and> take (d_top d) (d_stack d) = S \<and> (\<forall>q \<in> set S. q < i) \<and> length S \<le> i"

definition ready :: "int set \<Rightarrow> prinfo list \<Rightarrow> nat list \<Rightarrow> nat \<Rightarrow> nat list \<Rightarrow> bool" where
  "ready G b P i S \<longleftrightarrow>
     S = P \<and> (P = [] \<or> pid (b ! i) = first_child_pid (b ! last P)) \<or>
     (\<exists>j Q. S = P @ j # Q \<and> next_sibling_pid (b ! j) = pid (b ! i) \<and> pid (b ! i) \<notin> G \<and>
        (\<forall>q \<in> set Q. next_sibling_pid (b ! q) \<in> G) \<and> first_child_pid (b ! last (j # Q)) = 0)"

definition fix_ok :: "int set \<Rightarrow> prinfo list \<Rightarrow> nat \<Rightarrow> nat \<Rightarrow> bool" where
  "fix_ok G b nr i \<longleftrightarrow>
     next_sibling_pid (b ! i) \<in> G \<or>
     i + 1 < nr \<and> (next_sibling_pid (b ! i) = pid (b ! (i + 1)) \<or> first_child_pid (b ! i) = pid (b ! (i + 1)))"

lemma fix_sibling_cleared:
  assumes "cleared_buf G b b'" "i < nr" "nr \<le> length b" "fix_ok G b nr i"
  shows "cleared_buf G b (fix_sibling nr i b')"
proof (cases "next_sibling_pid (b ! i) \<in> G")
  case True
  then show ?thesis using assms cleared_buf_set_next by (simp add: fix_sibling_def)
next
  case False
  then have "i + 1 < nr" "next_sibling_pid (b' ! i) = pid (b' ! (i + 1)) \<or> first_child_pid (b' ! i) = pid (b' ! (i + 1))"
    using assms cleared_buf_nth [OF assms(1), of i] cleared_buf_nth [OF assms(1), of "i + 1"]
    by (auto simp: fix_ok_def)
  then show ?thesis using assms(1) by (auto simp: fix_sibling_def)
qed

lemma pop_until_spec:
  assumes "take (length P + 1 + length Q) stack = P @ j # Q" "length P + 1 + length Q \<le> length stack"
    and "cleared_buf G b b'" "0 \<in> G" "x \<notin> G" "next_sibling_pid (b ! j) = x" "j < length b"
    and "\<forall>q \<in> set Q. q < length b \<and> next_sibling_pid (b ! q) \<in> G"
  shows "\<exists>b''. pop_until x stack b' (length P + 1 + length Q) = Inr (b'', length P + 1) \<and> cleared_buf G b b''"
  using assms
proof (induction Q arbitrary: b' rule: rev_induct)
  case Nil
  have "stack ! length P = take (Suc (length P)) stack ! length P" by simp
  also have "\<dots> = j" using Nil.prems(1) by simp
  finally show ?case using Nil.prems(3,5-7) cleared_buf_nth(3) [OF Nil.prems(3,7)] by simp
next
  case (snoc q Q)
  let ?t = "length P + 1 + length Q"
  have St: "take (Suc ?t) stack = P @ j # Q @ [q]" using snoc.prems(1) by simp
  have q: "stack ! ?t = q" using nth_take [of ?t "Suc ?t" stack] unfolding St by (simp add: nth_append)
  have "take ?t (take (Suc ?t) stack) = P @ j # Q" unfolding St by simp
  then have tk: "take ?t stack = P @ j # Q" by (simp add: min_def)
  have "next_sibling_pid (b' ! q) \<in> G" using cleared_buf_nth(4) [OF snoc.prems(3)] snoc.prems(4,8) by simp
  then have ne: "x \<noteq> next_sibling_pid (b' ! q)" using snoc.prems(5) by auto
  have "cleared_buf G b (set_next q 0 b')" using cleared_buf_set_next [OF snoc.prems(3)] snoc.prems(8) by simp
  from snoc.IH [OF tk _ this] snoc.prems show ?case using q ne by simp
qed

lemma display_step_spec:
  assumes inv: "dinv N G b i S d" and G: "0 \<in> G" and i: "i < nr" "nr \<le> length b" "i < N"
    and rd: "ready G b P i S" and fx: "fix_ok G b nr i"
  shows "\<exists>d'. display_step nr i d = Inr d' \<and> dinv N G b (i + 1) (P @ [i]) d' \<and>
    d_tabcnt d' = write_all (d_tabcnt d) i [length P]"
proof -
  let ?b = "fix_sibling nr i (d_buf d)" and ?tp = "d_top d" and ?st = "d_stack d"
  have cl: "cleared_buf G b ?b" using inv i fx by (intro fix_sibling_cleared) (simp_all add: dinv_def)
  have S: "take ?tp ?st = S" "?tp \<le> N" "length ?st = N" "length (d_tabcnt d) = N" "\<forall>q \<in> set S. q < i" "length S \<le> i"
    using inv by (simp_all add: dinv_def)
  then have tp: "?tp = length S" by (metis length_take min.absorb2)
  have lst: "?st ! (?tp - 1) = last S" if "S \<noteq> []"
    using that S(1) tp by (metis last_conv_nth nth_take diff_less length_greater_0_conv zero_less_one)
  have bi: "pid (?b ! i) = pid (b ! i)" using cleared_buf_nth(1) [OF cl] i by simp
  have fc: "first_child_pid (?b ! last S) = first_child_pid (b ! last S)" if "S \<noteq> []"
    using cleared_buf_nth(2) [OF cl] S(5) i last_in_set [OF that] by fastforce
  have lt: "q < length b" if "q \<in> set S" for q using S(5) that i by (meson less_le_trans less_trans)
  have tab: "set_tabcnt i e = Inr (e\<lparr>d_tabcnt := write_all (d_tabcnt e) i [d_top e - 1]\<rparr>)" if "length (d_tabcnt e) = N" for e
    using that i by (simp add: set_tabcnt_def write_all_one)
  from rd consider (child) "S = P" "P = [] \<or> pid (b ! i) = first_child_pid (b ! last P)"
    | (sibling) j Q where "S = P @ j # Q" "next_sibling_pid (b ! j) = pid (b ! i)" "pid (b ! i) \<notin> G"
        "\<forall>q \<in> set Q. next_sibling_pid (b ! q) \<in> G" "first_child_pid (b ! last (j # Q)) = 0"
    unfolding ready_def by blast
  then show ?thesis
  proof cases
    case child
    then have "display_step nr i d = set_tabcnt i (d\<lparr>d_buf := ?b, d_stack := ?st[?tp := i], d_top := ?tp + 1\<rparr>)"
      using S i tp lst bi fc by (auto simp: display_step_def Let_def)
    moreover have "take (?tp + 1) (?st[?tp := i]) = P @ [i]"
      using child(1) S tp i by (simp add: take_Suc_conv_app_nth)
    ultimately show ?thesis
      using S child(1) tp cl i by (auto simp: tab dinv_def write_all_def less_Suc_eq)
  next
    case sibling
    have ne: "pid (b ! i) \<noteq> 0" using G sibling(3) by auto
    have l: "?tp = length P + 1 + length Q" using tp sibling(1) by simp
    have "\<exists>b'. pop_until (pid (b ! i)) ?st ?b (length P + 1 + length Q) = Inr (b', length P + 1) \<and> cleared_buf G b b'"
    proof (rule pop_until_spec [OF _ _ cl G sibling(3,2)])
      show "take (length P + 1 + length Q) ?st = P @ j # Q" "length P + 1 + length Q \<le> length ?st"
        using S(1-3) l sibling(1) by simp_all
      show "j < length b" "\<forall>q \<in> set Q. q < length b \<and> next_sibling_pid (b ! q) \<in> G"
        using lt sibling(1,4) by auto
    qed
    then obtain b' where b': "pop_until (pid (b ! i)) ?st ?b ?tp = Inr (b', length P + 1)" "cleared_buf G b b'"
      unfolding l by blast
    have "first_child_pid (?b ! (?st ! (?tp - 1))) = 0" using sibling(1,5) lst fc by simp
    then have "display_step nr i d = set_tabcnt i (d\<lparr>d_buf := b', d_stack := ?st[length P := i], d_top := length P + 1\<rparr>)"
      using b'(1) ne bi l by (simp add: display_step_def)
    moreover have "take (length P + 1) (?st[length P := i]) = P @ [i]"
    proof -
      have "take (length P) (take ?tp ?st) = P" unfolding S(1) sibling(1) by simp
      then have "take (length P) ?st = P" using l by (simp add: min_def)
      then show ?thesis using S(2,3) l by (simp add: take_Suc_conv_app_nth)
    qed
    ultimately show ?thesis
      using S sibling(1) b'(2) i by (auto simp: tab dinv_def write_all_def less_Suc_eq)
  qed
qed

lemma display_loop_append:
  "display_loop nr (is @ js) d = (case display_loop nr is d of Inl e \<Rightarrow> Inl e | Inr d \<Rightarrow> display_loop nr js d)"
  by (induction "is" arbitrary: d) (simp_all split: sum.split)

text \<open>
  The loop over the records of a subtree, or of sibling subtrees, below the path \<open>P\<close>: it ends with the
  given tab counts and with a stack \<open>P @ Q\<close>, where \<open>R Q\<close>.
\<close>

definition shown ::
  "nat \<Rightarrow> int set \<Rightarrow> prinfo list \<Rightarrow> nat \<Rightarrow> nat \<Rightarrow> nat list \<Rightarrow> (nat list \<Rightarrow> bool) \<Rightarrow> nat list \<Rightarrow> display_state \<Rightarrow> bool" where
  "shown N G b nr i P R ts d \<longleftrightarrow>
     (\<exists>d' Q. display_loop nr [i..<i + length ts] d = Inr d' \<and> dinv N G b (i + length ts) (P @ Q) d' \<and> R Q \<and>
        d_tabcnt d' = write_all (d_tabcnt d) i ts)"

lemma shown_append:
  assumes "shown N G b nr i P R ts d" "length (d_tabcnt d) = N" "i + length ts + length us \<le> N"
    and "\<And>d' Q. dinv N G b (i + length ts) (P @ Q) d' \<Longrightarrow> R Q \<Longrightarrow> shown N G b nr (i + length ts) P R' us d'"
  shows "shown N G b nr i P R' (ts @ us) d"
proof -
  obtain d1 Q1 where d1: "display_loop nr [i..<i + length ts] d = Inr d1" "dinv N G b (i + length ts) (P @ Q1) d1" "R Q1"
    "d_tabcnt d1 = write_all (d_tabcnt d) i ts" using assms(1) unfolding shown_def by blast
  obtain d2 Q2 where d2: "display_loop nr [i + length ts..<i + length ts + length us] d1 = Inr d2"
    "dinv N G b (i + length ts + length us) (P @ Q2) d2" "R' Q2" "d_tabcnt d2 = write_all (d_tabcnt d1) (i + length ts) us"
    using assms(4) [OF d1(2,3)] unfolding shown_def by blast
  have "[i..<i + length (ts @ us)] = [i..<i + length ts] @ [i + length ts..<i + length ts + length us]"
    using upt_add_eq_append [of i "i + length ts" "length us"] by (simp add: add.assoc)
  then have "display_loop nr [i..<i + length (ts @ us)] d = Inr d2" using d1(1) d2(1) by (simp add: display_loop_append)
  moreover have "d_tabcnt d2 = write_all (d_tabcnt d) i (ts @ us)"
    using d1(4) d2(4) write_all_append [of i ts us "d_tabcnt d"] assms(2,3) by simp
  moreover have "dinv N G b (i + length (ts @ us)) (P @ Q2) d2" using d2(2) by (simp add: add.assoc)
  ultimately show ?thesis using d2(3) unfolding shown_def by blast
qed

lemma shown_below:
  assumes "shown N G b nr i (P @ [j]) R ts d" "\<And>Q. R Q \<Longrightarrow> R' (j # Q)"
  shows "shown N G b nr i P R' ts d"
  using assms unfolding shown_def by fastforce

lemma shown_mono: "shown N G b nr i P R ts d \<Longrightarrow> (\<And>Q. R Q \<Longrightarrow> R' Q) \<Longrightarrow> shown N G b nr i P R' ts d"
  unfolding shown_def by fast

lemma length_depths: "length (depths d T) = length (flatten T)"
proof (induction d T rule: depths.induct)
  case (1 d e us)
  then have "length (concat (map (depths (d + 1)) us)) = length (flatten_all us)" by (induction us) auto
  then show ?case by simp
qed

definition open_path :: "int set \<Rightarrow> prinfo list \<Rightarrow> nat list \<Rightarrow> bool" where
  "open_path G b Q \<longleftrightarrow>
     Q \<noteq> [] \<and> (\<forall>q \<in> set (tl Q). next_sibling_pid (b ! q) \<in> G) \<and> first_child_pid (b ! last Q) = 0"

abbreviation "tree_end G b i Q \<equiv> open_path G b Q \<and> hd Q = i"
abbreviation "forest_end G b Q \<equiv> open_path G b Q \<and> next_sibling_pid (b ! hd Q) \<in> G"

lemma forest_tree_end: "forest_end G b Q \<Longrightarrow> tree_end G b i (i # Q)"
  by (cases Q) (auto simp: open_path_def)

text \<open>One tree, given that the lemma holds for the forest below its root.\<close>

lemma shown_node:
  assumes b: "b = pre @ flatten (INode e us) @ post" "i = length pre"
    and nr: "i + length (flatten (INode e us)) \<le> nr" "nr \<le> length b" "nr \<le> N"
    and gd: "good G (INode e us)" "0 \<in> G" and inv: "dinv N G b i S d" and rd: "ready G b P i S"
    and nx: "next_sibling_pid e \<notin> G \<Longrightarrow> us = [] \<Longrightarrow> i + 1 < nr \<and> pid (b ! (i + 1)) = next_sibling_pid e"
    and below: "\<And>d. us \<noteq> [] \<Longrightarrow> dinv N G b (i + 1) (P @ [i]) d \<Longrightarrow> ready G b (P @ [i]) (i + 1) (P @ [i]) \<Longrightarrow>
      shown N G b nr (i + 1) (P @ [i]) (forest_end G b) (concat (map (depths (length P + 1)) us)) d"
  shows "shown N G b nr i P (tree_end G b i) (depths (length P) (INode e us)) d"
proof -
  have bi: "b ! i = e" using b by (simp add: nth_append)
  have bs: "b ! (i + 1) = info (hd us)" if "us \<noteq> []"
    using that b by (cases us; cases "hd us") (simp_all add: nth_append)
  have fc: "first_child_pid e = (case us of [] \<Rightarrow> 0 | u # _ \<Rightarrow> ipid u)" using gd by simp
  have "fix_ok G b nr i"
  proof (cases us)
    case Nil
    then show ?thesis using nx bi by (auto simp: fix_ok_def)
  next
    case (Cons u vs)
    then have "1 \<le> length (flatten_all us)" by (cases u) simp
    then have "i + 1 < nr" using nr(1) by simp
    then show ?thesis using bs fc bi Cons by (simp add: fix_ok_def)
  qed
  from display_step_spec [OF inv gd(2) _ nr(2) _ rd this] obtain d1 where
    d1: "display_step nr i d = Inr d1" "dinv N G b (i + 1) (P @ [i]) d1" "d_tabcnt d1 = write_all (d_tabcnt d) i [length P]"
    using nr by auto
  then have one: "shown N G b nr i P (\<lambda>Q. Q = [i]) [length P] d" unfolding shown_def by (simp add: upt_rec)
  show ?thesis
  proof (cases "us = []")
    case True
    then have "tree_end G b i [i]" using fc bi by (simp add: open_path_def)
    then show ?thesis using shown_mono [OF one, of "tree_end G b i"] True by simp
  next
    case False
    have rd': "ready G b (P @ [i]) (i + 1) (P @ [i])" using False bs fc bi by (auto simp: ready_def split: list.splits)
    have "shown N G b nr i P (tree_end G b i) ([length P] @ concat (map (depths (length P + 1)) us)) d"
    proof (rule shown_append [OF one])
      show "length (d_tabcnt d) = N" using inv by (simp add: dinv_def)
      show "i + length [length P] + length (concat (map (depths (length P + 1)) us)) \<le> N"
        using nr length_depths [of "length P" "INode e us"] by simp
      show "shown N G b nr (i + length [length P]) P (tree_end G b i) (concat (map (depths (length P + 1)) us)) d'"
        if "dinv N G b (i + length [length P]) (P @ Q) d'" "Q = [i]" for d' Q
        using shown_below [OF below [OF False _ rd'], of d' "tree_end G b i"] forest_tree_end that by simp
    qed
    then show ?thesis by simp
  qed
qed

text \<open>Sibling trees, given that the lemma holds for each of them.\<close>

lemma shown_forest:
  assumes tree: "\<And>u pre post i S d. u \<in> set us \<Longrightarrow> b = pre @ flatten u @ post \<Longrightarrow> i = length pre \<Longrightarrow>
      i + length (flatten u) \<le> nr \<Longrightarrow> dinv N G b i S d \<Longrightarrow> ready G b P i S \<Longrightarrow>
      (inext u \<notin> G \<Longrightarrow> i + length (flatten u) < nr \<and> pid (b ! (i + length (flatten u))) = inext u) \<Longrightarrow>
      shown N G b nr i P (tree_end G b i) (depths (length P) u) d"
    and b: "b = pre @ flatten_all us @ post" "i = length pre"
    and nr: "i + length (flatten_all us) \<le> nr" "nr \<le> N"
    and us: "us \<noteq> []" "chained G us" "\<forall>u \<in> set us. ipid u \<notin> G"
    and inv: "dinv N G b i S d" and rd: "ready G b P i S"
  shows "shown N G b nr i P (forest_end G b) (concat (map (depths (length P)) us)) d"
  using assms
proof (induction us arbitrary: pre i S d)
  case (Cons u vs)
  let ?n = "length (flatten u)"
  have bi: "b ! i = info u" using Cons.prems(2,3) by (cases u) (simp add: nth_append)
  show ?case
  proof (cases vs)
    case Nil
    then have G: "inext u \<in> G" using Cons.prems(7) by simp
    have "shown N G b nr i P (tree_end G b i) (depths (length P) u) d"
      using Cons.prems(2-5,9,10) Nil G by (intro Cons.prems(1)) auto
    then have "shown N G b nr i P (forest_end G b) (depths (length P) u) d"
      by (rule shown_mono) (use bi G in auto)
    then show ?thesis using Nil by simp
  next
    case (Cons v ws)
    have v: "b ! (i + ?n) = info v" using Cons.prems(2,3) Cons by (cases v) (simp add: nth_append)
    have nx: "inext u = ipid v" "ipid v \<notin> G" using Cons.prems(7,8) Cons by auto
    have len: "i + ?n < nr" using Cons.prems(4) Cons by (cases v) simp
    have u: "shown N G b nr i P (tree_end G b i) (depths (length P) u) d"
      using Cons.prems(2-5,9,10) nx v len by (intro Cons.prems(1)) auto
    have "shown N G b nr i P (forest_end G b) (depths (length P) u @ concat (map (depths (length P)) vs)) d"
    proof (rule shown_append [OF u])
      show "length (d_tabcnt d) = N" using Cons.prems(9) by (simp add: dinv_def)
      show "i + length (depths (length P) u) + length (concat (map (depths (length P)) vs)) \<le> N"
        using Cons.prems(4,5) by (simp add: length_depths length_concat comp_def)
      fix d' Q
      assume d': "dinv N G b (i + length (depths (length P) u)) (P @ Q) d'" and Q: "tree_end G b i Q"
      have "Q = i # tl Q" using Q by (cases Q) (auto simp: open_path_def)
      then have "ready G b P (i + ?n) (P @ Q)"
        using Q bi v nx unfolding ready_def open_path_def
        by (intro disjI2 exI [of _ i] exI [of _ "tl Q"] conjI) simp_all
      then have rd: "ready G b P (i + length (depths (length P) u)) (P @ Q)" by (simp add: length_depths)
      show "shown N G b nr (i + length (depths (length P) u)) P (forest_end G b) (concat (map (depths (length P)) vs)) d'"
      proof (rule Cons.IH [OF _ _ _ _ Cons.prems(5) _ _ _ d' rd])
        show "b = (pre @ flatten u) @ flatten_all vs @ post" using Cons.prems(2) by simp
        show "i + length (depths (length P) u) = length (pre @ flatten u)" using Cons.prems(3) by (simp add: length_depths)
        show "i + length (depths (length P) u) + length (flatten_all vs) \<le> nr" using Cons.prems(4) by (simp add: length_depths)
        show "vs \<noteq> []" "chained G vs" "\<forall>u \<in> set vs. ipid u \<notin> G" using Cons.prems(7,8) Cons by simp_all
      qed (rule Cons.prems(1) [OF list.set_intros(2)]; assumption)
    qed
    then show ?thesis by simp
  qed
qed simp

lemma shown_tree:
  assumes "b = pre @ flatten T @ post" "i = length pre" "i + length (flatten T) \<le> nr" "nr \<le> length b" "nr \<le> N"
    and "good G T" "0 \<in> G" "dinv N G b i S d" "ready G b P i S"
    and "inext T \<notin> G \<Longrightarrow> i + length (flatten T) < nr \<and> pid (b ! (i + length (flatten T))) = inext T"
  shows "shown N G b nr i P (tree_end G b i) (depths (length P) T) d"
  using assms
proof (induction T arbitrary: pre post i S d P)
  case (INode e us)
  show ?case
  proof (rule shown_node [OF INode.prems(1-9)])
    show "next_sibling_pid e \<notin> G \<Longrightarrow> us = [] \<Longrightarrow> i + 1 < nr \<and> pid (b ! (i + 1)) = next_sibling_pid e"
      using INode.prems(10) by simp
    fix d
    assume "us \<noteq> []" and d: "dinv N G b (i + 1) (P @ [i]) d" "ready G b (P @ [i]) (i + 1) (P @ [i])"
    have "shown N G b nr (i + 1) (P @ [i]) (forest_end G b) (concat (map (depths (length (P @ [i]))) us)) d"
    proof (rule shown_forest [OF _ _ _ _ INode.prems(5) \<open>us \<noteq> []\<close> _ _ d])
      show "b = (pre @ [e]) @ flatten_all us @ post" "i + 1 = length (pre @ [e])" using INode.prems(1,2) by simp_all
      show "i + 1 + length (flatten_all us) \<le> nr" using INode.prems(3) by simp
      show "chained G us" "\<forall>u \<in> set us. ipid u \<notin> G" using INode.prems(6) by simp_all
      show "shown N G b nr i' (P @ [i]) (tree_end G b i') (depths (length (P @ [i])) u) d'"
        if "u \<in> set us" "b = pre' @ flatten u @ post'" "i' = length pre'" "i' + length (flatten u) \<le> nr"
          "dinv N G b i' S' d'" "ready G b (P @ [i]) i' S'"
          "inext u \<notin> G \<Longrightarrow> i' + length (flatten u) < nr \<and> pid (b ! (i' + length (flatten u))) = inext u"
        for u pre' post' i' S' d'
        using INode.IH [OF that(1,2,3,4) INode.prems(4,5) _ INode.prems(7) that(5,6,7)] INode.prems(6) that(1) by simp
    qed
    then show "shown N G b nr (i + 1) (P @ [i]) (forest_end G b) (concat (map (depths (length P + 1)) us)) d" by simp
  qed
qed


section \<open>The lines printed\<close>

definition display_start :: "nat list \<Rightarrow> nat list \<Rightarrow> prinfo list \<Rightarrow> display_state" where
  "display_start junk tabs buf = \<lparr>d_buf = buf, d_stack = junk, d_tabcnt = tabs, d_top = 0\<rparr>"

lemma display_loop_tree:
  assumes "good G T" "0 \<in> G" "inext T \<in> G" "nr = length (flatten T)" "nr \<le> N" "length junk = N" "length tabs = N"
  shows "\<exists>d. display_loop nr [0..<nr] (display_start junk tabs (flatten T @ rest)) = Inr d \<and>
    cleared_buf G (flatten T @ rest) (d_buf d) \<and> d_tabcnt d = write_all tabs 0 (depths 0 T)"
proof -
  let ?b = "flatten T @ rest" and ?d = "display_start junk tabs (flatten T @ rest)"
  have "cleared_buf G ?b ?b" by (simp add: cleared_buf_def list_all2_refl cleared_def)
  then have inv: "dinv N G ?b 0 [] ?d" using assms(6,7) by (simp add: dinv_def display_start_def)
  have "shown N G ?b nr 0 [] (tree_end G ?b 0) (depths (length ([] :: nat list)) T) ?d"
    by (rule shown_tree [of _ "[]" T rest, OF _ _ _ _ assms(5,1,2) inv]) (use assms in \<open>auto simp: ready_def\<close>)
  then show ?thesis
    using assms(4) unfolding shown_def by (auto simp: length_depths dinv_def display_start_def)
qed

lemma display_tree:
  assumes "good G T" "0 \<in> G" "inext T \<in> G" "nr = length (flatten T)" "nr \<le> 256" "length junk = 256"
  shows "\<exists>es. display junk (flatten T @ rest) nr = Inr (zip (depths 0 T) es) \<and> list_all2 (cleared G) (flatten T) es"
proof -
  let ?b = "flatten T @ rest" and ?t = "replicate 256 0"
  obtain d where d: "display_loop nr [0..<nr] (display_start junk ?t ?b) = Inr d" "cleared_buf G ?b (d_buf d)"
    "d_tabcnt d = write_all ?t 0 (depths 0 T)"
    using display_loop_tree [OF assms(1-6), of ?t rest] by auto
  have "map (\<lambda>i. (d_tabcnt d ! i, d_buf d ! i)) [0..<nr] = zip (depths 0 T) (take nr (d_buf d))"
    using assms(4) cleared_buf_length [OF d(2)]
    by (intro nth_equalityI) (simp_all add: d(3) write_all_def nth_append length_depths)
  then have "display junk ?b nr = Inr (zip (depths 0 T) (take nr (d_buf d)))"
    using d(1) by (simp add: display_def display_start_def MAXPROCESSNUMBER_def)
  moreover have "list_all2 (cleared G) (take nr ?b) (take nr (d_buf d))"
    using d(2) unfolding cleared_buf_def by (rule list_all2_takeI)
  ultimately show ?thesis using assms(4) by auto
qed

text \<open>
  With arrays that are too short for the number of records the loop runs as with long ones, up to the
  first record beyond their end.
\<close>

definition trunc :: "display_state \<Rightarrow> display_state" where
  "trunc d = d\<lparr>d_stack := take 256 (d_stack d), d_tabcnt := take 256 (d_tabcnt d)\<rparr>"

lemma pop_until_take: "tp \<le> n \<Longrightarrow> pop_until x (take n stack) b tp = pop_until x stack b tp"
  by (induction tp arbitrary: b) simp_all

lemma pop_until_le: "pop_until x stack b tp = Inr (b', tp') \<Longrightarrow> tp' \<le> tp \<and> 0 < tp'"
  by (induction tp arbitrary: b) (force split: if_splits)+

lemma take_update: "take n (xs[i := x]) = (take n xs)[i := x]"
  by (rule take_update_swap)

lemma display_step_trunc:
  assumes "display_step nr i d = Inr d'" "d_top d \<le> i" "i \<le> 256"
    and "i < length (d_stack d)" "256 < length (d_stack d)" "256 < length (d_tabcnt d)"
  shows "d_top d' \<le> i + 1 \<and> length (d_stack d') = length (d_stack d) \<and> length (d_tabcnt d') = length (d_tabcnt d) \<and>
    display_step nr i (trunc d) = (if i < 256 then Inr (trunc d') else Inl Stack_overrun)"
proof -
  let ?b = "fix_sibling nr i (d_buf d)"
  have top: "take 256 (d_stack d) ! (d_top d - 1) = d_stack d ! (d_top d - 1)" if "d_top d \<noteq> 0"
    using that assms(2,3) by (intro nth_take) linarith
  have pop: "pop_until x (take 256 (d_stack d)) b (d_top d) = pop_until x (d_stack d) b (d_top d)" for x b
    by (rule pop_until_take) (use assms(2,3) in simp)
  let ?x = "pid (?b ! i)" and ?c = "\<lambda>st. d_top d = 0 \<or> pid (?b ! i) = first_child_pid (?b ! (st ! (d_top d - 1)))"
  have c: "?c (take 256 (d_stack d)) = ?c (d_stack d)" by (cases "d_top d = 0") (simp_all add: top [simplified])
  show ?thesis
  proof (cases "?c (d_stack d)")
    case True
    let ?e = "\<lambda>d. d\<lparr>d_buf := ?b, d_stack := (d_stack d)[d_top d := i], d_top := d_top d + 1\<rparr>"
    have "display_step nr i d = (if d_top d < length (d_stack d) then set_tabcnt i (?e d) else Inl Stack_overrun)"
      using True by (simp add: display_step_def Let_def)
    moreover have "display_step nr i (trunc d) =
        (if d_top d < length (take 256 (d_stack d)) then set_tabcnt i (?e (trunc d)) else Inl Stack_overrun)"
      using True c by (simp add: display_step_def Let_def trunc_def)
    ultimately show ?thesis using assms by (auto simp: set_tabcnt_def trunc_def take_update)
  next
    case False
    let ?e = "\<lambda>d b tp. d\<lparr>d_buf := b, d_stack := (d_stack d)[tp - 1 := i], d_top := tp\<rparr>"
    have d: "display_step nr i d = (case pop_until ?x (d_stack d) ?b (d_top d) of
        Inl err \<Rightarrow> Inl err | Inr (b, tp) \<Rightarrow> set_tabcnt i (?e d b tp))"
      using False by (simp add: display_step_def Let_def)
    obtain b tp where bt: "pop_until ?x (d_stack d) ?b (d_top d) = Inr (b, tp)"
      using d assms(1) by (auto split: sum.splits)
    have t: "display_step nr i (trunc d) = set_tabcnt i (?e (trunc d) b tp)"
      using False c by (simp add: display_step_def Let_def trunc_def pop bt)
    have "set_tabcnt i (?e d b tp) = Inr d'" using d bt assms(1) by simp
    then show ?thesis
      using t bt pop_until_le [OF bt] assms(2-) by (auto simp: set_tabcnt_def trunc_def take_update)
  qed
qed

lemma display_loop_trunc:
  assumes "display_loop nr [i..<n] d = Inr d'" "i \<le> n" "n \<le> 256" "d_top d \<le> i"
    and "256 < length (d_stack d)" "256 < length (d_tabcnt d)"
  shows "display_loop nr [i..<n] (trunc d) = Inr (trunc d') \<and> d_top d' \<le> n \<and>
    length (d_stack d') = length (d_stack d) \<and> length (d_tabcnt d') = length (d_tabcnt d)"
  using assms
proof (induction "n - i" arbitrary: i d)
  case (Suc m)
  then have i: "[i..<n] = i # [i + 1..<n]" "i < n" by (simp_all add: upt_conv_Cons)
  then obtain d1 where d1: "display_step nr i d = Inr d1" "display_loop nr [i + 1..<n] d1 = Inr d'"
    using Suc.prems(1) by (auto split: sum.splits)
  have "d_top d1 \<le> i + 1 \<and> length (d_stack d1) = length (d_stack d) \<and> length (d_tabcnt d1) = length (d_tabcnt d) \<and>
      display_step nr i (trunc d) = Inr (trunc d1)"
    using display_step_trunc [OF d1(1) Suc.prems(4)] Suc.prems(3,5,6) i(2) by simp
  with Suc.hyps(1) [of "i + 1" d1] d1(2) Suc.hyps(2) Suc.prems i show ?case by simp
qed simp

lemma display_overrun:
  assumes "good G T" "0 \<in> G" "inext T \<in> G" "nr = length (flatten T)" "256 < nr" "length junk = 256"
  shows "display junk (flatten T @ rest) nr = Inl Stack_overrun"
proof -
  let ?b = "flatten T @ rest" and ?J = "junk @ replicate (nr - 256) 0" and ?t = "replicate nr 0"
  let ?d = "display_start ?J ?t ?b"
  have tr: "trunc ?d = display_start junk (replicate 256 0) ?b" using assms(5,6) by (simp add: trunc_def display_start_def min_def)
  obtain N :: nat where N: "N = 256" by blast
  then have "N < nr" using assms(5) by simp
  then have split: "[0..<nr] = [0..<N] @ N # [N + 1..<nr]"
    using upt_add_eq_append [of 0 N "nr - N"] by (simp add: upt_conv_Cons)
  obtain d where "display_loop nr [0..<nr] ?d = Inr d"
    using display_loop_tree [OF assms(1-4), of nr ?J ?t rest] assms(5,6) by auto
  then obtain d1 d2 where d1: "display_loop nr [0..<N] ?d = Inr d1" "display_step nr N d1 = Inr d2"
    unfolding split by (auto simp: display_loop_append split: sum.splits)
  have "display_loop nr [0..<N] (trunc ?d) = Inr (trunc d1) \<and> d_top d1 \<le> N \<and>
      length (d_stack d1) = length (d_stack ?d) \<and> length (d_tabcnt d1) = length (d_tabcnt ?d)"
    by (rule display_loop_trunc [OF d1(1)]) (use assms(5,6) N in \<open>simp_all add: display_start_def\<close>)
  then have t1: "display_loop nr [0..<N] (trunc ?d) = Inr (trunc d1)" "d_top d1 \<le> N"
    "256 < length (d_stack d1)" "256 < length (d_tabcnt d1)"
    using assms(5,6) by (simp_all add: display_start_def)
  have "display_step nr N (trunc d1) = Inl Stack_overrun" using display_step_trunc [OF d1(2) t1(2)] t1(3,4) N by simp
  then have "display_loop nr [0..<nr] (trunc ?d) = Inl Stack_overrun"
    unfolding split using t1(1) by (simp add: display_loop_append)
  then show ?thesis unfolding tr by (simp add: display_def display_start_def MAXPROCESSNUMBER_def)
qed

end
