(* ===== verification/Ptree_Spec.thy ===== *)
theory Ptree_Spec
  imports Ptree_Display
begin

text \<open>
  The process tree module and the program that prints its result, together: the lines printed are
  the tasks in depth-first order, each indented by its depth in the tree of tasks.
\<close>

section \<open>The records of a tree of tasks\<close>

fun info_tree :: "tasks \<Rightarrow> ttree \<Rightarrow> itree" where
  "info_tree k (TNode t us) = INode (convert k t) (map (info_tree k) us)"

fun levels :: "nat \<Rightarrow> ttree \<Rightarrow> nat list" where
  "levels d (TNode t us) = d # concat (map (levels (d + 1)) us)"

definition strays :: "tasks \<Rightarrow> ttree \<Rightarrow> int set" where
  "strays k T = insert 0 (stray k ` set (preorder T))"

lemma flatten_info_tree: "flatten (info_tree k T) = map (convert k) (preorder T)"
proof (induction T)
  case (TNode t us)
  then have "map (flatten \<circ> info_tree k) us = map (map (convert k) \<circ> preorder) us" by simp
  then show ?case by (simp add: map_concat del: map_eq_conv)
qed

lemma depths_info_tree: "depths d (info_tree k T) = levels d T"
proof (induction T arbitrary: d)
  case (TNode t us)
  then have "map (depths (Suc d) \<circ> info_tree k) us = map (levels (Suc d)) us" by simp
  then show ?case by (simp del: map_eq_conv)
qed

lemma info_info_tree [simp]: "info (info_tree k T) = convert k (root T)"
  by (cases T) simp

lemma chained_info_tree:
  assumes "task_tree k (TNode t (xs @ us))" "stray k t \<in> G"
  shows "chained G (map (info_tree k) us)"
  using assms
proof (induction us arbitrary: xs)
  case (Cons u us)
  note nx = convert_next_sibling [OF Cons.prems(1)]
  have IH: "chained G (map (info_tree k) us)" using Cons.IH [of "xs @ [u]"] Cons.prems by simp
  show ?case using nx IH Cons.prems(2) by (cases us) simp_all
qed simp

lemma good_info_tree:
  assumes "task_tree k T" "\<forall>t \<in> set (preorder T). stray k t \<in> G"
    and "\<forall>t \<in> set (tl (preorder T)). pid_at k t \<notin> G"
  shows "good G (info_tree k T)"
  using assms
proof (induction T)
  case (TNode t us)
  have "root u \<in> set (preorder u)" for u by (cases u) simp
  moreover have "set (tl (preorder u)) \<subseteq> set (preorder u)" for u by (cases u) auto
  ultimately have kids: "\<forall>u \<in> set us. pid_at k (root u) \<notin> G \<and> good G (info_tree k u)"
    using TNode by (auto simp: subset_iff)
  have "first_child_pid (convert k t) = (case us of [] \<Rightarrow> 0 | u # _ \<Rightarrow> pid_at k (root u))"
    by (rule convert_first_child [OF TNode.prems(1)])
  then show ?case
    using kids chained_info_tree [of k t "[]" us G] TNode.prems by (simp split: list.splits)
qed

text \<open>
  What the kernel guarantees about the tree: its root is \<^verbatim>\<open>init_task\<close>, which is nobody's child, and the
  words read in place of a process number through the list heads are no process numbers.
\<close>

definition process_tree :: "tasks \<Rightarrow> ttree \<Rightarrow> bool" where
  "process_tree k T \<longleftrightarrow>
     task_tree k T \<and> root T = init_task k \<and> list_empty (sibling k (init_task k)) (links k) \<and>
     (\<forall>t \<in> set (tl (preorder T)). pid_at k t \<notin> strays k T)"

lemma process_tree_good:
  assumes "process_tree k T"
  shows "good (strays k T) (info_tree k T)" "inext (info_tree k T) \<in> strays k T"
proof -
  show "good (strays k T) (info_tree k T)"
    using assms by (intro good_info_tree) (auto simp: process_tree_def strays_def)
  have "next_sibling_pid (convert k (root T)) = 0" using assms by (simp add: process_tree_def convert_def)
  then show "inext (info_tree k T) \<in> strays k T" by (simp add: strays_def)
qed

text \<open>
  C26. The program prints the tree of tasks: for at most 256 tasks, loaded with the module, it prints
  one line per task in depth-first order, with as many tabs as the task's depth in the tree, and with
  the fields of the task; only a number read through a list head may have been replaced by 0. It
  never pops more from its stack than is there.
\<close>

theorem ptree_prints_tree:
  assumes "process_tree k T" "nodes T \<le> 256" "2 * nodes T \<le> n" "length m = MAXBUFFERSIZE" "length junk = 256"
  shows "\<exists>es. ptree_main junk buf nr (ptree n k (Some m) False False) = Inr (zip (levels 0 T) es) \<and>
    list_all2 (cleared (strays k T)) (map (convert k) (preorder T)) es"
proof -
  have call: "ptree n k (Some m) False False =
      Inr \<lparr>ret = 0, user_buf = Some (flatten (info_tree k T) @ drop (nodes T) m), user_nr = Some (nodes T), kfreed = True\<rparr>"
    using ptree_result [of k T n m] assms by (simp add: process_tree_def flatten_info_tree)
  have "0 \<in> strays k T" by (simp add: strays_def)
  from display_tree [OF process_tree_good(1) [OF assms(1)] this process_tree_good(2) [OF assms(1)], of "nodes T" junk "drop (nodes T) m"]
  show ?thesis using assms(2,5) unfolding call by (simp add: ptree_main_def flatten_info_tree depths_info_tree)
qed

text \<open>
  The record of a task names its relatives: the first child in the child list, or 0, and for each
  child the next one in the list. The last child has no next sibling, but its record does not say 0:
  the code follows the list back to its head in the parent and reads a word of the parent's structure
  as if it were a process number.
\<close>

theorem convert_names_relatives:
  assumes "task_tree k (TNode t us)"
  shows "first_child_pid (convert k t) = (if us = [] then 0 else pid_at k (root (hd us))) \<and>
    (\<forall>i < length us. next_sibling_pid (convert k (root (us ! i))) =
       (if i + 1 < length us then pid_at k (root (us ! (i + 1))) else pid_at k (list_entry k (children k t))))"
proof (intro conjI allI impI)
  show "first_child_pid (convert k t) = (if us = [] then 0 else pid_at k (root (hd us)))"
    using convert_first_child [OF assms] by (cases us) simp_all
  fix i
  assume i: "i < length us"
  then have us: "us = take i us @ us ! i # drop (i + 1) us" by (simp add: Cons_nth_drop_Suc)
  have "next_sibling_pid (convert k (root (us ! i))) =
      (case drop (i + 1) us of [] \<Rightarrow> stray k t | v # _ \<Rightarrow> pid_at k (root v))"
    by (rule convert_next_sibling [where xs = "take i us"]) (simp only: us [symmetric] assms)
  then show "next_sibling_pid (convert k (root (us ! i))) =
       (if i + 1 < length us then pid_at k (root (us ! (i + 1))) else pid_at k (list_entry k (children k t)))"
    by (cases "i + 1 < length us") (simp_all add: stray_def Cons_nth_drop_Suc [symmetric])
qed

text \<open>
  C28. With more than 256 tasks the program writes past the end of its arrays on the stack, although the
  buffer that the system call fills has room for 2048.
\<close>

theorem display_overruns_stack:
  assumes "good G T" "0 \<in> G" "inext T \<in> G" "256 < length (flatten T)" "length junk = 256"
  shows "display junk (flatten T @ rest) (length (flatten T)) = Inl Stack_overrun"
  by (rule display_overrun [OF assms(1-3) refl assms(4,5)])


text \<open>
  When \<^verbatim>\<open>copy_to_user\<close> fails, \<^verbatim>\<open>ptree\<close> returns 1, the count in user space is not written and the kernel's
  buffer is never freed.
\<close>

theorem ptree_copy_fails:
  assumes "task_tree k T" "root T = init_task k" "2 * nodes T \<le> n" "length m = MAXBUFFERSIZE" "nodes T \<le> 2048"
    and "bad_buf \<or> bad_nr"
  shows "\<exists>r. ptree n k (Some m) bad_buf bad_nr = Inr r \<and> ret r = 1 \<and> user_nr r = None \<and> \<not> kfreed r \<and>
    (user_buf r = None \<longleftrightarrow> bad_buf)"
  using ptree_result [OF assms(1-4), of bad_buf bad_nr] assms(5,6) by (auto simp: Let_def)


section \<open>A small system\<close>

text \<open>
  Four tasks: \<^verbatim>\<open>swapper\<close> with the children \<^verbatim>\<open>init\<close> and \<^verbatim>\<open>kthreadd\<close>, and a shell below \<^verbatim>\<open>init\<close>. The word in front of
  the process number of \<^verbatim>\<open>init\<close> is its personality, 8388608.
\<close>

definition small_links :: lheap where
  "small_links =
     \<lparr>nxt = (\<lambda>a. a)(0x1010 := 0x2018, 0x2018 := 0x3018, 0x3018 := 0x1010, 0x2010 := 0x4018, 0x4018 := 0x2010),
      prv = (\<lambda>a. a)(0x1010 := 0x3018, 0x3018 := 0x2018, 0x2018 := 0x1010, 0x2010 := 0x4018, 0x4018 := 0x2010)\<rparr>"

definition small_tasks :: tasks where
  "small_tasks =
     \<lparr>links = small_links, off_children = 0x10, off_sibling = 0x18,
      pid_at = (\<lambda>_. 0)(0x2000 := 1, 0x3000 := 2, 0x4000 := 84, 0x1FF8 := 8388608),
      parent_at = (\<lambda>_. 0x1000)(0x4000 := 0x2000), state_at = (\<lambda>_. 1), uid_at = (\<lambda>_. 0),
      comm_at = (\<lambda>_. ''swapper'')(0x2000 := ''init'', 0x3000 := ''kthreadd'', 0x4000 := ''sh''),
      init_task = 0x1000\<rparr>"

definition small_tree :: ttree where
  "small_tree = TNode 0x1000 [TNode 0x2000 [TNode 0x4000 []], TNode 0x3000 []]"

lemma small_process_tree: "process_tree small_tasks small_tree"
  by (simp add: process_tree_def small_tasks_def small_tree_def small_links_def is_list_def children_def
      sibling_def strays_def stray_def list_entry_def list_empty_def)

theorem ptree_prints_tree_witness:
  "\<exists>es. ptree_main (replicate 256 0) [] 0 (ptree 8 small_tasks (Some (replicate MAXBUFFERSIZE undefined)) False False) =
     Inr (zip [0, 1, 2, 1] es) \<and> map comm es = [''swapper'', ''init'', ''sh'', ''kthreadd'']"
proof -
  have "nodes small_tree = 4" "levels 0 small_tree = [0, 1, 2, 1]" by (simp_all add: small_tree_def)
  then obtain es where es: "ptree_main (replicate 256 0) [] 0
      (ptree 8 small_tasks (Some (replicate MAXBUFFERSIZE undefined)) False False) = Inr (zip [0, 1, 2, 1] es)"
    "list_all2 (cleared (strays small_tasks small_tree)) (map (convert small_tasks) (preorder small_tree)) es"
    using ptree_prints_tree [OF small_process_tree, of 8 "replicate MAXBUFFERSIZE undefined" "replicate 256 0" "[]" 0] by auto
  have "map comm es = map comm (map (convert small_tasks) (preorder small_tree))"
    using es(2) by (auto simp: list_all2_conv_all_nth cleared_def intro!: nth_equalityI)
  then show ?thesis using es(1) by (auto simp: small_tree_def convert_def small_tasks_def)
qed

theorem convert_names_relatives_witness:
  "next_sibling_pid (convert small_tasks 0x2000) = 2 \<and> next_sibling_pid (convert small_tasks 0x4000) = 8388608"
proof -
  have "task_tree small_tasks (TNode 0x1000 [TNode 0x2000 [TNode 0x4000 []], TNode 0x3000 []])"
    "task_tree small_tasks (TNode 0x2000 [TNode 0x4000 []])"
    using small_process_tree by (simp_all add: process_tree_def small_tree_def)
  from this [THEN convert_names_relatives, THEN conjunct2, THEN spec, of 0] show ?thesis
    by (simp add: small_tasks_def list_entry_def children_def)
qed

text \<open>A chain of \<open>n + 1\<close> tasks, each the only child of the one before.\<close>

primrec chain :: "nat \<Rightarrow> int \<Rightarrow> itree" where
  "chain 0 i = INode \<lparr>parent_pid = i - 1, pid = i, first_child_pid = 0, next_sibling_pid = 0, state = 0, uid = 0, comm = []\<rparr> []"
| "chain (Suc n) i =
     INode \<lparr>parent_pid = i - 1, pid = i, first_child_pid = i + 1, next_sibling_pid = 0, state = 0, uid = 0, comm = []\<rparr>
       [chain n (i + 1)]"

lemma chain_info [simp]: "ipid (chain n i) = i" "inext (chain n i) = 0" "length (flatten (chain n i)) = n + 1"
  by (induction n arbitrary: i) simp_all

lemma good_chain: "0 \<le> i \<Longrightarrow> good {0} (chain n i)"
  by (induction n arbitrary: i) simp_all

theorem display_overruns_stack_witness:
  "display (replicate 256 0) (flatten (chain 256 0) @ []) 257 = Inl Stack_overrun"
  using display_overruns_stack [OF good_chain, of 0 256 "replicate 256 0" "[]"] by simp


theorem ptree_copy_fails_witness:
  "\<exists>r. ptree 8 small_tasks (Some (replicate MAXBUFFERSIZE undefined)) False True = Inr r \<and> ret r = 1 \<and> \<not> kfreed r"
proof -
  have "task_tree small_tasks small_tree" "root small_tree = init_task small_tasks" "nodes small_tree = 4"
    using small_process_tree by (simp_all add: process_tree_def) (simp add: small_tree_def)
  then show ?thesis
    using ptree_copy_fails [of small_tasks small_tree 8 "replicate MAXBUFFERSIZE undefined" False True] by auto
qed

end
