(* ===== verification/Page_Walk.thy ===== *)
theory Page_Walk
  imports Kernel_Prelude "HOL-Library.Tree"
begin

text \<open>
  Address spaces and the walk over their page tables: \<^verbatim>\<open>find_vma\<close> of \<^verbatim>\<open>mm/mmap.c\<close> and \<^verbatim>\<open>mm/pagewalk.c\<close>, for
  the two-level page tables of 32-bit ARM. The page directory has 2048 entries of 2 MB each; the middle
  levels are folded into it, so their loops run once.

  Callbacks and the loops over them return \<open>None\<close> when the kernel stops with a \<^verbatim>\<open>BUG\<close> or never returns.
\<close>

section \<open>Address arithmetic\<close>

definition PGDIR_SIZE :: ulong where
  "PGDIR_SIZE = 0x200000"

definition PGDIR_MASK :: ulong where
  "PGDIR_MASK = NOT (PGDIR_SIZE - 1)"

definition PAGE_SIZE :: ulong where
  "PAGE_SIZE = 4096"

definition pgd_index :: "ulong \<Rightarrow> nat" where
  "pgd_index addr = unat (drop_bit 21 addr)"

definition pte_index :: "ulong \<Rightarrow> nat" where
  "pte_index addr = unat (drop_bit 12 addr AND 0x1FF)"

definition pgd_addr_end :: "ulong \<Rightarrow> ulong \<Rightarrow> ulong" where
  "pgd_addr_end addr end =
     (let boundary = (addr + PGDIR_SIZE) AND PGDIR_MASK
      in if boundary - 1 < end - 1 then boundary else end)"

definition pmd_none :: "ulong \<Rightarrow> bool" where
  "pmd_none pmd \<longleftrightarrow> pmd = 0"

definition pmd_bad :: "ulong \<Rightarrow> bool" where
  "pmd_bad pmd \<longleftrightarrow> pmd AND 2 \<noteq> 0"


section \<open>Address spaces\<close>

record vma =
  vm_start :: ulong
  vm_end :: ulong
  vm_page_prot :: ulong
  vm_pfnmap :: bool
  vm_cow :: bool

record mm_struct =
  mm_rb :: "vma tree"
  mmap_cache :: "vma option"
  mm_pgd :: "nat \<Rightarrow> ulong"

fun rb_search :: "ulong \<Rightarrow> vma tree \<Rightarrow> vma option \<Rightarrow> vma option" where
  "rb_search addr Leaf vma = vma"
| "rb_search addr (Node l tmp r) vma =
     (if vm_end tmp > addr
      then if vm_start tmp \<le> addr then Some tmp else rb_search addr l (Some tmp)
      else rb_search addr r vma)"

definition find_vma :: "ulong \<Rightarrow> mm_struct \<Rightarrow> vma option \<times> mm_struct" where
  "find_vma addr mm =
     (case mmap_cache mm of
        Some v \<Rightarrow>
          if vm_end v > addr \<and> vm_start v \<le> addr then (Some v, mm)
          else (case rb_search addr (mm_rb mm) None of
                  None \<Rightarrow> (None, mm) | Some v \<Rightarrow> (Some v, mm\<lparr>mmap_cache := Some v\<rparr>))
      | None \<Rightarrow>
          (case rb_search addr (mm_rb mm) None of
             None \<Rightarrow> (None, mm) | Some v \<Rightarrow> (Some v, mm\<lparr>mmap_cache := Some v\<rparr>)))"

text \<open>The areas are disjoint and in order; the cached area is one of them.\<close>

definition areas_ok :: "vma list \<Rightarrow> bool" where
  "areas_ok vs \<longleftrightarrow> sorted_wrt (\<lambda>a b. vm_end a \<le> vm_start b) vs \<and> (\<forall>v \<in> set vs. vm_start v < vm_end v)"

definition mm_ok :: "mm_struct \<Rightarrow> bool" where
  "mm_ok mm \<longleftrightarrow> areas_ok (inorder (mm_rb mm)) \<and> (\<forall>v. mmap_cache mm = Some v \<longrightarrow> v \<in> set_tree (mm_rb mm))"

abbreviation first_above :: "ulong \<Rightarrow> vma list \<Rightarrow> vma option" where
  "first_above addr vs \<equiv> List.find (\<lambda>v. addr < vm_end v) vs"

lemma find_append: "List.find P (xs @ ys) = (case List.find P xs of None \<Rightarrow> List.find P ys | Some x \<Rightarrow> Some x)"
  by (induction xs) simp_all

lemma areas_ok_append:
  "areas_ok (xs @ v # ys) \<longleftrightarrow>
     areas_ok xs \<and> areas_ok ys \<and> vm_start v < vm_end v \<and> (\<forall>a \<in> set xs. vm_end a \<le> vm_start v) \<and>
     (\<forall>b \<in> set ys. vm_end v \<le> vm_start b) \<and> (\<forall>a \<in> set xs. \<forall>b \<in> set ys. vm_end a \<le> vm_start b)"
  by (auto simp: areas_ok_def sorted_wrt_append)

lemma rb_search_first:
  assumes "areas_ok (inorder t)"
  shows "rb_search addr t best = (case first_above addr (inorder t) of None \<Rightarrow> best | Some v \<Rightarrow> Some v)"
  using assms
proof (induction t arbitrary: best)
  case (Node l v r)
  then have ok: "areas_ok (inorder l)" "areas_ok (inorder r)" "vm_start v < vm_end v" "\<forall>a \<in> set (inorder l). vm_end a \<le> vm_start v"
    by (simp_all add: areas_ok_append)
  have "first_above addr (inorder l) = None" if "vm_start v \<le> addr \<or> vm_end v \<le> addr"
  proof -
    have "\<not> addr < vm_end a" if "a \<in> set (inorder l)" for a
      using ok(3,4) that \<open>vm_start v \<le> addr \<or> vm_end v \<le> addr\<close> by (meson le_less_trans not_le less_imp_le order_trans)
    then show ?thesis by (auto simp: find_None_iff)
  qed
  then show ?case
    using Node.IH ok by (auto simp: find_append not_less split: option.split)
qed simp

lemma first_above_inside:
  assumes "areas_ok vs" "v \<in> set vs" "vm_start v \<le> addr" "addr < vm_end v"
  shows "first_above addr vs = Some v"
proof -
  obtain xs ys where vs: "vs = xs @ v # ys" using split_list [OF assms(2)] by blast
  then have "\<forall>a \<in> set xs. vm_end a \<le> vm_start v" using assms(1) by (simp add: areas_ok_append)
  then have "\<forall>a \<in> set xs. \<not> addr < vm_end a" using assms(3) by (meson le_less_trans not_le order_trans)
  then have "first_above addr xs = None" by (auto simp: find_None_iff)
  then show ?thesis using vs assms(4) by (simp add: find_append)
qed

lemma find_vma_ok:
  assumes "mm_ok mm"
  shows "fst (find_vma addr mm) = first_above addr (inorder (mm_rb mm)) \<and> mm_ok (snd (find_vma addr mm)) \<and>
    mm_rb (snd (find_vma addr mm)) = mm_rb mm \<and> mm_pgd (snd (find_vma addr mm)) = mm_pgd mm"
proof -
  have ok: "areas_ok (inorder (mm_rb mm))" using assms by (simp add: mm_ok_def)
  have s: "rb_search addr (mm_rb mm) None = first_above addr (inorder (mm_rb mm))"
    by (simp add: rb_search_first [OF ok] split: option.split)
  have "v \<in> set_tree (mm_rb mm)" if "first_above addr (inorder (mm_rb mm)) = Some v" for v
    using that by (metis find_Some_iff nth_mem set_inorder)
  then have tree: "fst r = first_above addr (inorder (mm_rb mm)) \<and> mm_ok (snd r) \<and> mm_rb (snd r) = mm_rb mm \<and>
      mm_pgd (snd r) = mm_pgd mm"
    if "r = (case rb_search addr (mm_rb mm) None of None \<Rightarrow> (None, mm) | Some v \<Rightarrow> (Some v, mm\<lparr>mmap_cache := Some v\<rparr>))" for r
    using assms that by (cases "first_above addr (inorder (mm_rb mm))") (simp_all add: s mm_ok_def)
  show ?thesis
  proof (cases "mmap_cache mm")
    case None
    then show ?thesis by (intro tree) (simp add: find_vma_def)
  next
    case (Some v)
    then have v: "v \<in> set (inorder (mm_rb mm))" using assms by (simp add: mm_ok_def)
    show ?thesis
    proof (cases "vm_end v > addr \<and> vm_start v \<le> addr")
      case True
      then show ?thesis using first_above_inside [OF ok v] Some assms by (simp add: find_vma_def)
    next
      case False
      then show ?thesis using Some by (intro tree) (auto simp: find_vma_def)
    qed
  qed
qed

text \<open>
  \<^verbatim>\<open>find_vma\<close> returns the first area that ends above the address, whether it uses its cache or searches
  the tree, and keeps the cache valid.
\<close>

theorem find_vma_first:
  assumes "mm_ok mm"
  shows "fst (find_vma addr mm) = first_above addr (inorder (mm_rb mm)) \<and> mm_ok (snd (find_vma addr mm)) \<and>
    mm_rb (snd (find_vma addr mm)) = mm_rb mm \<and> mm_pgd (snd (find_vma addr mm)) = mm_pgd mm"
  by (rule find_vma_ok [OF assms])

lemma rb_search_above: "rb_search addr t best = Some v \<Longrightarrow> (\<forall>u. best = Some u \<longrightarrow> addr < vm_end u) \<Longrightarrow> addr < vm_end v"
  by (induction t arbitrary: best) (auto split: if_splits)

lemma find_vma_above: "fst (find_vma addr mm) = Some v \<Longrightarrow> addr < vm_end v"
  using rb_search_above [of addr "mm_rb mm" None] by (auto simp: find_vma_def split: option.splits if_splits)


section \<open>The walk\<close>

text \<open>
  A walk over the state \<open>'s\<close>: how to reach the address space in it, and the callbacks. A directory
  entry is named by its index, a page table entry by the directory index and its own.
\<close>

type_synonym 's walk_result = "(int \<times> 's) option"
type_synonym 's dir_callback = "nat \<Rightarrow> ulong \<Rightarrow> ulong \<Rightarrow> 's \<Rightarrow> 's walk_result"
type_synonym 's pte_callback = "nat \<times> nat \<Rightarrow> ulong \<Rightarrow> ulong \<Rightarrow> 's \<Rightarrow> 's walk_result"

record 's mm_walk =
  w_mm :: "'s \<Rightarrow> mm_struct option"
  w_set_mm :: "mm_struct \<Rightarrow> 's \<Rightarrow> 's"
  pgd_entry :: "'s dir_callback option"
  pud_entry :: "'s dir_callback option"
  pmd_entry :: "'s dir_callback option"
  pte_entry :: "'s pte_callback option"
  pte_hole :: "(ulong \<Rightarrow> ulong \<Rightarrow> 's \<Rightarrow> 's walk_result) option"

definition call_dir :: "'s dir_callback option \<Rightarrow> 's dir_callback" where
  "call_dir f pmd addr next s = (case f of None \<Rightarrow> Some (0, s) | Some f \<Rightarrow> f pmd addr next s)"

definition call_hole :: "'s mm_walk \<Rightarrow> ulong \<Rightarrow> ulong \<Rightarrow> 's \<Rightarrow> 's walk_result" where
  "call_hole walk addr next s = (case pte_hole walk of None \<Rightarrow> Some (0, s) | Some f \<Rightarrow> f addr next s)"

definition pmd_val :: "'s mm_walk \<Rightarrow> 's \<Rightarrow> nat \<Rightarrow> ulong" where
  "pmd_val walk s pmd = (case w_mm walk s of None \<Rightarrow> 0 | Some mm \<Rightarrow> mm_pgd mm pmd)"

partial_function (option) walk_pte_range ::
  "'s pte_callback \<Rightarrow> nat \<times> nat \<Rightarrow> ulong \<Rightarrow> ulong \<Rightarrow> 's \<Rightarrow> 's walk_result" where
  "walk_pte_range f pte addr end s =
     (case f pte addr (addr + PAGE_SIZE) s of
        None \<Rightarrow> None
      | Some (err, s) \<Rightarrow>
          if err \<noteq> 0 then Some (err, s)
          else if addr + PAGE_SIZE = end then Some (err, s)
          else walk_pte_range f (fst pte, snd pte + 1) (addr + PAGE_SIZE) end s)"

definition pmd_none_or_clear_bad :: "'s mm_walk \<Rightarrow> nat \<Rightarrow> 's \<Rightarrow> bool \<times> 's" where
  "pmd_none_or_clear_bad walk pmd s =
     (if pmd_none (pmd_val walk s pmd) then (True, s)
      else if pmd_bad (pmd_val walk s pmd)
      then (True, case w_mm walk s of None \<Rightarrow> s | Some mm \<Rightarrow> w_set_mm walk (mm\<lparr>mm_pgd := (mm_pgd mm)(pmd := 0)\<rparr>) s)
      else (False, s))"

text \<open>
  The body of the loop in \<^verbatim>\<open>walk_pmd_range\<close>, with what to do on \<^verbatim>\<open>goto again\<close>. The entry is empty then, so
  the second pass takes the branch for empty entries and there is no third.
\<close>

definition walk_pmd_body :: "('s \<Rightarrow> 's walk_result) \<Rightarrow> 's mm_walk \<Rightarrow> 's dir_callback" where
  "walk_pmd_body again walk pmd addr next s =
     (if pmd_none (pmd_val walk s pmd) then call_hole walk addr next s
      else case call_dir (pmd_entry walk) pmd addr next s of
        None \<Rightarrow> None
      | Some (err, s) \<Rightarrow>
          if err \<noteq> 0 then Some (err, s)
          else case pte_entry walk of
            None \<Rightarrow> Some (err, s)
          | Some f \<Rightarrow>
              (case pmd_none_or_clear_bad walk pmd s of
                 (True, s) \<Rightarrow> again s
               | (False, s) \<Rightarrow> walk_pte_range f (pmd, pte_index addr) addr next s))"

definition walk_pmd_range :: "'s mm_walk \<Rightarrow> 's dir_callback" where
  "walk_pmd_range walk pmd addr end =
     walk_pmd_body (walk_pmd_body (\<lambda>s. Some (0, s)) walk pmd addr end) walk pmd addr end"

definition walk_pud_range :: "'s mm_walk \<Rightarrow> 's dir_callback" where
  "walk_pud_range walk pud addr end s =
     (case call_dir (pud_entry walk) pud addr end s of
        None \<Rightarrow> None
      | Some (err, s) \<Rightarrow>
          if err = 0 \<and> (pmd_entry walk \<noteq> None \<or> pte_entry walk \<noteq> None)
          then walk_pmd_range walk pud addr end s
          else Some (err, s))"

text \<open>The work of one round of \<^verbatim>\<open>walk_page_range\<close> on a directory entry.\<close>

definition walk_pgd :: "'s mm_walk \<Rightarrow> 's dir_callback" where
  "walk_pgd walk pgd addr next s =
     (case call_dir (pgd_entry walk) pgd addr next s of
        None \<Rightarrow> None
      | Some (err, s) \<Rightarrow>
          if err = 0 \<and> (pud_entry walk \<noteq> None \<or> pmd_entry walk \<noteq> None \<or> pte_entry walk \<noteq> None)
          then walk_pud_range walk pgd addr next s
          else Some (err, s))"

definition walk_find_vma :: "'s mm_walk \<Rightarrow> ulong \<Rightarrow> 's \<Rightarrow> vma option \<times> 's" where
  "walk_find_vma walk addr s =
     (case w_mm walk s of
        None \<Rightarrow> (None, s)
      | Some mm \<Rightarrow> (let (v, mm) = find_vma addr mm in (v, w_set_mm walk mm s)))"

lemma walk_find_vma_above:
  assumes "walk_find_vma walk addr s = (Some v, s')"
  shows "addr < vm_end v"
proof -
  obtain mm mm' where "find_vma addr mm = (Some v, mm')"
    using assms by (auto simp: walk_find_vma_def split: option.splits prod.splits)
  then show ?thesis using find_vma_above [of addr mm v] by simp
qed

lemma unat_ulong_bound: "unat (a :: ulong) < 2 ^ 32"
  using unsigned_less [of a, where ?'a = nat] by simp

lemma pgd_index_nat: "pgd_index addr = unat addr div 2 ^ 21"
  by (simp only: pgd_index_def unat_drop_bit_eq) (simp only: drop_bit_eq_div)

lemma and_PGDIR_MASK: "unat (a AND PGDIR_MASK) = unat a div 2 ^ 21 * 2 ^ 21"
proof -
  have mask: "PGDIR_MASK = NOT (mask 21)" by (simp add: PGDIR_MASK_def PGDIR_SIZE_def mask_eq_exp_minus_1)
  have "a AND PGDIR_MASK = push_bit 21 (drop_bit 21 a)"
    unfolding mask by (rule bit_word_eqI) (auto simp: bit_simps)
  then have "unat (a AND PGDIR_MASK) = take_bit 32 (unat a div 2 ^ 21 * 2 ^ 21)"
    by (simp only: unsigned_push_bit_eq unat_drop_bit_eq) (simp add: push_bit_eq_mult drop_bit_eq_div)
  moreover have "unat a div 2 ^ 21 * 2 ^ 21 \<le> unat a" by (rule div_times_less_eq_dividend)
  then have "unat a div 2 ^ 21 * 2 ^ 21 < 2 ^ 32" using unat_ulong_bound [of a] by simp
  ultimately show ?thesis by (simp only: take_bit_nat_eq_self)
qed

lemma unat_boundary:
  "unat ((addr + PGDIR_SIZE) AND PGDIR_MASK) = (if pgd_index addr = 2047 then 0 else (pgd_index addr + 1) * 2 ^ 21)"
proof -
  let ?q = "unat addr div 2 ^ 21" and ?r = "unat addr mod 2 ^ 21"
  have a: "unat addr = ?q * 2 ^ 21 + ?r" by simp
  have r: "?r < 2 ^ 21" by simp
  have q: "?q \<le> 2047" using unat_ulong_bound [of addr] by (simp add: less_mult_imp_div_less)
  have u: "unat (addr + PGDIR_SIZE) = ((?q + 1) * 2 ^ 21 + ?r) mod 2 ^ 32"
    using a by (simp add: PGDIR_SIZE_def unat_word_ariths)
  show ?thesis
  proof (cases "?q = 2047")
    case True
    then have "(?q + 1) * 2 ^ 21 = 2 ^ 32" by simp
    then have "((?q + 1) * 2 ^ 21 + ?r) mod 2 ^ 32 = ?r" using r by simp
    then show ?thesis using True r by (simp add: and_PGDIR_MASK pgd_index_nat u)
  next
    case False
    then have "(?q + 1) * 2 ^ 21 + ?r < 2 ^ 32" using q r by simp
    then have "unat (addr + PGDIR_SIZE) div 2 ^ 21 = ?q + 1" using r by (simp add: u)
    then show ?thesis using False by (simp only: and_PGDIR_MASK pgd_index_nat if_False)
  qed
qed

lemma pgd_addr_end_grows:
  assumes "pgd_addr_end addr end \<noteq> end"
  shows "addr < pgd_addr_end addr end"
proof -
  let ?b = "(addr + PGDIR_SIZE) AND PGDIR_MASK"
  have b: "?b - 1 < end - 1" "pgd_addr_end addr end = ?b" using assms by (auto simp: pgd_addr_end_def Let_def split: if_splits)
  have "?b \<noteq> 0"
  proof
    assume "?b = 0"
    then have "- 1 < end - 1" using b(1) by simp
    then show False using word_order.extremum_strict by blast
  qed
  then have "unat ?b \<noteq> 0" by (simp add: unat_eq_0)
  then have "unat ?b = (unat addr div 2 ^ 21 + 1) * 2 ^ 21" by (simp add: unat_boundary pgd_index_nat split: if_splits)
  then have "unat addr < unat ?b" by simp
  then show ?thesis using b(2) by (simp add: word_less_nat_alt)
qed

lemma walk_progress: "(a :: ulong) < b \<Longrightarrow> 2 ^ 32 - unat b < 2 ^ 32 - unat a"
  using unat_ulong_bound [of b] by (simp add: word_less_nat_alt)

function (sequential) walk_pgd_loop :: "'s mm_walk \<Rightarrow> nat \<Rightarrow> ulong \<Rightarrow> ulong \<Rightarrow> 's \<Rightarrow> 's walk_result" where
  "walk_pgd_loop walk pgd addr end s =
     (case walk_find_vma walk addr s of (vma, s) \<Rightarrow>
        if (case vma of None \<Rightarrow> False | Some v \<Rightarrow> vm_start v \<le> addr \<and> vm_pfnmap v)
        then let next = vm_end (the vma)
             in if next = end then Some (0, s) else walk_pgd_loop walk (pgd_index next) next end s
        else let next = pgd_addr_end addr end
             in (case walk_pgd walk pgd addr next s of
                   None \<Rightarrow> None
                 | Some (err, s) \<Rightarrow>
                     if err \<noteq> 0 \<or> next = end then Some (err, s) else walk_pgd_loop walk (pgd + 1) next end s))"
  by pat_completeness auto

termination
proof (relation "measure (\<lambda>(walk, pgd, addr, end, s). 2 ^ 32 - unat addr)", goal_cases)
  case (2 walk pgd addr e s vma s')
  then obtain v where "walk_find_vma walk addr s = (Some v, s')" "vma = Some v" by (cases vma) (auto dest: sym)
  then show ?case using walk_progress [OF walk_find_vma_above] 2 by auto
next
  case (3 walk pgd addr e s vma s' n)
  then show ?case using walk_progress [OF pgd_addr_end_grows] by auto
qed simp

declare walk_pgd_loop.simps [simp del]

definition EINVAL :: int where
  "EINVAL = 22"

definition walk_page_range :: "ulong \<Rightarrow> ulong \<Rightarrow> 's mm_walk \<Rightarrow> 's \<Rightarrow> 's walk_result" where
  "walk_page_range addr end walk s =
     (if addr \<ge> end then Some (0, s)
      else if w_mm walk s = None then Some (- EINVAL, s)
      else walk_pgd_loop walk (pgd_index addr) addr end s)"


section \<open>What the walk visits\<close>

lemma unat_minus_1: "(a :: ulong) \<noteq> 0 \<Longrightarrow> unat (a - 1) = unat a - 1"
  using unat_sub [of 1 a] by (simp add: word_le_nat_alt unat_eq_0 Suc_le_eq unat_gt_0)

lemma pgd_index_before: "i < pgd_index (end - 1) \<longleftrightarrow> (i + 1) * 2 ^ 21 < unat end" if "end \<noteq> 0"
proof -
  have "i < (unat end - 1) div 2 ^ 21 \<longleftrightarrow> (i + 1) * 2 ^ 21 \<le> unat end - 1"
    using less_eq_div_iff_mult_less_eq [of "2 ^ 21" "i + 1" "unat end - 1"] by (simp add: Suc_le_eq)
  also have "\<dots> \<longleftrightarrow> (i + 1) * 2 ^ 21 < unat end" using that by (auto simp: unat_eq_0)
  finally show ?thesis by (simp only: pgd_index_nat unat_minus_1 [OF that])
qed

lemma pgd_index_le: "pgd_index a \<le> 2047"
  using unat_ulong_bound [of a] less_mult_imp_div_less [of "unat a" 2048 "2 ^ 21"] by (simp add: pgd_index_nat)

lemma pgd_addr_end_next:
  assumes "addr < end"
  shows "pgd_addr_end addr end =
      (if pgd_index addr < pgd_index (end - 1) then of_nat ((pgd_index addr + 1) * 2 ^ 21) else end)"
    and "pgd_index addr < pgd_index (end - 1) \<Longrightarrow>
      pgd_index (pgd_addr_end addr end) = pgd_index addr + 1 \<and> pgd_addr_end addr end < end"
proof -
  let ?b = "(addr + PGDIR_SIZE) AND PGDIR_MASK" and ?q = "pgd_index addr"
  have e: "end \<noteq> 0" using assms by (auto simp: word_less_nat_alt)
  have bnat: "unat ?b = (?q + 1) * 2 ^ 21" if "?q < pgd_index (end - 1)"
    using that pgd_index_le [of "end - 1"] by (simp add: unat_boundary)
  have "?b - 1 < end - 1 \<longleftrightarrow> ?q < pgd_index (end - 1)"
  proof (cases "?b = 0")
    case True
    then have "\<not> ?q < pgd_index (end - 1)" using bnat by (auto simp: unat_eq_0)
    moreover have "\<not> - 1 < end - 1" using word_order.extremum_strict by blast
    ultimately show ?thesis using True by simp
  next
    case False
    then have "unat ?b \<noteq> 0" by (simp add: unat_eq_0)
    then have "unat ?b = (?q + 1) * 2 ^ 21" unfolding unat_boundary by (auto split: if_splits)
    moreover have "?b - 1 < end - 1 \<longleftrightarrow> unat ?b < unat end"
      using False e by (simp add: word_less_nat_alt unat_minus_1 unat_gt_0) (metis Suc_pred unat_gt_0 not_less_eq)
    ultimately show ?thesis using pgd_index_before [OF e] by simp
  qed
  then have b: "pgd_addr_end addr end = (if ?q < pgd_index (end - 1) then ?b else end)"
    by (simp add: pgd_addr_end_def)
  show "pgd_addr_end addr end = (if ?q < pgd_index (end - 1) then of_nat ((?q + 1) * 2 ^ 21) else end)"
  proof (cases "?q < pgd_index (end - 1)")
    case True
    have "of_nat (unat ?b) = ?b" by simp
    then show ?thesis using b True unfolding bnat [OF True] by simp
  qed (use b in simp)
  show "pgd_index (pgd_addr_end addr end) = ?q + 1 \<and> pgd_addr_end addr end < end" if "?q < pgd_index (end - 1)"
    using b bnat [OF that] that pgd_index_before [OF e, of ?q] by (simp add: pgd_index_nat word_less_nat_alt)
qed

lemma pgd_index_last:
  assumes "addr < end"
  shows "pgd_index addr \<le> pgd_index (end - 1)"
proof -
  have "end \<noteq> 0" "unat addr < unat end" using assms by (auto simp: word_less_nat_alt)
  then have "unat addr \<le> unat (end - 1)" by (simp add: unat_minus_1)
  then show ?thesis by (simp add: pgd_index_nat div_le_mono)
qed

text \<open>
  The walk with only a callback for directory entries, on address spaces without raw mappings: the
  reference visits the entries with the given indices in turn, skips the empty ones, and passes the
  part of the range that the entry covers.
\<close>

fun walk_dirs :: "'s mm_walk \<Rightarrow> 's dir_callback \<Rightarrow> ulong \<Rightarrow> ulong \<Rightarrow> nat list \<Rightarrow> 's \<Rightarrow> 's walk_result" where
  "walk_dirs walk f end addr [] s = Some (0, s)"
| "walk_dirs walk f end addr (i # is) s =
     (let next = (if is = [] then end else of_nat ((i + 1) * 2 ^ 21)); s = snd (walk_find_vma walk addr s)
      in if pmd_none (pmd_val walk s i) then walk_dirs walk f end next is s
         else (case f i addr next s of
                 None \<Rightarrow> None
               | Some (err, s) \<Rightarrow> if err \<noteq> 0 then Some (err, s) else walk_dirs walk f end next is s))"

locale directory_walk =
  fixes walk :: "'s mm_walk" and f :: "'s dir_callback" and inv :: "'s \<Rightarrow> bool"
  assumes callbacks: "pgd_entry walk = None" "pud_entry walk = None" "pmd_entry walk = Some f"
      "pte_entry walk = None" "pte_hole walk = None"
    and find_inv: "inv s \<Longrightarrow> inv (snd (walk_find_vma walk addr s))"
    and find_plain: "inv s \<Longrightarrow> fst (walk_find_vma walk addr s) = Some v \<Longrightarrow> vm_start v \<le> addr \<Longrightarrow> \<not> vm_pfnmap v"
    and f_inv: "inv s \<Longrightarrow> f i addr next s = Some (err, s') \<Longrightarrow> inv s'"
begin

lemma walk_pgd_eq:
  "walk_pgd walk i addr next s = (if pmd_none (pmd_val walk s i) then Some (0, s) else f i addr next s)"
  by (auto simp: walk_pgd_def walk_pud_range_def walk_pmd_range_def walk_pmd_body_def call_dir_def call_hole_def
      callbacks split: option.split)

lemma loop_step:
  assumes "inv s"
  shows "walk_pgd_loop walk i addr end s =
    (let next = pgd_addr_end addr end; s = snd (walk_find_vma walk addr s)
     in case walk_pgd walk i addr next s of
          None \<Rightarrow> None
        | Some (err, s) \<Rightarrow> if err \<noteq> 0 \<or> next = end then Some (err, s) else walk_pgd_loop walk (i + 1) next end s)"
proof -
  obtain v s' where v: "walk_find_vma walk addr s = (v, s')" by fastforce
  have "\<not> (case v of None \<Rightarrow> False | Some v \<Rightarrow> vm_start v \<le> addr \<and> vm_pfnmap v)"
    using find_plain [OF assms, of addr] v by (auto split: option.split)
  then show ?thesis by (subst walk_pgd_loop.simps) (simp add: v Let_def)
qed

lemma loop_dirs:
  assumes "inv s" "addr < end"
  shows "walk_pgd_loop walk (pgd_index addr) addr end s =
    walk_dirs walk f end addr [pgd_index addr..<pgd_index (end - 1) + 1] s"
  using assms
proof (induction "pgd_index (end - 1) - pgd_index addr" arbitrary: addr s)
  case 0
  let ?s = "snd (walk_find_vma walk addr s)"
  have "pgd_index addr \<le> pgd_index (end - 1)" by (rule pgd_index_last [OF 0(3)])
  then have "[pgd_index addr..<pgd_index (end - 1) + 1] = [pgd_index addr]" "pgd_addr_end addr end = end"
    using 0 pgd_addr_end_next(1) [OF 0(3)] by simp_all
  then show ?case
    by (simp add: loop_step [OF 0(2)] walk_pgd_eq Let_def split: option.split)
next
  case (Suc n)
  let ?s = "snd (walk_find_vma walk addr s)" and ?n = "pgd_addr_end addr end"
  have lt: "pgd_index addr < pgd_index (end - 1)" using Suc(2) by simp
  note nx = pgd_addr_end_next [OF Suc.prems(2)]
  have idx: "pgd_index ?n = pgd_index addr + 1" "?n < end" "?n = of_nat ((pgd_index addr + 1) * 2 ^ 21)"
    using nx lt by auto
  obtain L where L: "L = [pgd_index ?n..<pgd_index (end - 1) + 1]" by blast
  have us: "[pgd_index addr..<pgd_index (end - 1) + 1] = pgd_index addr # L" "L \<noteq> []"
    using lt idx(1) by (simp_all add: L upt_conv_Cons)
  have IH: "walk_pgd_loop walk (pgd_index addr + 1) ?n end s' = walk_dirs walk f end ?n L s'" if "inv s'" for s'
    using Suc(1) [of ?n s'] Suc(2) that idx(1,2) by (simp add: L)
  have ref: "walk_dirs walk f end addr (pgd_index addr # L) s =
      (if pmd_none (pmd_val walk ?s (pgd_index addr)) then walk_dirs walk f end ?n L ?s
       else case f (pgd_index addr) addr ?n ?s of None \<Rightarrow> None
         | Some (err, s) \<Rightarrow> if err \<noteq> 0 then Some (err, s) else walk_dirs walk f end ?n L s)"
    unfolding idx(3) by (simp only: walk_dirs.simps Let_def us(2) if_False)
  have inv: "inv ?s" by (rule find_inv [OF Suc.prems(1)])
  show ?case
  proof (cases "f (pgd_index addr) addr ?n ?s")
    case None
    then show ?thesis
      unfolding us(1) ref loop_step [OF Suc.prems(1)] walk_pgd_eq Let_def using IH [OF inv] less_imp_neq [OF idx(2)] by simp
  next
    case (Some r)
    obtain err s' where r: "r = (err, s')" by fastforce
    have "inv s'" using f_inv [OF inv] Some r by blast
    then show ?thesis
      unfolding us(1) ref loop_step [OF Suc.prems(1)] walk_pgd_eq Let_def using IH inv Some r less_imp_neq [OF idx(2)] by simp
  qed
qed

end


section \<open>Termination, and where the walk leaves its range\<close>

lemma walk_pgd_total:
  assumes "pte_entry walk = None" "\<And>a n s. call_hole walk a n s \<noteq> None"
    and "\<And>g i a n s. g \<in> {pgd_entry walk, pud_entry walk, pmd_entry walk} \<Longrightarrow> call_dir g i a n s \<noteq> None"
  shows "walk_pgd walk i addr next s \<noteq> None"
proof -
  have pmd: "walk_pmd_range walk i addr next s \<noteq> None" for s
    using assms(1) assms(2) [of addr "next" s] assms(3) [of "pmd_entry walk" i addr "next" s]
    by (auto simp: walk_pmd_range_def walk_pmd_body_def split: option.splits)
  have "walk_pud_range walk i addr next s \<noteq> None" for s
    using assms(3) [of "pud_entry walk" i addr "next" s] pmd by (auto simp: walk_pud_range_def split: option.splits)
  then show ?thesis using assms(3) [of "pgd_entry walk" i addr "next" s] by (auto simp: walk_pgd_def split: option.splits)
qed

text \<open>
  C29. \<^verbatim>\<open>walk_page_range\<close> returns for every range, for any areas and page tables, also when the callbacks
  change them, provided that the callbacks return and none is given for single page table entries: the
  address strictly grows until the end is reached.
\<close>

theorem walk_page_range_terminates:
  assumes "pte_entry walk = None" "\<And>a n s. call_hole walk a n s \<noteq> None"
    and "\<And>g i a n s. g \<in> {pgd_entry walk, pud_entry walk, pmd_entry walk} \<Longrightarrow> call_dir g i a n s \<noteq> None"
  shows "\<exists>r. walk_page_range addr end walk s = Some r"
proof -
  have "walk_pgd_loop walk i addr end s \<noteq> None" for i
    using assms
  proof (induction walk i addr "end" s rule: walk_pgd_loop.induct)
    case (1 walk pgd addr "end" s)
    obtain v s' where v: "walk_find_vma walk addr s = (v, s')" by fastforce
    obtain err s'' where r: "walk_pgd walk pgd addr (pgd_addr_end addr end) s' = Some (err, s'')"
      using walk_pgd_total [OF 1(3-5), where s = s'] by fastforce
    show ?case
    proof (cases "case v of None \<Rightarrow> False | Some v \<Rightarrow> vm_start v \<le> addr \<and> vm_pfnmap v")
      case True
      then show ?thesis
        using 1(1) [OF v [symmetric] True refl _ 1(3-5)] by (subst walk_pgd_loop.simps) (simp add: v Let_def)
    next
      case False
      then show ?thesis
        using 1(2) [OF v [symmetric] False refl r refl _ 1(3-5)] by (subst walk_pgd_loop.simps) (simp add: v r Let_def)
    qed
  qed
  then show ?thesis by (auto simp: walk_page_range_def)
qed



section \<open>A small address space\<close>

text \<open>A raw mapping at 4 MB, an ordinary one behind it, and a walk that records its callbacks.\<close>

definition raw_area :: vma where
  "raw_area = \<lparr>vm_start = 0x400000, vm_end = 0x700000, vm_page_prot = 0x103, vm_pfnmap = True, vm_cow = False\<rparr>"

definition plain_area :: vma where
  "plain_area = \<lparr>vm_start = 0x800000, vm_end = 0x900000, vm_page_prot = 0x103, vm_pfnmap = False, vm_cow = False\<rparr>"

definition small_mm :: mm_struct where
  "small_mm =
     \<lparr>mm_rb = Node (Node Leaf raw_area Leaf) plain_area Leaf, mmap_cache = Some raw_area, mm_pgd = (\<lambda>i. 0x1001)\<rparr>"

definition trace_walk :: "(mm_struct \<times> (nat \<times> ulong \<times> ulong) list) mm_walk" where
  "trace_walk =
     \<lparr>w_mm = (\<lambda>s. Some (fst s)), w_set_mm = (\<lambda>mm s. (mm, snd s)), pgd_entry = None, pud_entry = None,
      pmd_entry = Some (\<lambda>i addr next s. Some (0, (fst s, snd s @ [(i, addr, next)]))),
      pte_entry = None, pte_hole = None\<rparr>"

theorem find_vma_first_witness:
  "fst (find_vma 0x750000 small_mm) = Some plain_area \<and> mm_ok (snd (find_vma 0x750000 small_mm))"
proof -
  have "mm_ok small_mm" by (simp add: mm_ok_def small_mm_def areas_ok_def raw_area_def plain_area_def)
  from find_vma_first [where addr = "0x750000", OF this] show ?thesis
    by (simp add: small_mm_def raw_area_def plain_area_def)
qed

theorem walk_page_range_terminates_witness:
  "\<exists>r. walk_page_range 0x400000 0x500000 trace_walk (small_mm, []) = Some r"
  by (rule walk_page_range_terminates) (auto simp: trace_walk_def call_hole_def call_dir_def)


end
