(* ===== verification/Page_Remap.thy ===== *)
theory Page_Remap
  imports Page_Walk
begin

text \<open>
  Mapping physical pages into an address space: \<^verbatim>\<open>remap_pfn_range\<close> of \<^verbatim>\<open>mm/memory.c\<close> for two-level ARM page
  tables. A page table fills one frame: 512 Linux entries, followed by the 512 entries that the
  hardware reads. \<open>None\<close> stands for a \<^verbatim>\<open>BUG\<close> and for a pointer that has left its page table.
\<close>

section \<open>State\<close>

text \<open>Physical memory by frame and word, and the address spaces by number.\<close>

record pt_state =
  phys :: "nat \<Rightarrow> nat \<Rightarrow> ulong"
  mms :: "nat \<Rightarrow> mm_struct option"

text \<open>
  \<open>pte_alloc\<close> is the allocation of a frame for a page table, \<open>hw_pte\<close> the translation of a Linux entry
  into the format of the hardware for an address in user space, \<open>pfn_valid\<close> the test for existing memory.
\<close>

record pt_env =
  pte_alloc :: "(nat \<Rightarrow> nat \<Rightarrow> ulong) \<Rightarrow> nat option"
  hw_pte :: "ulong \<Rightarrow> ulong"
  pfn_valid :: "nat \<Rightarrow> bool"

definition ENOMEM :: int where
  "ENOMEM = 12"

definition EFAULT :: int where
  "EFAULT = 14"

definition frame_of :: "ulong \<Rightarrow> nat" where
  "frame_of v = unat (drop_bit 12 v)"

definition pfn_pte :: "ulong \<Rightarrow> ulong \<Rightarrow> ulong" where
  "pfn_pte pfn prot = push_bit 12 pfn OR prot"

definition pmd_populate :: "nat \<Rightarrow> ulong" where
  "pmd_populate frame = push_bit 12 (of_nat frame) OR 0x800 OR 0x31"

abbreviation set_mm :: "nat \<Rightarrow> mm_struct \<Rightarrow> ('a pt_state_scheme \<Rightarrow> 'a pt_state_scheme)" where
  "set_mm m mm s \<equiv> s\<lparr>mms := (mms s)(m := Some mm)\<rparr>"

definition set_pte :: "pt_env \<Rightarrow> nat \<Rightarrow> nat \<Rightarrow> ulong \<Rightarrow> 'a pt_state_scheme \<Rightarrow> 'a pt_state_scheme" where
  "set_pte env frame i v s = s\<lparr>phys := (phys s)(frame := (phys s frame)(i := v, i + 512 := hw_pte env v))\<rparr>"


section \<open>The operations\<close>

definition pte_alloc_map ::
  "pt_env \<Rightarrow> nat \<Rightarrow> mm_struct \<Rightarrow> nat \<Rightarrow> 'a pt_state_scheme \<Rightarrow> (nat \<times> 'a pt_state_scheme) option" where
  "pte_alloc_map env m mm pmd s =
     (if pmd_none (mm_pgd mm pmd)
      then case pte_alloc env (phys s) of
             None \<Rightarrow> None
           | Some frame \<Rightarrow>
               Some (frame, set_mm m (mm\<lparr>mm_pgd := (mm_pgd mm)(pmd := pmd_populate frame)\<rparr>)
                 (s\<lparr>phys := (phys s)(frame := (\<lambda>_. 0))\<rparr>))
      else Some (frame_of (mm_pgd mm pmd), s))"

function (sequential) remap_pte_loop ::
  "pt_env \<Rightarrow> nat \<Rightarrow> nat \<Rightarrow> ulong \<Rightarrow> ulong \<Rightarrow> ulong \<Rightarrow> ulong \<Rightarrow> 'a pt_state_scheme \<Rightarrow> (int \<times> 'a pt_state_scheme) option" where
  "remap_pte_loop env frame i addr end pfn prot s =
     (if i \<ge> 512 \<or> phys s frame i \<noteq> 0 then None
      else let s = set_pte env frame i (pfn_pte pfn prot) s
           in if addr + PAGE_SIZE = end then Some (0, s)
              else remap_pte_loop env frame (i + 1) (addr + PAGE_SIZE) end (pfn + 1) prot s)"
  by pat_completeness auto
termination
  by (relation "measure (\<lambda>(env, frame, i, addr, end, pfn, prot, s). 512 - i)") auto

declare remap_pte_loop.simps [simp del]

definition remap_pte_range ::
  "pt_env \<Rightarrow> nat \<Rightarrow> nat \<Rightarrow> ulong \<Rightarrow> ulong \<Rightarrow> ulong \<Rightarrow> ulong \<Rightarrow> 'a pt_state_scheme \<Rightarrow> (int \<times> 'a pt_state_scheme) option" where
  "remap_pte_range env m pmd addr end pfn prot s =
     (case mms s m of
        None \<Rightarrow> None
      | Some mm \<Rightarrow>
          (case pte_alloc_map env m mm pmd s of
             None \<Rightarrow> Some (- ENOMEM, s)
           | Some (frame, s) \<Rightarrow> remap_pte_loop env frame (pte_index addr) addr end pfn prot s))"

definition remap_pmd_range ::
  "pt_env \<Rightarrow> nat \<Rightarrow> nat \<Rightarrow> ulong \<Rightarrow> ulong \<Rightarrow> ulong \<Rightarrow> ulong \<Rightarrow> 'a pt_state_scheme \<Rightarrow> (int \<times> 'a pt_state_scheme) option" where
  "remap_pmd_range env m pud addr end pfn prot s =
     (let pfn = pfn - drop_bit 12 addr in
      case remap_pte_range env m pud addr end (pfn + drop_bit 12 addr) prot s of
        None \<Rightarrow> None
      | Some (err, s) \<Rightarrow> Some (if err \<noteq> 0 then - ENOMEM else 0, s))"

definition remap_pud_range ::
  "pt_env \<Rightarrow> nat \<Rightarrow> nat \<Rightarrow> ulong \<Rightarrow> ulong \<Rightarrow> ulong \<Rightarrow> ulong \<Rightarrow> 'a pt_state_scheme \<Rightarrow> (int \<times> 'a pt_state_scheme) option" where
  "remap_pud_range env m pgd addr end pfn prot s =
     (let pfn = pfn - drop_bit 12 addr in
      case remap_pmd_range env m pgd addr end (pfn + drop_bit 12 addr) prot s of
        None \<Rightarrow> None
      | Some (err, s) \<Rightarrow> Some (if err \<noteq> 0 then - ENOMEM else 0, s))"

function (sequential) remap_pgd_loop ::
  "pt_env \<Rightarrow> nat \<Rightarrow> nat \<Rightarrow> ulong \<Rightarrow> ulong \<Rightarrow> ulong \<Rightarrow> ulong \<Rightarrow> 'a pt_state_scheme \<Rightarrow> (int \<times> 'a pt_state_scheme) option" where
  "remap_pgd_loop env m pgd addr end pfn prot s =
     (let next = pgd_addr_end addr end in
      (case remap_pud_range env m pgd addr next (pfn + drop_bit 12 addr) prot s of
         None \<Rightarrow> None
       | Some (err, s) \<Rightarrow>
           if err \<noteq> 0 \<or> next = end then Some (err, s) else remap_pgd_loop env m (pgd + 1) next end pfn prot s))"
  by pat_completeness auto
termination
  using walk_progress [OF pgd_addr_end_grows]
  by (relation "measure (\<lambda>(env, m, pgd, addr, end, pfn, prot, s). 2 ^ 32 - unat addr)") auto

declare remap_pgd_loop.simps [simp del]

text \<open>An area changes in the tree and in the cache.\<close>

definition upd_vma :: "vma \<Rightarrow> vma \<Rightarrow> mm_struct \<Rightarrow> mm_struct" where
  "upd_vma v v' mm =
     mm\<lparr>mm_rb := map_tree (\<lambda>u. if u = v then v' else u) (mm_rb mm),
        mmap_cache := map_option (\<lambda>u. if u = v then v' else u) (mmap_cache mm)\<rparr>"

definition remap_pfn_range ::
  "pt_env \<Rightarrow> nat \<Rightarrow> vma \<Rightarrow> ulong \<Rightarrow> ulong \<Rightarrow> ulong \<Rightarrow> ulong \<Rightarrow> 'a pt_state_scheme \<Rightarrow> (int \<times> 'a pt_state_scheme) option" where
  "remap_pfn_range env m v addr pfn len prot s =
     (let end = addr + ((len + PAGE_SIZE - 1) AND NOT (PAGE_SIZE - 1)) in
      if \<not> (addr = vm_start v \<and> end = vm_end v) \<and> vm_cow v then Some (- EINVAL, s)
      else let s = (case mms s m of None \<Rightarrow> s | Some mm \<Rightarrow> set_mm m (upd_vma v (v\<lparr>vm_pfnmap := True\<rparr>) mm) s)
           in if addr \<ge> end then None
              else remap_pgd_loop env m (pgd_index addr) addr end (pfn - drop_bit 12 addr) prot s)"


section \<open>Mapping one page\<close>

definition page_aligned :: "ulong \<Rightarrow> bool" where
  "page_aligned a \<longleftrightarrow> unat a mod 4096 = 0"

lemma page_in_section:
  assumes "page_aligned a" "unat a + 4096 < 2 ^ 32"
  shows "a < a + PAGE_SIZE" "pgd_addr_end a (a + PAGE_SIZE) = a + PAGE_SIZE"
proof -
  have e: "unat (a + PAGE_SIZE) = unat a + 4096" using assms(2) by (simp add: PAGE_SIZE_def unat_word_ariths)
  then show lt: "a < a + PAGE_SIZE" by (simp add: word_less_nat_alt)
  have "a + PAGE_SIZE \<noteq> 0" using lt by auto
  then have "unat (a + PAGE_SIZE - 1) = unat a + 4095" using unat_minus_1 [of "a + PAGE_SIZE"] e by simp
  then have "pgd_index (a + PAGE_SIZE - 1) = (unat a + 4095) div 2 ^ 21" by (simp only: pgd_index_nat)
  also have "\<dots> = unat a div 2 ^ 21"
  proof -
    obtain k where k: "unat a = 4096 * k" using assms(1) by (auto simp: page_aligned_def)
    have "(4096 * k + 4095) div 4096 div 512 = k div 512" by simp
    then show ?thesis using k by (simp add: div_mult2_eq [symmetric])
  qed
  finally show "pgd_addr_end a (a + PAGE_SIZE) = a + PAGE_SIZE"
    using pgd_addr_end_next(1) [OF lt] by (simp add: pgd_index_nat)
qed

lemma one_page_len: "(2 * PAGE_SIZE - 1) AND NOT (PAGE_SIZE - 1) = PAGE_SIZE"
  by (simp add: PAGE_SIZE_def)

text \<open>The table entry for an address, after the frame of the page table has been found or allocated.\<close>

lemma remap_one_page:
  assumes "mms s m = Some mm" "\<not> vm_cow v" "a < a + PAGE_SIZE" "pgd_addr_end a (a + PAGE_SIZE) = a + PAGE_SIZE"
    and "pte_alloc_map env m mm' (pgd_index a) s' = Some (frame, s1)"
    and "mm' = upd_vma v (v\<lparr>vm_pfnmap := True\<rparr>) mm" "s' = set_mm m mm' s"
    and "phys s1 frame (pte_index a) = 0"
  shows "remap_pfn_range env m v a pfn PAGE_SIZE prot s = Some (0, set_pte env frame (pte_index a) (pfn_pte pfn prot) s1)"
proof -
  have "pte_index a < 512"
    unfolding pte_index_def using word_and_le1 [of "drop_bit 12 a" "0x1FF"] by (simp add: word_le_nat_alt)
  then have "remap_pte_loop env frame (pte_index a) a (a + PAGE_SIZE) pfn prot s1 =
      Some (0, set_pte env frame (pte_index a) (pfn_pte pfn prot) s1)"
    using assms(8) by (subst remap_pte_loop.simps) simp
  then have pte: "remap_pte_range env m (pgd_index a) a (a + PAGE_SIZE) pfn prot s' =
      Some (0, set_pte env frame (pte_index a) (pfn_pte pfn prot) s1)"
    using assms(5,7) by (simp add: remap_pte_range_def)
  show ?thesis
    using assms(1-4,6,7) pte
    by (simp add: remap_pfn_range_def one_page_len remap_pgd_loop.simps [of _ _ _ a] remap_pud_range_def remap_pmd_range_def Let_def not_le)
qed

lemma remap_mapped_page:
  assumes "mms s m = Some mm" "\<not> vm_cow v" "a < a + PAGE_SIZE" "\<not> pmd_none (mm_pgd mm (pgd_index a))"
    and "phys s (frame_of (mm_pgd mm (pgd_index a))) (pte_index a) \<noteq> 0"
  shows "remap_pfn_range env m v a pfn PAGE_SIZE prot s = None"
proof -
  let ?mm = "upd_vma v (v\<lparr>vm_pfnmap := True\<rparr>) mm"
  have pgd: "mm_pgd ?mm = mm_pgd mm" by (simp add: upd_vma_def)
  have "remap_pte_range env m (pgd_index a) a next pfn' prot (set_mm m ?mm s) = None" for "next" pfn'
    using assms(4,5) by (simp add: remap_pte_range_def pte_alloc_map_def pgd remap_pte_loop.simps [of _ _ "pte_index a"])
  then show ?thesis
    using assms(1-3)
    by (simp add: remap_pfn_range_def one_page_len remap_pgd_loop.simps [of _ _ _ a] remap_pud_range_def remap_pmd_range_def Let_def not_le)
qed


section \<open>Other address spaces\<close>

lemma remap_pte_loop_mms: "remap_pte_loop env frame i addr end pfn prot s = Some (err, s') \<Longrightarrow> mms s' = mms s"
proof (induction env frame i addr "end" pfn prot s rule: remap_pte_loop.induct)
  case (1 env frame i addr "end" pfn prot s)
  then show ?case
    by (subst (asm) remap_pte_loop.simps [of env frame i]) (auto simp: Let_def set_pte_def split: if_splits)
qed

lemma remap_pte_range_mms: "remap_pte_range env m pmd addr end pfn prot s = Some (err, s') \<Longrightarrow> t \<noteq> m \<Longrightarrow> mms s' t = mms s t"
  by (auto simp: remap_pte_range_def pte_alloc_map_def dest!: remap_pte_loop_mms split: option.splits if_splits)

lemma remap_pud_range_mms: "remap_pud_range env m pud addr end pfn prot s = Some (err, s') \<Longrightarrow> t \<noteq> m \<Longrightarrow> mms s' t = mms s t"
  by (auto simp: remap_pud_range_def remap_pmd_range_def Let_def dest: remap_pte_range_mms split: option.splits)

lemma remap_pgd_loop_mms:
  "remap_pgd_loop env m pgd addr end pfn prot s = Some (err, s') \<Longrightarrow> t \<noteq> m \<Longrightarrow> mms s' t = mms s t"
proof (induction env m pgd addr "end" pfn prot s rule: remap_pgd_loop.induct)
  case (1 env m pgd addr "end" pfn prot s)
  obtain err1 s1 where r: "remap_pud_range env m pgd addr (pgd_addr_end addr end) (pfn + drop_bit 12 addr) prot s = Some (err1, s1)"
    using 1(2) by (subst (asm) remap_pgd_loop.simps) (auto simp: Let_def split: option.splits)
  have "mms s1 t = mms s t" by (rule remap_pud_range_mms [OF r 1(3)])
  moreover have "(if err1 \<noteq> 0 \<or> pgd_addr_end addr end = end then Some (err1, s1)
      else remap_pgd_loop env m (pgd + 1) (pgd_addr_end addr end) end pfn prot s1) = Some (err, s')"
    using 1(2) by (subst (asm) remap_pgd_loop.simps) (simp add: Let_def r)
  then have "mms s' t = mms s1 t" using 1(1) [OF refl r refl] 1(3) by (auto split: if_splits)
  ultimately show ?case by simp
qed

lemma remap_pfn_range_mms:
  "remap_pfn_range env m v addr pfn len prot s = Some (err, s') \<Longrightarrow> t \<noteq> m \<Longrightarrow> mms s' t = mms s t"
  by (auto simp: remap_pfn_range_def Let_def dest: remap_pgd_loop_mms split: if_splits option.splits)

end
