(* ===== verification/Pagetable_Module.thy ===== *)
theory Pagetable_Module
  imports Page_Remap
begin

text \<open>
  The page table module, \<^verbatim>\<open>pagetable.c\<close>: a system call that reports the layout of the page tables, and
  one that walks the page directory of a process, maps each of its page tables into the caller's
  address space and builds a directory of their addresses for the caller.
\<close>

section \<open>The callback\<close>

text \<open>The state of the walk: memory and address spaces, and the \<^verbatim>\<open>walk_record\<close>.\<close>

record expose_state = pt_state +
  pgd_base :: "ulong list"
  pte_base :: ulong

definition EACH_PTE_SIZE :: ulong where
  "EACH_PTE_SIZE = 2048"

definition for_pmd_entry :: "pt_env \<Rightarrow> nat \<Rightarrow> nat \<Rightarrow> expose_state dir_callback" where
  "for_pmd_entry env cur tgt pmd addr next s =
     (let pmdIndex = unat (drop_bit 21 addr AND 0x7FF);
          val = (case mms s tgt of None \<Rightarrow> 0 | Some mm \<Rightarrow> mm_pgd mm pmd) in
      case mms s cur of
        None \<Rightarrow> Some (- EFAULT, s)
      | Some mm \<Rightarrow>
          (case find_vma (pte_base s) mm of
             (None, mm) \<Rightarrow> Some (- EFAULT, set_mm cur mm s)
           | (Some v, mm) \<Rightarrow>
               (let s = set_mm cur mm s; pfn = drop_bit 12 val in
                if pmd_bad val then Some (- EINVAL, s)
                else if \<not> pfn_valid env (unat pfn) then Some (- EFAULT, s)
                else case remap_pfn_range env cur v (pte_base s) pfn PAGE_SIZE (vm_page_prot v) s of
                       None \<Rightarrow> None
                     | Some (err, s) \<Rightarrow>
                         if err \<noteq> 0 then Some (err, s)
                         else Some (0, s\<lparr>pgd_base := (pgd_base s)[pmdIndex := pte_base s],
                                         pte_base := pte_base s + EACH_PTE_SIZE\<rparr>))))"


section \<open>The system calls\<close>

record layout_info =
  pgdir_shift :: nat
  page_shift :: nat

text \<open>
  \<^verbatim>\<open>size < sizeof(struct pagetable_layout_info)\<close> compares an \<^verbatim>\<open>int\<close> with an unsigned number of the same width, so
  the \<^verbatim>\<open>int\<close> is converted. \<open>bad_copy\<close> says that \<^verbatim>\<open>copy_to_user\<close> fails.
\<close>

definition get_pagetable_layout :: "32 word \<Rightarrow> bool \<Rightarrow> int \<times> layout_info option" where
  "get_pagetable_layout sz bad_copy =
     (if sz < 8 then (- EINVAL, None)
      else let layout = \<lparr>pgdir_shift = 21, page_shift = 12\<rparr>
           in if bad_copy then (- EFAULT, None) else (0, Some layout))"

text \<open>
  What the process number leads to: nothing, a number without a task, a task without an address space
  (a kernel thread), or an address space. In the second and the third case the code follows \<^verbatim>\<open>NULL\<close>.
\<close>

datatype pid_lookup = No_pid | No_task | No_mm | User_mm nat

definition expose_walk :: "pt_env \<Rightarrow> nat \<Rightarrow> nat \<Rightarrow> expose_state mm_walk" where
  "expose_walk env cur tgt =
     \<lparr>w_mm = (\<lambda>s. mms s tgt), w_set_mm = set_mm tgt, pgd_entry = None, pud_entry = None,
      pmd_entry = Some (for_pmd_entry env cur tgt), pte_entry = None, pte_hole = None\<rparr>"

text \<open>The result: the return value, the directory if it was copied, whether the kernel's copy was freed.\<close>

record expose_result =
  x_ret :: int
  x_state :: pt_state
  x_fake_pgd :: "ulong list option"
  x_freed :: bool

definition pgd_zero :: "ulong list" where
  "pgd_zero = replicate 2048 0"

definition expose_page_table ::
  "pt_env \<Rightarrow> (int \<Rightarrow> pid_lookup) \<Rightarrow> bool \<Rightarrow> bool \<Rightarrow> nat \<Rightarrow> int \<Rightarrow> ulong \<Rightarrow> ulong \<Rightarrow> ulong \<Rightarrow> pt_state \<Rightarrow> expose_result option" where
  "expose_page_table env find_pid no_memory bad_copy cur p page_table_addr begin_vaddr end_vaddr s =
     (let fail = (\<lambda>e freed. Some \<lparr>x_ret = - e, x_state = s, x_fake_pgd = None, x_freed = freed\<rparr>) in
      if begin_vaddr \<ge> end_vaddr then fail EINVAL True
      else case find_pid p of
        No_pid \<Rightarrow> fail EINVAL True
      | No_task \<Rightarrow> None
      | No_mm \<Rightarrow> None
      | User_mm tgt \<Rightarrow>
          if no_memory then fail EFAULT True
          else if page_table_addr = 0 then fail EFAULT False
          else case walk_page_range begin_vaddr end_vaddr (expose_walk env cur tgt)
                      (pt_state.extend s \<lparr>pgd_base = pgd_zero, pte_base = page_table_addr\<rparr>) of
                 None \<Rightarrow> None
               | Some (_, x) \<Rightarrow>
                   Some (if bad_copy
                         then \<lparr>x_ret = - EFAULT, x_state = pt_state.truncate x, x_fake_pgd = None, x_freed = False\<rparr>
                         else \<lparr>x_ret = 0, x_state = pt_state.truncate x, x_fake_pgd = Some (pgd_base x), x_freed = True\<rparr>))"


section \<open>The walk of another process\<close>

text \<open>
  The walk that the module starts provides the interface of \<^theory_text>\<open>directory_walk\<close> when the target is another
  process without raw mappings: the callback changes only the caller's address space.
\<close>

definition plain_mm :: "mm_struct \<Rightarrow> bool" where
  "plain_mm mm \<longleftrightarrow> (\<forall>v \<in> set_tree (mm_rb mm) \<union> set_option (mmap_cache mm). \<not> vm_pfnmap v)"

definition plain_target :: "nat \<Rightarrow> nat \<Rightarrow> 'a pt_state_scheme \<Rightarrow> bool" where
  "plain_target cur tgt s \<longleftrightarrow> cur \<noteq> tgt \<and> (\<forall>mm. mms s tgt = Some mm \<longrightarrow> plain_mm mm)"

lemma rb_search_member: "rb_search addr t best = Some v \<Longrightarrow> v \<in> set_tree t \<or> best = Some v"
  by (induction t arbitrary: best) (fastforce split: if_splits)+

lemma find_vma_member:
  assumes "find_vma addr mm = (r, mm')"
  shows "set_option r \<subseteq> set_tree (mm_rb mm) \<union> set_option (mmap_cache mm)"
    "set_tree (mm_rb mm') \<union> set_option (mmap_cache mm') \<subseteq> set_tree (mm_rb mm) \<union> set_option (mmap_cache mm)"
    "mm_rb mm' = mm_rb mm" "mm_pgd mm' = mm_pgd mm"
  using assms rb_search_member [of addr "mm_rb mm" None]
  by (auto simp: find_vma_def split: option.splits if_splits)

lemma for_pmd_entry_mms:
  assumes "for_pmd_entry env cur tgt i addr next s = Some (err, s')" "t \<noteq> cur"
  shows "mms s' t = mms s t"
  using assms
  by (auto simp: for_pmd_entry_def Let_def dest!: remap_pfn_range_mms [where t = t] split: option.splits prod.splits if_splits)

interpretation expose: directory_walk "expose_walk env cur tgt" "for_pmd_entry env cur tgt" "plain_target cur tgt"
  for env cur tgt
proof
  fix s :: expose_state and addr :: ulong
  assume inv: "plain_target cur tgt s"
  have find: "plain_target cur tgt (snd (walk_find_vma (expose_walk env cur tgt) addr s)) \<and>
      (\<forall>v. fst (walk_find_vma (expose_walk env cur tgt) addr s) = Some v \<longrightarrow> \<not> vm_pfnmap v)"
  proof (cases "mms s tgt")
    case None
    then show ?thesis using inv by (simp add: walk_find_vma_def expose_walk_def)
  next
    case (Some mm)
    obtain r mm' where f: "find_vma addr mm = (r, mm')" by fastforce
    have "plain_mm mm" using inv Some by (simp add: plain_target_def)
    then have "plain_mm mm'" "\<forall>v. r = Some v \<longrightarrow> \<not> vm_pfnmap v"
      using find_vma_member(1,2) [OF f] by (auto simp: plain_mm_def)
    then show ?thesis using inv Some f by (simp add: walk_find_vma_def expose_walk_def plain_target_def)
  qed
  then show "plain_target cur tgt (snd (walk_find_vma (expose_walk env cur tgt) addr s))" ..
  show "fst (walk_find_vma (expose_walk env cur tgt) addr s) = Some v \<Longrightarrow> vm_start v \<le> addr \<Longrightarrow> \<not> vm_pfnmap v" for v
    using find by blast
  show "for_pmd_entry env cur tgt i addr next s = Some (err, s') \<Longrightarrow> plain_target cur tgt s'" for i "next" err s'
    using for_pmd_entry_mms [of env cur tgt i addr "next" s err s' tgt] inv by (auto simp: plain_target_def)
qed (simp_all add: expose_walk_def)

lemma expose_dirs:
  assumes "plain_target cur tgt s" "mms s tgt \<noteq> None" "begin_vaddr < end_vaddr"
  shows "walk_page_range begin_vaddr end_vaddr (expose_walk env cur tgt) s =
    walk_dirs (expose_walk env cur tgt) (for_pmd_entry env cur tgt) end_vaddr begin_vaddr
      [pgd_index begin_vaddr..<pgd_index (end_vaddr - 1) + 1] s"
proof -
  have m: "(w_mm (expose_walk env cur tgt) s = None) = False" using assms(2) by (simp add: expose_walk_def)
  have "(end_vaddr \<le> begin_vaddr) = False" using assms(3) by (simp add: not_le)
  then show ?thesis by (simp only: walk_page_range_def m if_False expose.loop_dirs [OF assms(1,3)])
qed


section \<open>Exposing one page table\<close>

text \<open>
  The caller can take a page table at the address \<open>a\<close>: an area of the caller reaches there that is not a
  private mapping, and the page is not mapped yet. \<open>fr\<close> is the frame of the caller's own page table, allocated
  if need be, for that address.
\<close>

definition can_take :: "pt_env \<Rightarrow> nat \<Rightarrow> 'a pt_state_scheme \<Rightarrow> ulong \<Rightarrow> vma \<Rightarrow> nat \<Rightarrow> bool" where
  "can_take env cur s a v fr \<longleftrightarrow>
     page_aligned a \<and> unat a + 4096 < 2 ^ 32 \<and> \<not> vm_cow v \<and> fr < 2 ^ 20 \<and>
     (case mms s cur of
        None \<Rightarrow> False
      | Some mm \<Rightarrow>
          fst (find_vma a mm) = Some v \<and>
          (if pmd_none (mm_pgd mm (pgd_index a)) then pte_alloc env (phys s) = Some fr
           else frame_of (mm_pgd mm (pgd_index a)) = fr \<and> phys s fr (pte_index a) = 0))"

lemma frame_of_or:
  assumes "f < 2 ^ 20" "(low :: ulong) < 4096"
  shows "frame_of (push_bit 12 (of_nat f) OR low) = f"
proof -
  have "drop_bit 12 (push_bit 12 (of_nat f :: ulong)) = of_nat f"
  proof (rule bit_word_eqI)
    fix n
    assume "n < LENGTH(32)"
    have "\<not> bit (of_nat f :: ulong) n" if "20 \<le> n"
    proof -
      have "f < 2 ^ n" using assms(1) that by (meson less_le_trans one_le_numeral power_increasing)
      then show ?thesis by (simp add: bit_simps bit_nat_iff) (simp add: bit_iff_odd)
    qed
    then show "bit (drop_bit 12 (push_bit 12 (of_nat f :: ulong))) n = bit (of_nat f :: ulong) n"
      by (cases "n < 20") (auto simp: bit_simps)
  qed
  moreover have "drop_bit 12 low = 0"
    using assms(2) by (simp add: drop_bit_eq_div div_word_less)
  ultimately have "drop_bit 12 (push_bit 12 (of_nat f) OR low) = (of_nat f :: ulong)" by (simp add: drop_bit_or)
  then show ?thesis using assms(1) by (simp add: frame_of_def unat_of_nat_ulong)
qed

text \<open>Afterwards the page at \<open>a\<close> is mapped by the given entry, and the rest of memory is as before.\<close>

definition mapped_at :: "nat \<Rightarrow> ulong \<Rightarrow> vma \<Rightarrow> nat \<Rightarrow> ulong \<Rightarrow> 'a pt_state_scheme \<Rightarrow> 'b pt_state_scheme \<Rightarrow> bool" where
  "mapped_at cur a v fr pte s s' \<longleftrightarrow>
     (\<exists>mm mm'. mms s cur = Some mm \<and> mms s' cur = Some mm' \<and>
        \<not> pmd_none (mm_pgd mm' (pgd_index a)) \<and> frame_of (mm_pgd mm' (pgd_index a)) = fr \<and>
        (\<forall>j. j \<noteq> pgd_index a \<longrightarrow> mm_pgd mm' j = mm_pgd mm j) \<and>
        mm_rb mm' = map_tree (\<lambda>u. if u = v then v\<lparr>vm_pfnmap := True\<rparr> else u) (mm_rb mm) \<and>
        (mm_ok mm \<longrightarrow> (\<forall>u. mmap_cache mm' = Some u \<longrightarrow> u \<in> set_tree (mm_rb mm')))) \<and>
     phys s' fr (pte_index a) = pte \<and> (\<forall>f. f \<noteq> fr \<longrightarrow> phys s' f = phys s f)"

lemma pmd_populate_facts:
  assumes "f < 2 ^ 20"
  shows "\<not> pmd_none (pmd_populate f)" "frame_of (pmd_populate f) = f"
proof -
  have low: "(0x800 OR 0x31 :: ulong) = 0x831" by simp
  show "frame_of (pmd_populate f) = f"
    unfolding pmd_populate_def low by (rule frame_of_or [OF assms]) simp
  have "bit (pmd_populate f) 0" by (simp add: pmd_populate_def bit_simps)
  then show "\<not> pmd_none (pmd_populate f)" by (auto simp: pmd_none_def)
qed

lemma callback_maps:
  assumes take: "can_take env cur s (pte_base s) v fr" and tgt: "mms s tgt = Some tm" "cur \<noteq> tgt"
    and val: "\<not> pmd_bad (mm_pgd tm i)" "pfn_valid env (frame_of (mm_pgd tm i))"
  shows "\<exists>s'. for_pmd_entry env cur tgt i addr next s = Some (0, s') \<and>
    pgd_base s' = (pgd_base s)[unat (drop_bit 21 addr AND 0x7FF) := pte_base s] \<and>
    pte_base s' = pte_base s + EACH_PTE_SIZE \<and> mms s' tgt = mms s tgt \<and>
    mapped_at cur (pte_base s) v fr (pfn_pte (drop_bit 12 (mm_pgd tm i)) (vm_page_prot v)) s s'"
proof -
  let ?a = "pte_base s" and ?pfn = "drop_bit 12 (mm_pgd tm i)"
  obtain mm where mm: "mms s cur = Some mm" "fst (find_vma ?a mm) = Some v"
    using take by (auto simp: can_take_def split: option.splits)
  obtain mm1 where f: "find_vma ?a mm = (Some v, mm1)" using mm(2) by (cases "find_vma ?a mm") auto
  note t = take [unfolded can_take_def mm(1) option.case]
  let ?mm2 = "upd_vma v (v\<lparr>vm_pfnmap := True\<rparr>) mm1"
  let ?s1 = "set_mm cur mm1 s" and ?s2 = "set_mm cur ?mm2 s"
  have pgd: "mm_pgd ?mm2 = mm_pgd mm" "mm_rb mm1 = mm_rb mm"
    using find_vma_member(3,4) [OF f] by (simp_all add: upd_vma_def)
  define m3 s3 where "m3 = (if pmd_none (mm_pgd mm (pgd_index ?a))
        then ?mm2\<lparr>mm_pgd := (mm_pgd mm)(pgd_index ?a := pmd_populate fr)\<rparr> else ?mm2)"
    and "s3 = (if pmd_none (mm_pgd mm (pgd_index ?a)) then set_mm cur m3 (s\<lparr>phys := (phys s)(fr := (\<lambda>_. 0))\<rparr>) else ?s2)"
  have alloc: "pte_alloc_map env cur ?mm2 (pgd_index ?a) ?s2 = Some (fr, s3)"
    using t by (auto simp: pte_alloc_map_def pgd s3_def m3_def)
  have free: "phys s3 fr (pte_index ?a) = 0" using t by (simp add: s3_def split: if_splits)
  have "remap_pfn_range env cur v ?a ?pfn PAGE_SIZE (vm_page_prot v) ?s1 =
      Some (0, set_pte env fr (pte_index ?a) (pfn_pte ?pfn (vm_page_prot v)) s3)"
    using t alloc free by (intro remap_one_page [where mm = mm1]) (auto intro: page_in_section)
  then have call: "for_pmd_entry env cur tgt i addr next s =
      Some (0, (set_pte env fr (pte_index ?a) (pfn_pte ?pfn (vm_page_prot v)) s3)
        \<lparr>pgd_base := (pgd_base s)[unat (drop_bit 21 addr AND 0x7FF) := ?a], pte_base := ?a + EACH_PTE_SIZE\<rparr>)"
    using tgt mm f val by (simp add: for_pmd_entry_def Let_def frame_of_def set_pte_def s3_def m3_def)
  have pop: "\<not> pmd_none (mm_pgd m3 (pgd_index ?a))" "frame_of (mm_pgd m3 (pgd_index ?a)) = fr"
    using t pgd(1) pmd_populate_facts [of fr] by (simp_all add: m3_def)
  have cache: "mm_ok mm \<Longrightarrow> mmap_cache m3 = Some u \<Longrightarrow> u \<in> set_tree (mm_rb m3)" for u
    using find_vma_ok [of mm ?a] f
    by (auto simp: m3_def upd_vma_def mm_ok_def tree.set_map split: if_splits)
  have "mms s3 cur = Some m3" "mms s3 tgt = mms s tgt" "\<forall>f. f \<noteq> fr \<longrightarrow> phys s3 f = phys s f"
    "\<forall>j. j \<noteq> pgd_index ?a \<longrightarrow> mm_pgd m3 j = mm_pgd mm j"
    "mm_rb m3 = map_tree (\<lambda>u. if u = v then v\<lparr>vm_pfnmap := True\<rparr> else u) (mm_rb mm)"
    using tgt(2) pgd by (auto simp: s3_def m3_def upd_vma_def)
  then show ?thesis
    unfolding call using pop cache mm(1) by (simp add: mapped_at_def set_pte_def)
qed

lemma pmdIndex_eq: "unat (drop_bit 21 addr AND 0x7FF) = pgd_index addr" for addr :: ulong
proof -
  have mask: "(0x7FF :: ulong) = mask 11" by (simp add: mask_eq_exp_minus_1)
  have "drop_bit 21 addr AND 0x7FF = drop_bit 21 addr"
    unfolding mask by (rule bit_word_eqI) (auto simp: bit_simps dest: bit_imp_le_length)
  then show ?thesis by (simp add: pgd_index_def)
qed

lemma extend_fields [simp]:
  "mms (pt_state.extend s x) = mms s" "phys (pt_state.extend s x) = phys s"
  "pgd_base (pt_state.extend s \<lparr>pgd_base = b, pte_base = a\<rparr>) = b"
  "pte_base (pt_state.extend s \<lparr>pgd_base = b, pte_base = a\<rparr>) = a"
  "mms (pt_state.truncate s') = mms s'" "phys (pt_state.truncate s') = phys s'"
  by (simp_all add: pt_state.defs)

lemma can_take_cong: "mms s' cur = mms s cur \<Longrightarrow> phys s' = phys s \<Longrightarrow> can_take env cur s' a v fr = can_take env cur s a v fr"
  by (simp add: can_take_def split: option.split)

lemma mapped_at_cong:
  "mms s1 cur = mms s cur \<Longrightarrow> phys s1 = phys s \<Longrightarrow> mms s2 cur = mms s' cur \<Longrightarrow> phys s2 = phys s' \<Longrightarrow>
     mapped_at cur a v fr pte s1 s2 = mapped_at cur a v fr pte s s'"
  by (simp add: mapped_at_def)

text \<open>The part of a process that the caller wants to see: one present and valid page table.\<close>

definition table_ok :: "pt_env \<Rightarrow> mm_struct \<Rightarrow> nat \<Rightarrow> bool" where
  "table_ok env mm i \<longleftrightarrow>
     \<not> pmd_none (mm_pgd mm i) \<and> \<not> pmd_bad (mm_pgd mm i) \<and> pfn_valid env (frame_of (mm_pgd mm i))"

lemma walk_first_section:
  assumes "cur \<noteq> tgt" "mms s tgt = Some tm" "table_ok env tm i" "can_take env cur s (pte_base s) v fr"
  shows "\<exists>s'. pgd_base s' = (pgd_base s)[pgd_index addr := pte_base s] \<and> pte_base s' = pte_base s + EACH_PTE_SIZE \<and>
    (\<exists>tm'. mms s' tgt = Some tm' \<and> mm_pgd tm' = mm_pgd tm) \<and>
    mapped_at cur (pte_base s) v fr (pfn_pte (drop_bit 12 (mm_pgd tm i)) (vm_page_prot v)) s s' \<and>
    walk_dirs (expose_walk env cur tgt) (for_pmd_entry env cur tgt) end addr (i # is) s =
      walk_dirs (expose_walk env cur tgt) (for_pmd_entry env cur tgt) end (if is = [] then end else of_nat ((i + 1) * 2 ^ 21)) is s'"
proof -
  obtain r tm' where f: "find_vma addr tm = (r, tm')" by fastforce
  let ?s = "set_mm tgt tm' s"
  have pgd: "mm_pgd tm' = mm_pgd tm" by (rule find_vma_member(4) [OF f])
  have find: "snd (walk_find_vma (expose_walk env cur tgt) addr s) = ?s"
    using assms(2) f by (simp add: walk_find_vma_def expose_walk_def)
  have val: "pmd_val (expose_walk env cur tgt) ?s i = mm_pgd tm i" by (simp add: pmd_val_def expose_walk_def pgd)
  have take: "can_take env cur ?s (pte_base ?s) v fr" using assms(1,4) can_take_cong [of ?s cur s] by simp
  let ?n = "if is = [] then end else of_nat ((i + 1) * 2 ^ 21)"
  obtain s' where s': "for_pmd_entry env cur tgt i addr ?n ?s = Some (0, s')"
    "pgd_base s' = (pgd_base s)[pgd_index addr := pte_base s]" "pte_base s' = pte_base s + EACH_PTE_SIZE"
    "mms s' tgt = Some tm'" "mapped_at cur (pte_base s) v fr (pfn_pte (drop_bit 12 (mm_pgd tm i)) (vm_page_prot v)) ?s s'"
    using callback_maps [OF take, of tgt tm' i addr ?n] assms(1,3) pgd by (auto simp: table_ok_def pmdIndex_eq)
  have "mapped_at cur (pte_base s) v fr (pfn_pte (drop_bit 12 (mm_pgd tm i)) (vm_page_prot v)) s s'"
    using s'(5) mapped_at_cong [of s cur ?s s' s'] assms(1) by simp
  then show ?thesis
    using s' find val assms(3) pgd by (intro exI [of _ s']) (simp only: walk_dirs.simps Let_def table_ok_def, simp)
qed

end
