(* ===== verification/Pagetable_Spec.thy ===== *)
theory Pagetable_Spec
  imports Pagetable_Module
begin

text \<open>
  What the page table module does for its caller: within one directory entry the caller gets the
  page table, with a second one the kernel stops.
\<close>



section \<open>One directory entry\<close>

text \<open>The situation of a call: another process, its page tables, a fresh area of the caller.\<close>

definition call_ok :: "pt_env \<Rightarrow> nat \<Rightarrow> nat \<Rightarrow> mm_struct \<Rightarrow> ulong \<Rightarrow> vma \<Rightarrow> nat \<Rightarrow> pt_state \<Rightarrow> bool" where
  "call_ok env cur tgt tm a v fr s \<longleftrightarrow>
     cur \<noteq> tgt \<and> mms s tgt = Some tm \<and> plain_mm tm \<and> a \<noteq> 0 \<and> can_take env cur s a v fr"

definition expose_start :: "ulong \<Rightarrow> pt_state \<Rightarrow> expose_state" where
  "expose_start a s = pt_state.extend s \<lparr>pgd_base = pgd_zero, pte_base = a\<rparr>"

lemma expose_start_fields [simp]:
  "mms (expose_start a s) = mms s" "phys (expose_start a s) = phys s" "pgd_base (expose_start a s) = pgd_zero"
  "pte_base (expose_start a s) = a"
  by (simp_all add: expose_start_def)

lemma expose_walk_dirs:
  assumes "call_ok env cur tgt tm a v fr s" "begin_vaddr < end_vaddr" "find_pid p = User_mm tgt"
  shows "expose_page_table env find_pid False False cur p a begin_vaddr end_vaddr s =
    (case walk_dirs (expose_walk env cur tgt) (for_pmd_entry env cur tgt) end_vaddr begin_vaddr
            [pgd_index begin_vaddr..<pgd_index (end_vaddr - 1) + 1] (expose_start a s) of
       None \<Rightarrow> None
     | Some (_, x) \<Rightarrow>
         Some \<lparr>x_ret = 0, x_state = pt_state.truncate x, x_fake_pgd = Some (pgd_base x), x_freed = True\<rparr>)"
proof -
  have "plain_target cur tgt (expose_start a s)" "mms (expose_start a s) tgt \<noteq> None"
    using assms(1) by (auto simp: call_ok_def plain_target_def)
  note dirs = expose_dirs [OF this assms(2)]
  show ?thesis
    using assms unfolding dirs [symmetric]
    by (simp add: call_ok_def expose_page_table_def expose_start_def not_le Let_def split: option.split)
qed

lemma expose_one:
  assumes "call_ok env cur tgt tm a v fr s" "begin_vaddr < end_vaddr" "find_pid p = User_mm tgt"
    and "pgd_index (end_vaddr - 1) = pgd_index begin_vaddr" "table_ok env tm (pgd_index begin_vaddr)"
  shows "\<exists>s'. expose_page_table env find_pid False False cur p a begin_vaddr end_vaddr s =
      Some \<lparr>x_ret = 0, x_state = s', x_fake_pgd = Some (pgd_zero[pgd_index begin_vaddr := a]), x_freed = True\<rparr> \<and>
    mapped_at cur a v fr (pfn_pte (drop_bit 12 (mm_pgd tm (pgd_index begin_vaddr))) (vm_page_prot v)) s s'"
proof -
  let ?i = "pgd_index begin_vaddr"
  have t: "cur \<noteq> tgt" "mms (expose_start a s) tgt = Some tm" "can_take env cur (expose_start a s) a v fr"
    using assms(1) can_take_cong [of "expose_start a s" cur s] by (simp_all add: call_ok_def)
  obtain x where x: "pgd_base x = pgd_zero[?i := a]"
    "mapped_at cur a v fr (pfn_pte (drop_bit 12 (mm_pgd tm ?i)) (vm_page_prot v)) (expose_start a s) x"
    "walk_dirs (expose_walk env cur tgt) (for_pmd_entry env cur tgt) end_vaddr begin_vaddr [?i] (expose_start a s) = Some (0, x)"
    using walk_first_section [OF t(1,2) assms(5), of v fr begin_vaddr end_vaddr "[]"] t(3) by auto
  have "mapped_at cur a v fr (pfn_pte (drop_bit 12 (mm_pgd tm ?i)) (vm_page_prot v)) s (pt_state.truncate x)"
    using x(2) mapped_at_cong [of "expose_start a s" cur s "pt_state.truncate x" x]
      mapped_at_cong [of "expose_start a s" cur s x x] mapped_at_cong [of s cur s "pt_state.truncate x" x] by simp
  then show ?thesis
    using expose_walk_dirs [of env cur tgt tm a v fr s begin_vaddr end_vaddr find_pid p, OF assms(1-3)] assms(4) x by simp
qed


section \<open>Two directory entries\<close>

lemma pte_index_nat: "pte_index a = unat a div 2 ^ 12 mod 2 ^ 9"
proof -
  have mask: "(0x1FF :: ulong) = mask 9" by (simp add: mask_eq_exp_minus_1)
  have "unat (drop_bit 12 a AND 0x1FF) = take_bit 9 (unat (drop_bit 12 a))"
    unfolding mask by (simp only: take_bit_eq_mask [symmetric] unsigned_take_bit_eq)
  then show ?thesis by (simp only: pte_index_def unat_drop_bit_eq) (simp only: drop_bit_eq_div take_bit_eq_mod)
qed

lemma same_page:
  assumes "page_aligned a" "unat a + 4096 < 2 ^ 32"
  shows "pgd_index (a + EACH_PTE_SIZE) = pgd_index a" "pte_index (a + EACH_PTE_SIZE) = pte_index a"
    "unat (a + EACH_PTE_SIZE) = unat a + 2048" "a + EACH_PTE_SIZE < a + EACH_PTE_SIZE + PAGE_SIZE"
proof -
  obtain k where k: "unat a = 4096 * k" using assms(1) by (auto simp: page_aligned_def)
  show u: "unat (a + EACH_PTE_SIZE) = unat a + 2048" using assms(2) by (simp add: EACH_PTE_SIZE_def unat_word_ariths)
  have d: "(4096 * k + 2048) div 4096 = k" by simp
  have "(4096 * k + 2048) div 4096 div 512 = k div 512" by simp
  then have "(4096 * k + 2048) div 2 ^ 21 = 4096 * k div 2 ^ 21" by (simp add: div_mult2_eq [symmetric])
  then show "pgd_index (a + EACH_PTE_SIZE) = pgd_index a" by (simp only: pgd_index_nat u k)
  show "pte_index (a + EACH_PTE_SIZE) = pte_index a" using d by (simp add: pte_index_nat u k)
  have "unat (a + EACH_PTE_SIZE + PAGE_SIZE) = unat a + 6144"
    using u assms(2) k by (simp add: PAGE_SIZE_def unat_word_ariths)
  then show "a + EACH_PTE_SIZE < a + EACH_PTE_SIZE + PAGE_SIZE" using u by (simp add: word_less_nat_alt)
qed

lemma callback_bug:
  assumes "mms s cur = Some mm" "fst (find_vma (pte_base s) mm) = Some v" "\<not> vm_cow v"
    and "pte_base s < pte_base s + PAGE_SIZE" "\<not> pmd_none (mm_pgd mm (pgd_index (pte_base s)))"
    and "phys s (frame_of (mm_pgd mm (pgd_index (pte_base s)))) (pte_index (pte_base s)) \<noteq> 0"
    and "mms s tgt = Some tm" "cur \<noteq> tgt" "\<not> pmd_bad (mm_pgd tm i)" "pfn_valid env (frame_of (mm_pgd tm i))"
  shows "for_pmd_entry env cur tgt i addr next s = None"
proof -
  obtain mm1 where f: "find_vma (pte_base s) mm = (Some v, mm1)" using assms(2) by (cases "find_vma (pte_base s) mm") auto
  have "remap_pfn_range env cur v (pte_base s) pfn PAGE_SIZE prot (set_mm cur mm1 s) = None" for pfn prot
    using assms(3-6) find_vma_member(4) [OF f] by (intro remap_mapped_page [where mm = mm1]) auto
  then show ?thesis using assms(1,7-) f by (simp add: for_pmd_entry_def Let_def frame_of_def)
qed

lemma walk_dirs_none:
  assumes "mms s tgt = Some tm" "\<not> pmd_none (mm_pgd tm i)"
    and "\<And>tm' next. mm_pgd tm' = mm_pgd tm \<Longrightarrow> for_pmd_entry env cur tgt i addr next (set_mm tgt tm' s) = None"
  shows "walk_dirs (expose_walk env cur tgt) (for_pmd_entry env cur tgt) end addr (i # is) s = None"
proof -
  obtain r tm' where f: "find_vma addr tm = (r, tm')" by fastforce
  have pgd: "mm_pgd tm' = mm_pgd tm" by (rule find_vma_member(4) [OF f])
  have find: "snd (walk_find_vma (expose_walk env cur tgt) addr s) = set_mm tgt tm' s"
    using assms(1) f by (simp add: walk_find_vma_def expose_walk_def)
  have val: "pmd_val (expose_walk env cur tgt) (set_mm tgt tm' s) i = mm_pgd tm i" by (simp add: pmd_val_def expose_walk_def pgd)
  show ?thesis using assms(2,3) pgd find val by (simp only: walk_dirs.simps Let_def, simp)
qed

lemma or_nonzero: "(y :: ulong) \<noteq> 0 \<Longrightarrow> x OR y \<noteq> 0"
  by (auto simp: bit_eq_iff bit_simps)

lemma areas_ok_raw:
  assumes "areas_ok (inorder t)"
  shows "areas_ok (inorder (map_tree (\<lambda>u. if u = v then v\<lparr>vm_pfnmap := True\<rparr> else u) t))"
  using assms
  by (auto simp: areas_ok_def inorder_map sorted_wrt_map elim!: sorted_wrt_mono_rel [rotated])

text \<open>
  C34. The module works for one directory entry only. When the range covers two entries with page
  tables, the second table is to be mapped half a page behind the first, which is the page already
  in use: \<^verbatim>\<open>remap_pfn_range\<close> stops with a \<^verbatim>\<open>BUG\<close>.
\<close>

theorem expose_two_tables_bug:
  assumes call: "call_ok env cur tgt tm a v fr s" and range: "begin_vaddr < end_vaddr" "find_pid p = User_mm tgt"
    and two: "pgd_index (end_vaddr - 1) = pgd_index begin_vaddr + 1"
    and tabs: "table_ok env tm (pgd_index begin_vaddr)" "table_ok env tm (pgd_index begin_vaddr + 1)"
    and area: "mms s cur = Some mm" "mm_ok mm" "vm_start v \<le> a" "unat a + 2048 < unat (vm_end v)" "v \<in> set_tree (mm_rb mm)"
    and prot: "vm_page_prot v \<noteq> 0"
  shows "expose_page_table env find_pid False False cur p a begin_vaddr end_vaddr s = None"
proof -
  let ?i = "pgd_index begin_vaddr" and ?b = "a + EACH_PTE_SIZE" and ?v = "v\<lparr>vm_pfnmap := True\<rparr>"
  have t: "cur \<noteq> tgt" "mms (expose_start a s) tgt = Some tm" "can_take env cur (expose_start a s) a v fr"
    using call can_take_cong [of "expose_start a s" cur s] by (simp_all add: call_ok_def)
  have al: "page_aligned a" "unat a + 4096 < 2 ^ 32" "\<not> vm_cow v" using t(3) by (simp_all add: can_take_def)
  note sp = same_page [OF al(1,2)]
  obtain x tm' where x: "pte_base x = ?b" "mms x tgt = Some tm'" "mm_pgd tm' = mm_pgd tm"
    "mapped_at cur a v fr (pfn_pte (drop_bit 12 (mm_pgd tm ?i)) (vm_page_prot v)) (expose_start a s) x"
    "walk_dirs (expose_walk env cur tgt) (for_pmd_entry env cur tgt) end_vaddr begin_vaddr [?i, ?i + 1] (expose_start a s) =
     walk_dirs (expose_walk env cur tgt) (for_pmd_entry env cur tgt) end_vaddr (of_nat ((?i + 1) * 2 ^ 21)) [?i + 1] x"
    using walk_first_section [OF t(1,2) tabs(1), of v fr begin_vaddr end_vaddr "[?i + 1]"] t(3) by auto
  obtain mm' where mm': "mms x cur = Some mm'" "\<not> pmd_none (mm_pgd mm' (pgd_index a))" "frame_of (mm_pgd mm' (pgd_index a)) = fr"
    "mm_rb mm' = map_tree (\<lambda>u. if u = v then ?v else u) (mm_rb mm)" "\<forall>u. mmap_cache mm' = Some u \<longrightarrow> u \<in> set_tree (mm_rb mm')"
    "phys x fr (pte_index a) = pfn_pte (drop_bit 12 (mm_pgd tm ?i)) (vm_page_prot v)"
    using x(4) area(1,2) by (auto simp: mapped_at_def)
  have ok: "mm_ok mm'" using area(2) mm'(4,5) areas_ok_raw by (simp add: mm_ok_def)
  have "?v \<in> set (inorder (mm_rb mm'))" using area(5) mm'(4) by (auto simp: inorder_map)
  moreover have "vm_start ?v \<le> ?b" "?b < vm_end ?v" using area(3,4) sp(3) by (simp_all add: word_le_nat_alt word_less_nat_alt)
  ultimately have find: "fst (find_vma ?b mm') = Some ?v"
    using find_vma_ok [of mm' ?b] ok first_above_inside [of "inorder (mm_rb mm')" ?v ?b] by (simp add: mm_ok_def)
  have "phys x fr (pte_index a) \<noteq> 0" using or_nonzero [OF prot] mm'(6) by (simp add: pfn_pte_def)
  then have "for_pmd_entry env cur tgt (?i + 1) addr next (set_mm tgt tm'' x) = None" if "mm_pgd tm'' = mm_pgd tm" for addr "next" tm''
    using callback_bug [of "set_mm tgt tm'' x" cur mm' ?v tgt tm'' "?i + 1" env addr "next"] that t(1) x(1) mm' sp find al(3) tabs(2)
    by (simp add: table_ok_def)
  then have bug: "walk_dirs (expose_walk env cur tgt) (for_pmd_entry env cur tgt) end_vaddr (of_nat ((?i + 1) * 2 ^ 21)) [?i + 1] x = None"
    using x(3) tabs(2) by (intro walk_dirs_none [OF x(2)]) (simp_all add: table_ok_def)
  have "[?i..<pgd_index (end_vaddr - 1) + 1] = [?i, ?i + 1]" using two by (simp add: upt_conv_Cons)
  then show ?thesis
    by (simp only: expose_walk_dirs [of env cur tgt tm a v fr s begin_vaddr end_vaddr find_pid p, OF call range] x(5) bug option.case)
qed


section \<open>Return values\<close>

text \<open>
  When the call returns, it has copied the directory exactly if it returns 0, and other return values are
  \<^verbatim>\<open>-EINVAL\<close> and \<^verbatim>\<open>-EFAULT\<close>. The kernel's copy of the directory is leaked exactly on the two error paths after
  its allocation: a \<^verbatim>\<open>NULL\<close> address for the page tables, and a failing copy to the caller.
\<close>

theorem expose_return_values:
  assumes "expose_page_table env find_pid no_memory bad_copy cur p a begin_vaddr end_vaddr s = Some r"
  shows "x_ret r \<in> {0, - EINVAL, - EFAULT} \<and> (x_ret r = 0 \<longleftrightarrow> x_fake_pgd r \<noteq> None) \<and>
    (\<not> x_freed r \<longleftrightarrow> begin_vaddr < end_vaddr \<and> (\<exists>tgt. find_pid p = User_mm tgt) \<and> \<not> no_memory \<and> (a = 0 \<or> bad_copy))"
  using assms
  by (auto simp: expose_page_table_def Let_def EINVAL_def EFAULT_def split: if_splits pid_lookup.splits option.splits)

lemma unsigned_below:
  assumes "0 \<le> k" "k \<le> 2 ^ 31"
  shows "uint (w :: 32 word) < k \<longleftrightarrow> 0 \<le> sint w \<and> sint w < k"
proof (cases "uint w < 2 ^ 31")
  case True
  have "- (2 ^ 31) \<le> uint w" by (rule order_trans [OF _ uint_ge_0]) simp
  then have "sint w = uint w" using True by (simp add: sint_uint signed_take_bit_int_eq_self_iff)
  then show ?thesis by simp
next
  case False
  have "uint w < 2 ^ 32" using uint_lt2p [of w] by simp
  then have "uint w div 2 ^ 31 = 1" using False by simp
  then have "bit (uint w) 31" by (simp add: bit_iff_odd)
  then have "sint w < 0" by (simp add: sint_uint signed_take_bit_negative_iff)
  then show ?thesis using False assms by simp
qed

text \<open>
  The call for the layout rejects the sizes from 0 to 7 and accepts every other one, negative sizes
  included; an accepted call returns the constants of the two-level tables.
\<close>

lemma layout_accepts_negative:
  "get_pagetable_layout sz False =
     (if 0 \<le> sint sz \<and> sint sz < 8 then (- EINVAL, None) else (0, Some \<lparr>pgdir_shift = 21, page_shift = 12\<rparr>))"
  using unsigned_below [of 8 sz] by (auto simp: get_pagetable_layout_def word_less_def)


section \<open>An example\<close>

text \<open>Process 1 has an empty shared area at 1 GB; process 2 has page tables in the frames 5 and 6.\<close>

definition shared_area :: vma where
  "shared_area = plain_area\<lparr>vm_start := 0x40000000, vm_end := 0x40400000, vm_page_prot := 0x3\<rparr>"

definition caller_mm :: mm_struct where
  "caller_mm = \<lparr>mm_rb = Node Leaf shared_area Leaf, mmap_cache = None, mm_pgd = (\<lambda>_. 0)\<rparr>"

definition target_mm :: mm_struct where
  "target_mm = \<lparr>mm_rb = Leaf, mmap_cache = None, mm_pgd = (\<lambda>i. if i = 1 then 0x5831 else if i = 2 then 0x6831 else 0)\<rparr>"

definition two_processes :: pt_state where
  "two_processes = \<lparr>phys = (\<lambda>frame i. if frame = 5 \<and> i = 3 then 0x7003 else 0),
     mms = [1 \<mapsto> caller_mm, 2 \<mapsto> target_mm]\<rparr>"

definition sixteen_frames :: pt_env where
  "sixteen_frames = \<lparr>pte_alloc = (\<lambda>_. Some 9), hw_pte = (\<lambda>v. v), pfn_valid = (\<lambda>f. f < 16)\<rparr>"

definition pid_two :: "int \<Rightarrow> pid_lookup" where
  "pid_two p = (if p = 2 then User_mm 2 else No_pid)"

lemmas example_defs =
  shared_area_def plain_area_def caller_mm_def target_mm_def two_processes_def sixteen_frames_def pid_two_def

lemma example_call: "call_ok sixteen_frames 1 2 target_mm 0x40000000 shared_area 9 two_processes"
  by (simp add: call_ok_def can_take_def example_defs page_aligned_def plain_mm_def find_vma_def pmd_none_def)

lemma example_index [simp]:
  "pgd_index 0x200000 = 1" "pgd_index 0x203000 = 1" "pgd_index 0x203FFF = 1" "pgd_index 0x400000 = 2" "pgd_index 0x1FFFFF = 0"
  by (simp_all add: pgd_index_def)


lemma example_tables: "table_ok sixteen_frames target_mm 1" "table_ok sixteen_frames target_mm 2"
  by (simp_all add: table_ok_def example_defs pmd_none_def pmd_bad_def frame_of_def)


theorem expose_two_tables_bug_witness:
  "expose_page_table sixteen_frames pid_two False False 1 2 0x40000000 0x200000 0x400001 two_processes = None"
  by (rule expose_two_tables_bug [OF example_call, where mm = caller_mm])
    (simp_all add: example_tables [unfolded One_nat_def numeral_2_eq_2] pid_two_def, simp_all add: example_defs mm_ok_def areas_ok_def)

theorem expose_return_values_witness:
  "expose_page_table sixteen_frames pid_two False False 1 2 0 0x200000 0x200001 two_processes =
     Some \<lparr>x_ret = - EFAULT, x_state = two_processes, x_fake_pgd = None, x_freed = False\<rparr> \<and> - EFAULT \<in> {0, - EINVAL, - EFAULT}"
proof -
  have "expose_page_table sixteen_frames pid_two False False 1 2 0 0x200000 0x200001 two_processes =
     Some \<lparr>x_ret = - EFAULT, x_state = two_processes, x_fake_pgd = None, x_freed = False\<rparr>"
    by (simp add: expose_page_table_def pid_two_def)
  with expose_return_values [OF this] show ?thesis by simp
qed

end
