(* ===== verification/Hex_Parse.thy ===== *)
theory Hex_Parse
  imports Kernel_Prelude
begin

text \<open>
  Reading numbers from the command line, in \<^verbatim>\<open>VATranslate.c\<close> and \<^verbatim>\<open>vm_inspector.c\<close>: \<^verbatim>\<open>strtol\<close> and \<^verbatim>\<open>atoi\<close> of the C
  library for a 32-bit \<^verbatim>\<open>long\<close>, and the programs' own \<^verbatim>\<open>strtolu\<close> for unsigned hexadecimal numbers.
\<close>

section \<open>The C library\<close>

definition isspace :: "char \<Rightarrow> bool" where
  "isspace c \<longleftrightarrow> c = CHR '' '' \<or> 9 \<le> (of_char c :: nat) \<and> (of_char c :: nat) \<le> 13"

definition digit :: "char \<Rightarrow> nat" where
  "digit c =
     (let n = of_char c in
      if 48 \<le> n \<and> n \<le> 57 then n - 48
      else if 97 \<le> n \<and> n \<le> 122 then n - 97 + 10
      else if 65 \<le> n \<and> n \<le> 90 then n - 65 + 10
      else 36)"

definition value_of :: "nat \<Rightarrow> string \<Rightarrow> nat" where
  "value_of base ds = foldl (\<lambda>acc c. acc * base + digit c) 0 ds"

text \<open>The result is cut to the range of a \<^verbatim>\<open>long\<close>.\<close>

definition strtol :: "string \<Rightarrow> nat \<Rightarrow> int" where
  "strtol str base =
     (let str = dropWhile isspace str;
          neg = (str \<noteq> [] \<and> hd str = CHR ''-'');
          str = (if str \<noteq> [] \<and> (hd str = CHR ''-'' \<or> hd str = CHR ''+'') then tl str else str);
          str = (if base = 16 \<and> (take 2 str = ''0x'' \<or> take 2 str = ''0X'') then drop 2 str else str);
          acc = int (value_of base (takeWhile (\<lambda>c. digit c < base) str))
      in max (- (2 ^ 31)) (min (2 ^ 31 - 1) (if neg then - acc else acc)))"

definition atoi :: "string \<Rightarrow> int" where
  "atoi str = strtol str 10"


section \<open>Unsigned hexadecimal numbers\<close>

definition lower :: "char \<Rightarrow> char" where
  "lower c =
     (let n = of_char c :: nat in
      if n \<ge> 97 then char_of (n - 97 + 50) else if n \<ge> 65 then char_of (n - 65 + 50) else char_of (n + 256 - 8))"

definition strtolu :: "string \<Rightarrow> ulong" where
  "strtolu str =
     (let flag = (length str = 8 \<and> of_char (str ! 0) \<ge> (56 :: nat));
          str = (if flag then str[0 := lower (str ! 0)] else str);
          res = word_of_int (strtol str 16)
      in res OR (if flag then push_bit 31 1 else 0))"

definition hex_digit :: "char \<Rightarrow> bool" where
  "hex_digit c \<longleftrightarrow> digit c < 16"

definition hex_char :: "nat \<Rightarrow> char" where
  "hex_char n = (if n < 10 then char_of (48 + n) else char_of (97 + n - 10))"

definition print_08lx :: "ulong \<Rightarrow> string" where
  "print_08lx w = map (\<lambda>i. hex_char (unat w div 16 ^ i mod 16)) (rev [0..<8])"



section \<open>Reading back\<close>

lemma digit_char_of: "n < 256 \<Longrightarrow> digit (char_of n) =
    (if 48 \<le> n \<and> n \<le> 57 then n - 48 else if 97 \<le> n \<and> n \<le> 122 then n - 97 + 10
     else if 65 \<le> n \<and> n \<le> 90 then n - 65 + 10 else 36)"
  by (simp add: digit_def Let_def)

lemma hex_digit_code:
  assumes "hex_digit c"
  shows "48 \<le> (of_char c :: nat) \<and> (of_char c :: nat) \<le> 57 \<and> digit c = of_char c - 48 \<or>
    97 \<le> (of_char c :: nat) \<and> (of_char c :: nat) \<le> 102 \<and> digit c = of_char c - 87 \<or>
    65 \<le> (of_char c :: nat) \<and> (of_char c :: nat) \<le> 70 \<and> digit c = of_char c - 55"
  using assms by (auto simp: hex_digit_def digit_def Let_def split: if_splits)

lemma hex_digit_plain:
  assumes "hex_digit c"
  shows "\<not> isspace c" "c \<noteq> CHR ''-''" "c \<noteq> CHR ''+''" "c \<noteq> CHR ''x''" "c \<noteq> CHR ''X''"
  using assms hex_digit_code [OF assms] by (auto simp: isspace_def)

lemma lower_digit:
  assumes "hex_digit c" "56 \<le> (of_char c :: nat)"
  shows "8 \<le> digit c" "digit (lower c) = digit c - 8"
proof -
  show "8 \<le> digit c" using hex_digit_code [OF assms(1)] assms(2) by auto
  have "lower c = char_of (48 + (digit c - 8))"
    using hex_digit_code [OF assms(1)] assms(2) by (auto simp: lower_def Let_def char_of_eq_iff take_bit_eq_mod le_mod_geq)
  then show "digit (lower c) = digit c - 8"
    using assms(1) by (simp add: digit_char_of hex_digit_def)
qed

lemma value_of_acc: "foldl (\<lambda>acc c. acc * base + digit c) a ds = a * base ^ length ds + value_of base ds"
proof (induction ds arbitrary: a)
  case (Cons c ds)
  show ?case using Cons [of "a * base + digit c"] Cons [of "digit c"] by (simp add: value_of_def algebra_simps)
qed (simp add: value_of_def)

lemma value_of_Cons: "value_of base (c # ds) = digit c * base ^ length ds + value_of base ds"
  using value_of_acc [of base "digit c" ds] by (simp add: value_of_def)

lemma value_of_bound: "\<forall>c \<in> set ds. hex_digit c \<Longrightarrow> value_of 16 ds < 16 ^ length ds"
proof (induction ds)
  case (Cons c ds)
  then have "value_of 16 ds < 16 ^ length ds" "digit c \<le> 15" by (simp_all add: hex_digit_def)
  moreover have "digit c * 16 ^ length ds \<le> 15 * (16 :: nat) ^ length ds" by (rule mult_right_mono) (simp_all add: calculation)
  ultimately have "digit c * 16 ^ length ds + value_of 16 ds < 15 * 16 ^ length ds + 16 ^ length ds" by linarith
  then show ?case by (simp add: value_of_Cons)
qed (simp add: value_of_def)

lemma strtol_hex:
  assumes "ds \<noteq> []" "\<forall>c \<in> set ds. hex_digit c" "value_of 16 ds < 2 ^ 31"
  shows "strtol ds 16 = int (value_of 16 ds)"
proof -
  obtain c cs where ds: "ds = c # cs" using assms(1) by (cases ds) auto
  then have "dropWhile isspace ds = ds" "hd ds \<noteq> CHR ''-''" "hd ds \<noteq> CHR ''+''" "takeWhile (\<lambda>c. digit c < 16) ds = ds"
    using assms(2) hex_digit_plain(1-3) [of c] by (auto simp: hex_digit_def)
  moreover have "take 2 ds \<noteq> ''0x''" "take 2 ds \<noteq> ''0X''"
    using assms(2) hex_digit_plain(4,5) set_take_subset [of 2 ds] by fastforce+
  ultimately show ?thesis using assms(3) by (simp add: strtol_def Let_def del: takeWhile_eq_all_conv)
qed

lemma or_top_bit:
  assumes "n < 2 ^ 31"
  shows "(of_nat n :: ulong) OR push_bit 31 1 = of_nat n + push_bit 31 1"
proof -
  have "\<not> bit (of_nat n :: ulong) 31" using assms by (simp add: bit_simps bit_nat_iff) (simp add: bit_iff_odd)
  then have "(of_nat n :: ulong) AND push_bit 31 1 = 0"
    by (intro bit_word_eqI) (simp only: bit_and_iff push_bit_of_1 bit_exp_iff, auto)
  then show ?thesis by (simp only: disjunctive_add_eq_or)
qed

lemma strtolu_hex:
  assumes ne: "ds \<noteq> []" and len: "length ds \<le> 8" and hex: "\<forall>c \<in> set ds. hex_digit c"
  shows "strtolu ds = of_nat (value_of 16 ds)"
proof -
  obtain c cs where ds: "ds = c # cs" using ne by (cases ds) auto
  have cs: "value_of 16 cs < 16 ^ length cs" "length cs \<le> 7" using value_of_bound [of cs] hex ds len by simp_all
  then have small: "value_of 16 cs < 16 ^ 7" using power_increasing [of "length cs" 7 "16 :: nat"] by simp
  show ?thesis
  proof (cases "length ds = 8 \<and> 56 \<le> (of_char c :: nat)")
    case True
    have low: "8 \<le> digit c" "digit c \<le> 15" "digit (lower c) = digit c - 8"
      using lower_digit [of c] True hex ds by (simp_all add: hex_digit_def)
    have hex': "\<forall>d \<in> set (lower c # cs). hex_digit d" using hex ds low by (simp add: hex_digit_def)
    have v: "value_of 16 (lower c # cs) + 2 ^ 31 = value_of 16 ds" "value_of 16 (lower c # cs) < 2 ^ 31"
      using True ds low small by (simp_all add: value_of_Cons)
    then have "strtol (lower c # cs) 16 = int (value_of 16 (lower c # cs))" using strtol_hex [OF _ hex'] by simp
    then have "strtolu ds = of_nat (value_of 16 (lower c # cs)) OR push_bit 31 1"
      using True ds by (simp add: strtolu_def Let_def)
    also have "\<dots> = of_nat (value_of 16 (lower c # cs)) + push_bit 31 1"
      by (rule or_top_bit [OF v(2)])
    also have "\<dots> = of_nat (value_of 16 ds)" unfolding v(1) [symmetric] by simp
    finally show ?thesis .
  next
    case False
    have "value_of 16 ds < 2 ^ 31"
    proof (cases "length cs = 7")
      case True
      then have "digit c \<le> 7" using False ds hex_digit_code [of c] hex by auto
      then show ?thesis using ds small True by (simp add: value_of_Cons)
    next
      case False
      then have "(16 :: nat) ^ length ds \<le> 16 ^ 7" using cs(2) ds by (intro power_increasing) simp_all
      then show ?thesis using value_of_bound [OF hex] by simp
    qed
    then show ?thesis using False ds strtol_hex [OF ne hex] by (auto simp: strtolu_def Let_def)
  qed
qed


lemma digit_hex_char: "n < 16 \<Longrightarrow> digit (hex_char n) = n"
  by (simp add: hex_char_def digit_char_of)

lemma value_of_digits: "value_of 16 (map (\<lambda>i. hex_char (n div 16 ^ i mod 16)) (rev [0..<k])) = n mod 16 ^ k"
proof (induction k)
  case (Suc k)
  have "n mod 16 ^ Suc k = 16 ^ k * (n div 16 ^ k mod 16) + n mod 16 ^ k"
    using mod_mult2_eq [of n "16 ^ k" 16] by (simp add: mult.commute)
  then show ?case using Suc by (simp add: value_of_Cons digit_hex_char)
qed (simp add: value_of_def)

lemma strtolu_print: "strtolu (print_08lx w) = w"
proof -
  have "unat w < 16 ^ 8" using unsigned_less [of w] by simp
  then have "value_of 16 (print_08lx w) = unat w" by (simp only: print_08lx_def value_of_digits mod_less)
  moreover have "strtolu (print_08lx w) = of_nat (value_of 16 (print_08lx w))"
    by (rule strtolu_hex) (auto simp: print_08lx_def hex_digit_def digit_hex_char)
  ultimately show ?thesis by simp
qed

text \<open>
  C36. Reading back what \<^verbatim>\<open>%08lx\<close> prints gives the same word, for every word: the detour over the
  signed \<^verbatim>\<open>strtol\<close> loses nothing.
\<close>

theorem strtolu_print_roundtrip: "strtolu (print_08lx w) = w"
  by (rule strtolu_print)

text \<open>
  With a \<^verbatim>\<open>0x\<close> in front, as addresses are usually written, numbers above the largest \<^verbatim>\<open>long\<close> are cut to it.
\<close>

theorem strtolu_prefix_saturates:
  assumes "\<forall>c \<in> set ds. hex_digit c"
  shows "strtolu (''0x'' @ ds) = of_nat (min (2 ^ 31 - 1) (value_of 16 ds))"
proof -
  have "takeWhile (\<lambda>c. digit c < 16) ds = ds" using assms by (simp add: hex_digit_def)
  then have "strtol (''0x'' @ ds) 16 = int (min (2 ^ 31 - 1) (value_of 16 ds))"
    by (simp add: strtol_def isspace_def del: takeWhile_eq_all_conv)
  then show ?thesis by (simp add: strtolu_def)
qed

theorem strtolu_prefix_saturates_witness: "strtolu ''0x80000000'' = 0x7FFFFFFF"
  using strtolu_prefix_saturates [of "''80000000''"] by (simp add: hex_digit_def digit_def value_of_def)

end
