(* ===== verification/Pagetable_Users.thy ===== *)
theory Pagetable_Users
  imports Pagetable_Spec Hex_Parse
begin

text \<open>
  The programs that call the page table module: \<^verbatim>\<open>VATranslate.c\<close>, which translates one virtual address of a
  process, and \<^verbatim>\<open>vm_inspector.c\<close>, which lists the pages of a range of addresses.
\<close>

section \<open>User memory\<close>

text \<open>
  A word read through the page table of the process that runs. \<open>None\<close> is a segmentation fault. A page that
  is not present stays so; the programs read only what the module has mapped, and around \<^verbatim>\<open>NULL\<close>.
\<close>

definition L_PTE_PRESENT :: ulong where
  "L_PTE_PRESENT = 1"

definition pte_present :: "ulong \<Rightarrow> bool" where
  "pte_present pte \<longleftrightarrow> pte AND L_PTE_PRESENT \<noteq> 0"

definition read_user :: "nat \<Rightarrow> pt_state \<Rightarrow> ulong \<Rightarrow> ulong option" where
  "read_user cur s addr =
     (case mms s cur of
        None \<Rightarrow> None
      | Some mm \<Rightarrow>
          (let pmd = mm_pgd mm (pgd_index addr) in
           if pmd_none pmd then None
           else let pte = phys s (frame_of pmd) (pte_index addr)
                in if pte_present pte then Some (phys s (frame_of pte) (unat (drop_bit 2 (addr AND 0xFFF)))) else None))"

text \<open>What the programs get from the rest of the system: memory, and a shared anonymous area.\<close>

record user_env =
  sys_env :: pt_env
  find_get_pid :: "int \<Rightarrow> pid_lookup"
  no_pages :: bool
  copy_fails :: bool
  malloc_fails :: bool
  map_area :: "pt_state \<Rightarrow> ulong \<times> pt_state"
  unmap_area :: "ulong \<Rightarrow> pt_state \<Rightarrow> pt_state"

definition sys_expose :: "user_env \<Rightarrow> nat \<Rightarrow> int \<Rightarrow> ulong \<Rightarrow> ulong \<Rightarrow> ulong \<Rightarrow> pt_state \<Rightarrow> expose_result option" where
  "sys_expose u cur =
     Pagetable_Module.expose_page_table (sys_env u) (find_get_pid u) (no_pages u) (copy_fails u) cur"

text \<open>The directory in the program's memory after a successful call.\<close>

definition user_pgd :: "expose_result \<Rightarrow> ulong list" where
  "user_pgd r = (case x_fake_pgd r of None \<Rightarrow> pgd_zero | Some pgd \<Rightarrow> pgd)"

definition EAGAIN :: int where
  "EAGAIN = 11"


section \<open>Address translation\<close>






section \<open>Inspection\<close>

datatype vi_line = Vi_failed | Vi_usage | Vi_title | Page ulong ulong

function (sequential) inspect_loop ::
  "nat \<Rightarrow> ulong list \<Rightarrow> pt_state \<Rightarrow> nat \<Rightarrow> nat \<Rightarrow> vi_line list option" where
  "inspect_loop cur fake_pgd s end i =
     (if i > end then Some []
      else let p = fake_pgd ! (i div 512) in
        case read_user cur s (p + 4 * of_nat (i mod 512)) of
          None \<Rightarrow> None
        | Some pageFrame \<Rightarrow>
            (case inspect_loop cur fake_pgd s end (i + 1) of
               None \<Rightarrow> None
             | Some lines \<Rightarrow>
                 Some ((if pte_present pageFrame then [Page (of_nat i) (drop_bit 12 pageFrame)] else []) @ lines)))"
  by pat_completeness auto
termination
  by (relation "measure (\<lambda>(cur, pgd, s, end, i). end + 1 - i)") auto

declare inspect_loop.simps [simp del]

definition vi_expose_page_table ::
  "user_env \<Rightarrow> nat \<Rightarrow> int \<Rightarrow> ulong \<Rightarrow> ulong \<Rightarrow> ulong \<Rightarrow> pt_state \<Rightarrow> (vi_line list \<times> pt_state) option" where
  "vi_expose_page_table u cur pid page_table_addr begin_vaddr end_vaddr s =
     (case sys_expose u cur pid page_table_addr begin_vaddr end_vaddr s of
        None \<Rightarrow> None
      | Some r \<Rightarrow>
          if x_ret r \<noteq> 0 then Some ([Vi_failed], x_state r)
          else case inspect_loop cur (user_pgd r) (x_state r) (unat (drop_bit 12 end_vaddr AND 0xFFFFF))
                      (unat (drop_bit 12 begin_vaddr AND 0xFFFFF)) of
                 None \<Rightarrow> None
               | Some lines \<Rightarrow> Some (Vi_title # lines, x_state r))"

definition vi_main :: "user_env \<Rightarrow> nat \<Rightarrow> string list \<Rightarrow> pt_state \<Rightarrow> (int \<times> vi_line list \<times> pt_state) option" where
  "vi_main u cur argv s =
     (if length argv \<noteq> 4 then Some (- EAGAIN, [Vi_usage], s)
      else let pid = atoi (argv ! 1); begin_vaddr = strtolu (argv ! 2); end_vaddr = strtolu (argv ! 3) in
        if malloc_fails u then Some (- EFAULT, [], s)
        else let (page_table_addr, s) = map_area u s in
          if page_table_addr = 0 then Some (- EFAULT, [], s)
          else case vi_expose_page_table u cur pid page_table_addr begin_vaddr end_vaddr s of
                 None \<Rightarrow> None
               | Some (lines, s) \<Rightarrow> Some (0, lines, unmap_area u page_table_addr s))"



section \<open>Reading an exposed page table\<close>

lemma unat_and_FFF: "unat (w AND 0xFFF) = unat w mod 4096" for w :: ulong
proof -
  have mask: "(0xFFF :: ulong) = mask 12" by (simp add: mask_eq_exp_minus_1)
  have "unat (w AND 0xFFF) = take_bit 12 (unat w)"
    unfolding mask by (simp only: take_bit_eq_mask [symmetric] unsigned_take_bit_eq)
  then show ?thesis by (simp add: take_bit_eq_mod)
qed

lemma in_page:
  assumes "page_aligned a" "unat a + 4096 < 2 ^ 32" "k < 1024"
  shows "pgd_index (a + 4 * of_nat k) = pgd_index a" "pte_index (a + 4 * of_nat k) = pte_index a"
    "unat (drop_bit 2 ((a + 4 * of_nat k) AND 0xFFF)) = k"
proof -
  obtain j where j: "unat a = 4096 * j" using assms(1) by (auto simp: page_aligned_def)
  have u: "unat (a + 4 * of_nat k) = 4096 * j + 4 * k"
    using assms(2,3) j by (simp add: unat_word_ariths unat_of_nat_ulong)
  have d: "(4096 * j + 4 * k) div 4096 = j" using assms(3) by simp
  then have "(4096 * j + 4 * k) div 4096 div 512 = j div 512" by simp
  then have "(4096 * j + 4 * k) div 2 ^ 21 = 4096 * j div 2 ^ 21" by (simp add: div_mult2_eq [symmetric])
  then show "pgd_index (a + 4 * of_nat k) = pgd_index a" by (simp only: pgd_index_nat u j)
  show "pte_index (a + 4 * of_nat k) = pte_index a" using d by (simp add: pte_index_nat u j)
  have "(4096 * j + 4 * k) mod 4096 = 4 * k" using assms(3) by simp
  then show "unat (drop_bit 2 ((a + 4 * of_nat k) AND 0xFFF)) = k"
    by (simp only: unat_drop_bit_eq unat_and_FFF u) (simp add: drop_bit_eq_div)
qed

lemma frame_of_bound: "frame_of v < 2 ^ 20"
  using unat_ulong_bound [of v] by (simp only: frame_of_def unat_drop_bit_eq) (simp add: drop_bit_eq_div)

lemma frame_of_pfn_pte:
  assumes "prot < 4096"
  shows "frame_of (pfn_pte (drop_bit 12 pmd) prot) = frame_of pmd"
  using frame_of_or [OF frame_of_bound assms, of pmd] by (simp add: pfn_pte_def frame_of_def)

lemma pte_present_or: "pte_present prot \<Longrightarrow> pte_present (x OR prot)"
  by (auto simp: pte_present_def L_PTE_PRESENT_def bit_eq_iff bit_simps)

lemma read_exposed:
  assumes "mapped_at cur a v fr (pfn_pte (drop_bit 12 pmd) (vm_page_prot v)) s s'"
    and "page_aligned a" "unat a + 4096 < 2 ^ 32" "pte_present (vm_page_prot v)" "vm_page_prot v < 4096"
    and "frame_of pmd \<noteq> fr" "k < 1024"
  shows "read_user cur s' (a + 4 * of_nat k) = Some (phys s (frame_of pmd) k)"
  using assms(1) in_page [OF assms(2,3,7)] frame_of_pfn_pte [OF assms(5), of pmd] assms(6)
    pte_present_or [OF assms(4), of "push_bit 12 (drop_bit 12 pmd)"]
  by (auto simp: mapped_at_def read_user_def Let_def pfn_pte_def)



section \<open>What the programs print\<close>

text \<open>
  The entry for an address in the page tables of a process, and the physical address it stands for: the
  frame's address and the offset in the page.
\<close>

definition linux_pte :: "pt_state \<Rightarrow> mm_struct \<Rightarrow> nat \<Rightarrow> ulong" where
  "linux_pte s mm page = phys s (frame_of (mm_pgd mm (page div 512))) (page mod 512)"


definition program_ok :: "user_env \<Rightarrow> nat \<Rightarrow> int \<Rightarrow> nat \<Rightarrow> mm_struct \<Rightarrow> ulong \<Rightarrow> vma \<Rightarrow> nat \<Rightarrow> ulong \<Rightarrow> pt_state \<Rightarrow> bool" where
  "program_ok u cur pid tgt tm a v fr va s \<longleftrightarrow>
     call_ok (sys_env u) cur tgt tm a v fr s \<and> find_get_pid u pid = User_mm tgt \<and>
     \<not> no_pages u \<and> \<not> copy_fails u \<and> \<not> malloc_fails u \<and>
     table_ok (sys_env u) tm (pgd_index va) \<and> frame_of (mm_pgd tm (pgd_index va)) \<noteq> fr \<and>
     pte_present (vm_page_prot v) \<and> vm_page_prot v < 4096"

lemma sys_expose_one:
  assumes ok: "program_ok u cur pid tgt tm a v fr begin_vaddr s" and "begin_vaddr < end_vaddr"
    and "pgd_index (end_vaddr - 1) = pgd_index begin_vaddr"
  shows "\<exists>r. sys_expose u cur pid a begin_vaddr end_vaddr s = Some r \<and> x_ret r = 0 \<and>
    user_pgd r = pgd_zero[pgd_index begin_vaddr := a] \<and>
    mapped_at cur a v fr (pfn_pte (drop_bit 12 (mm_pgd tm (pgd_index begin_vaddr))) (vm_page_prot v)) s (x_state r) \<and>
    (\<forall>k < 512. read_user cur (x_state r) (a + 4 * of_nat k) = Some (linux_pte s tm (pgd_index begin_vaddr * 512 + k)))"
proof -
  have call: "call_ok (sys_env u) cur tgt tm a v fr s" "find_get_pid u pid = User_mm tgt"
    "table_ok (sys_env u) tm (pgd_index begin_vaddr)" "frame_of (mm_pgd tm (pgd_index begin_vaddr)) \<noteq> fr"
    "pte_present (vm_page_prot v)" "vm_page_prot v < 4096" "\<not> no_pages u" "\<not> copy_fails u"
    using ok by (simp_all add: program_ok_def)
  have a: "page_aligned a" "unat a + 4096 < 2 ^ 32" using call(1) by (auto simp: call_ok_def can_take_def)
  obtain s' where s': "sys_expose u cur pid a begin_vaddr end_vaddr s =
      Some \<lparr>x_ret = 0, x_state = s', x_fake_pgd = Some (pgd_zero[pgd_index begin_vaddr := a]), x_freed = True\<rparr>"
    "mapped_at cur a v fr (pfn_pte (drop_bit 12 (mm_pgd tm (pgd_index begin_vaddr))) (vm_page_prot v)) s s'"
    using expose_one [where find_pid = "find_get_pid u" and p = pid, OF call(1) assms(2) call(2) assms(3) call(3)] call(7,8)
    by (auto simp: sys_expose_def)
  have "\<forall>k < 512. read_user cur s' (a + 4 * of_nat k) = Some (linux_pte s tm (pgd_index begin_vaddr * 512 + k))"
    using read_exposed [OF s'(2) a call(5,6,4)] by (simp add: linux_pte_def)
  then show ?thesis using s' by (simp add: user_pgd_def)
qed












lemma unat_page: "unat (drop_bit 12 va AND 0xFFFFF) = unat va div 4096" for va :: ulong
proof -
  have mask: "(0xFFFFF :: ulong) = mask 20" by (simp add: mask_eq_exp_minus_1)
  have "drop_bit 12 va AND 0xFFFFF = drop_bit 12 va"
    unfolding mask by (rule bit_word_eqI) (auto simp: bit_simps dest: bit_imp_le_length)
  then show ?thesis by (simp only: unat_drop_bit_eq) (simp add: drop_bit_eq_div)
qed





lemma inspect_loop_crashes:
  assumes "i \<le> j" "j \<le> end" "read_user cur s (pgd ! (j div 512) + 4 * of_nat (j mod 512)) = None"
  shows "inspect_loop cur pgd s end i = None"
  using assms
proof (induction cur pgd s "end" i rule: inspect_loop.induct)
  case (1 cur pgd s "end" i)
  show ?case
  proof (cases "read_user cur s (pgd ! (i div 512) + 4 * of_nat (i mod 512))")
    case None
    then show ?thesis using "1.prems"(1,2) by (subst inspect_loop.simps) simp
  next
    case (Some w)
    then have "i + 1 \<le> j" using "1.prems"(1,3) by (cases "i = j") auto
    then have "inspect_loop cur pgd s end (i + 1) = None"
      using "1.prems" by (intro "1.IH" [OF _ refl Some]) simp_all
    then show ?thesis using Some "1.prems"(1,2) by (subst inspect_loop.simps) simp
  qed
qed

text \<open>
  C35. The last address is taken as part of the range, although the module treats it as the end: when the
  range ends where a directory entry ends, \<^verbatim>\<open>vm_inspector\<close> goes on to the next entry, which the module has not
  filled, and follows a \<^verbatim>\<open>NULL\<close> pointer.
\<close>

theorem vi_crashes_at_boundary:
  assumes "map_area u s0 = (a, s)" "program_ok u cur (atoi p) tgt tm a v fr begin_vaddr s"
    and "unat end_vaddr = (pgd_index begin_vaddr + 1) * 2 ^ 21"
    and "mms s cur = Some mm" "pgd_index a \<noteq> 0" "pmd_none (mm_pgd mm 0) \<or>
      frame_of (mm_pgd mm 0) \<noteq> fr \<and> \<not> pte_present (phys s (frame_of (mm_pgd mm 0)) 0)"
  shows "vi_main u cur [name, p, print_08lx begin_vaddr, print_08lx end_vaddr] s0 = None"
proof -
  let ?i = "pgd_index begin_vaddr"
  have i: "unat begin_vaddr < (?i + 1) * 2 ^ 21" "?i + 1 < 2048"
    using unat_ulong_bound [of end_vaddr] assms(3) dividend_less_div_times [of "2 ^ 21" "unat begin_vaddr"]
    by (simp_all add: pgd_index_nat)
  then have less: "begin_vaddr < end_vaddr" using assms(3) by (simp add: word_less_nat_alt)
  have "end_vaddr \<noteq> 0" using less by auto
  then have "unat (end_vaddr - 1) = ?i * 2 ^ 21 + (2 ^ 21 - 1)" using unat_minus_1 [of end_vaddr] assms(3) by simp
  then have "pgd_index (end_vaddr - 1) = ?i" by (simp add: pgd_index_nat [of "end_vaddr - 1"])
  then obtain r where r: "sys_expose u cur (atoi p) a begin_vaddr end_vaddr s = Some r" "x_ret r = 0"
    "user_pgd r = pgd_zero[?i := a]"
    "mapped_at cur a v fr (pfn_pte (drop_bit 12 (mm_pgd tm ?i)) (vm_page_prot v)) s (x_state r)"
    using sys_expose_one [OF assms(2) less] by auto
  have "user_pgd r ! (?i + 1) = 0" using r(3) i(2) by (simp add: pgd_zero_def)
  moreover have "read_user cur (x_state r) 0 = None"
    using r(4) assms(4-6) by (auto simp: mapped_at_def read_user_def Let_def pgd_index_def pte_index_def)
  moreover have "unat end_vaddr div 4096 = (?i + 1) * 512" using assms(3) by simp
  moreover have "unat begin_vaddr div 4096 \<le> unat end_vaddr div 4096"
    using less by (simp add: word_less_nat_alt div_le_mono)
  ultimately have "inspect_loop cur (user_pgd r) (x_state r) (unat end_vaddr div 4096) (unat begin_vaddr div 4096) = None"
    by (intro inspect_loop_crashes [where j = "(?i + 1) * 512"]) simp_all
  then have "vi_expose_page_table u cur (atoi p) a begin_vaddr end_vaddr s = None"
    using r(1,2) by (simp add: vi_expose_page_table_def unat_page)
  moreover have "\<not> malloc_fails u" "a \<noteq> 0" using assms(2) by (simp_all add: program_ok_def call_ok_def)
  ultimately show ?thesis using assms(1) by (simp add: vi_main_def strtolu_print)
qed


section \<open>An example\<close>

definition example_user :: user_env where
  "example_user =
     \<lparr>sys_env = sixteen_frames, find_get_pid = pid_two, no_pages = False, copy_fails = False, malloc_fails = False,
      map_area = (\<lambda>s. (0x40000000, s)), unmap_area = (\<lambda>a s. s)\<rparr>"

lemma example_program:
  assumes "pgd_index va = 1"
  shows "program_ok example_user 1 (atoi ''2'') 2 target_mm 0x40000000 shared_area 9 va two_processes"
proof -
  have "atoi ''2'' = 2" by (simp add: atoi_def strtol_def isspace_def value_of_def digit_def)
  then show ?thesis
    using example_call example_tables(1) assms
    by (simp add: program_ok_def example_user_def) (simp add: example_defs frame_of_def pte_present_def L_PTE_PRESENT_def)
qed

lemma example_map: "map_area example_user two_processes = (0x40000000, two_processes)"
  by (simp add: example_user_def)



theorem vi_crashes_at_boundary_witness:
  "vi_main example_user 1 [''vm_inspector'', ''2'', print_08lx 0x202000, print_08lx 0x400000] two_processes = None"
proof -
  have "pgd_index 0x202000 = 1" "pgd_index 0x40000000 = 512" by (simp_all add: pgd_index_def)
  with vi_crashes_at_boundary [OF example_map example_program [OF this(1)], of "0x400000" caller_mm "''vm_inspector''"]
  show ?thesis by (simp add: two_processes_def caller_mm_def pmd_none_def)
qed

end
