(* ===== verification/Syscall_Table.thy ===== *)
theory Syscall_Table
  imports Kernel_Prelude
begin

text \<open>
  The system call table and the two modules that put their own calls into it: \<^verbatim>\<open>ptree_init\<close> and \<^verbatim>\<open>ptree_exit\<close> of
  \<^verbatim>\<open>ptreemodule.c\<close>, \<^verbatim>\<open>pagetable_layout_init\<close> and \<^verbatim>\<open>pagetable_layout_exit\<close> of \<^verbatim>\<open>pagetable.c\<close>. Both take the number 233.
\<close>

section \<open>State\<close>

text \<open>What an entry of the table points to: a function of the kernel or one of a module.\<close>

datatype handler = Kernel_call nat | Ptree_call | Layout_call | Expose_call

text \<open>The table at \<^verbatim>\<open>0xc000d8c4\<close>, and the static variables of the two modules.\<close>

record call_table =
  syscall :: "nat \<Rightarrow> handler"
  oldcall :: handler
  oldcall_layout :: handler
  oldcall_expose :: handler

abbreviation NR_ptree :: nat where
  "NR_ptree \<equiv> 233"

abbreviation NR_get_pagetable_layout :: nat where
  "NR_get_pagetable_layout \<equiv> 233"

abbreviation NR_expose_page_table :: nat where
  "NR_expose_page_table \<equiv> 378"


section \<open>The modules\<close>

definition ptree_init :: "call_table \<Rightarrow> call_table" where
  "ptree_init s =
     (let s = s\<lparr>oldcall := syscall s NR_ptree\<rparr>
      in s\<lparr>syscall := (syscall s)(NR_ptree := Ptree_call)\<rparr>)"

definition ptree_exit :: "call_table \<Rightarrow> call_table" where
  "ptree_exit s = s\<lparr>syscall := (syscall s)(NR_ptree := oldcall s)\<rparr>"

definition pagetable_layout_init :: "call_table \<Rightarrow> call_table" where
  "pagetable_layout_init s =
     (let s = s\<lparr>oldcall_layout := syscall s NR_get_pagetable_layout\<rparr>;
          s = s\<lparr>syscall := (syscall s)(NR_get_pagetable_layout := Layout_call)\<rparr>;
          s = s\<lparr>oldcall_expose := syscall s NR_expose_page_table\<rparr>
      in s\<lparr>syscall := (syscall s)(NR_expose_page_table := Expose_call)\<rparr>)"

definition pagetable_layout_exit :: "call_table \<Rightarrow> call_table" where
  "pagetable_layout_exit s =
     (let s = s\<lparr>syscall := (syscall s)(NR_get_pagetable_layout := oldcall_layout s)\<rparr>
      in s\<lparr>syscall := (syscall s)(NR_expose_page_table := oldcall_expose s)\<rparr>)"


section \<open>Loading and unloading\<close>

datatype module = Ptree | Pagetable

datatype module_op = Insmod module | Rmmod module

fun init_module :: "module \<Rightarrow> call_table \<Rightarrow> call_table" where
  "init_module Ptree = ptree_init"
| "init_module Pagetable = pagetable_layout_init"

fun exit_module :: "module \<Rightarrow> call_table \<Rightarrow> call_table" where
  "exit_module Ptree = ptree_exit"
| "exit_module Pagetable = pagetable_layout_exit"

fun module_step :: "module_op \<Rightarrow> call_table \<Rightarrow> call_table" where
  "module_step (Insmod m) s = init_module m s"
| "module_step (Rmmod m) s = exit_module m s"

definition run_modules :: "module_op list \<Rightarrow> call_table \<Rightarrow> call_table" where
  "run_modules = fold module_step"

text \<open>Sequences in which the module loaded last is unloaded first, and a module is not loaded twice.\<close>

inductive nested :: "module_op list \<Rightarrow> bool" where
  nested_Nil: "nested []"
| nested_Load: "nested xs \<Longrightarrow> Insmod m \<notin> set xs \<Longrightarrow> nested ys \<Longrightarrow> nested (Insmod m # xs @ Rmmod m # ys)"

text \<open>
  What a module has to do for this: its exit undoes its init when the table is as the init left it, and
  nobody else writes what it has saved.
\<close>

locale hooking_module =
  fixes init exit :: "'s \<Rightarrow> 's" and table :: "'s \<Rightarrow> nat \<Rightarrow> handler" and saved :: "'s \<Rightarrow> 'v"
  assumes undo: "table s' = table (init s) \<Longrightarrow> saved s' = saved (init s) \<Longrightarrow> table (exit s') = table s"
begin

lemma around:
  assumes "\<And>t. table (f t) = table t" "\<And>t. saved (f t) = saved t"
  shows "table (exit (f (init s))) = table s"
  by (rule undo) (rule assms)+

end

interpretation ptree: hooking_module ptree_init ptree_exit syscall oldcall
  by unfold_locales (auto simp: ptree_init_def ptree_exit_def Let_def fun_eq_iff)

interpretation pagetable: hooking_module pagetable_layout_init pagetable_layout_exit syscall
    "\<lambda>s. (oldcall_layout s, oldcall_expose s)"
  by unfold_locales (auto simp: pagetable_layout_init_def pagetable_layout_exit_def Let_def fun_eq_iff)

fun saved_by :: "module \<Rightarrow> call_table \<Rightarrow> handler \<times> handler" where
  "saved_by Ptree s = (oldcall s, oldcall s)"
| "saved_by Pagetable s = (oldcall_layout s, oldcall_expose s)"

lemma exit_around:
  assumes "\<And>t. syscall (f t) = syscall t" "\<And>t. saved_by m (f t) = saved_by m t"
  shows "syscall (exit_module m (f (init_module m s))) = syscall s"
  using assms(2) ptree.around [of f s] pagetable.around [of f s] assms(1) by (cases m) simp_all

lemma saved_by_step: "op \<noteq> Insmod m \<Longrightarrow> saved_by m (module_step op s) = saved_by m s"
  by (cases m; cases op; cases "case op of Insmod m \<Rightarrow> m | Rmmod m \<Rightarrow> m")
    (auto simp: ptree_init_def ptree_exit_def pagetable_layout_init_def pagetable_layout_exit_def Let_def)

lemma saved_by_run: "Insmod m \<notin> set ops \<Longrightarrow> saved_by m (run_modules ops s) = saved_by m s"
  unfolding run_modules_def by (induction ops arbitrary: s) (auto simp: saved_by_step)

text \<open>
  C37. When modules are unloaded in the opposite order of loading, the system call table is at the end what
  it was at the beginning.
\<close>

theorem nested_restores_calls:
  assumes "nested ops"
  shows "syscall (run_modules ops s) = syscall s"
  using assms
proof (induction ops arbitrary: s rule: nested.induct)
  case nested_Nil
  then show ?case by (simp add: run_modules_def)
next
  case (nested_Load xs m ys)
  let ?s = "run_modules xs (init_module m s)"
  have "syscall (exit_module m ?s) = syscall s"
    using nested_Load.IH(1) saved_by_run [OF nested_Load.hyps(2)] by (rule exit_around)
  then show ?case using nested_Load.IH(2) [of "exit_module m ?s"] by (simp add: run_modules_def)
qed

theorem nested_restores_calls_witness:
  "syscall (run_modules [Insmod Ptree, Insmod Pagetable, Rmmod Pagetable, Rmmod Ptree]
     \<lparr>syscall = Kernel_call, oldcall = Kernel_call 0, oldcall_layout = Kernel_call 0, oldcall_expose = Kernel_call 0\<rparr>) = Kernel_call"
proof -
  have "nested ([Insmod Pagetable] @ Rmmod Pagetable # [])"
    using nested_Load [OF nested_Nil, of Pagetable, OF _ nested_Nil] by simp
  then have "nested (Insmod Ptree # [Insmod Pagetable, Rmmod Pagetable] @ Rmmod Ptree # [])"
    by (intro nested_Load nested_Nil) simp_all
  from nested_restores_calls [OF this] show ?thesis by simp
qed


end
