(* ===== verification/Meminfo.thy ===== *)
theory Meminfo
  imports Mm_Types
begin

text \<open>
  \<^verbatim>\<open>/proc/meminfo\<close>, as \<^verbatim>\<open>fs/proc/meminfo.c\<close> writes it, and the two programs about memory pressure:
  \<^verbatim>\<open>memory_monitor.c\<close>, which prints two of its lines every second, and \<^verbatim>\<open>occupy_mem.c\<close>.
\<close>

section \<open>Formatting\<close>

fun decimal :: "nat \<Rightarrow> string" where
  "decimal n = (if n < 10 then [char_of (48 + n)] else decimal (n div 10) @ [char_of (48 + n mod 10)])"

declare decimal.simps [simp del]

definition fmt_8lu :: "ulong \<Rightarrow> string" where
  "fmt_8lu w = (let ds = decimal (unat w) in replicate (8 - length ds) (CHR '' '') @ ds)"

text \<open>A line of the format string: the label with its blanks, \<^verbatim>\<open>%8lu\<close>, the unit.\<close>

definition line_kB :: "string \<times> ulong \<Rightarrow> string" where
  "line_kB = (\<lambda>(label, w). label @ fmt_8lu w @ '' kB'' @ [CHR 0x0A])"


section \<open>The file\<close>

record sysinfo =
  totalram :: ulong
  freeram :: ulong
  bufferram :: ulong
  totalhigh :: ulong
  freehigh :: ulong
  totalswap :: ulong
  freeswap :: ulong

text \<open>Quantities that other parts of the kernel keep.\<close>

record meminfo_env =
  totalram_pages :: ulong
  nr_blockdev_pages :: ulong
  totalhigh_pages :: ulong
  nr_free_highpages :: ulong
  si_swap :: "ulong \<times> ulong"
  vm_committed_as :: ulong
  sysctl_overcommit_ratio :: ulong
  swap_pages :: ulong
  total_swapcache_pages :: ulong
  vmalloc_total :: ulong
  vmi_used :: ulong
  vmi_largest_chunk :: ulong

definition global_page_state :: "'w mm_state \<Rightarrow> zone_stat_item \<Rightarrow> ulong" where
  "global_page_state s item = vm_stat_global s item"

definition si_meminfo :: "meminfo_env \<Rightarrow> 'w mm_state \<Rightarrow> sysinfo" where
  "si_meminfo e s =
     \<lparr>totalram = totalram_pages e, freeram = global_page_state s NR_FREE_PAGES, bufferram = nr_blockdev_pages e,
      totalhigh = totalhigh_pages e, freehigh = nr_free_highpages e,
      totalswap = fst (si_swap e), freeswap = snd (si_swap e)\<rparr>"

definition K_bytes :: "ulong \<Rightarrow> ulong" where
  "K_bytes x = push_bit 2 x"

definition meminfo_lines :: "meminfo_env \<Rightarrow> 'w mm_state \<Rightarrow> (string \<times> ulong) list" where
  "meminfo_lines e s =
     (let i = si_meminfo e s;
          committed = vm_committed_as e;
          allowed = totalram_pages e * sysctl_overcommit_ratio e div 100 + swap_pages e;
          cached = global_page_state s NR_FILE_PAGES - total_swapcache_pages e - bufferram i;
          cached = (if sint cached < 0 then 0 else cached);
          pages = (\<lambda>lru. global_page_state s (nr_lru lru))
      in [(''MemTotal:       '', K_bytes (totalram i)),
          (''MemFree:        '', K_bytes (freeram i)),
          (''Buffers:        '', K_bytes (bufferram i)),
          (''Cached:         '', K_bytes cached),
          (''SwapCached:     '', K_bytes (total_swapcache_pages e)),
          (''Active:         '', K_bytes (pages LRU_ACTIVE_ANON + pages LRU_ACTIVE_FILE)),
          (''Inactive:       '', K_bytes (pages LRU_INACTIVE_ANON + pages LRU_INACTIVE_FILE)),
          (''Active(anon):   '', K_bytes (pages LRU_ACTIVE_ANON)),
          (''Inactive(anon): '', K_bytes (pages LRU_INACTIVE_ANON)),
          (''Active(file):   '', K_bytes (pages LRU_ACTIVE_FILE)),
          (''Inactive(file): '', K_bytes (pages LRU_INACTIVE_FILE)),
          (''Unevictable:    '', K_bytes (pages LRU_UNEVICTABLE)),
          (''Mlocked:        '', K_bytes (global_page_state s NR_MLOCK)),
          (''HighTotal:      '', K_bytes (totalhigh i)),
          (''HighFree:       '', K_bytes (freehigh i)),
          (''LowTotal:       '', K_bytes (totalram i - totalhigh i)),
          (''LowFree:        '', K_bytes (freeram i - freehigh i)),
          (''SwapTotal:      '', K_bytes (totalswap i)),
          (''SwapFree:       '', K_bytes (freeswap i)),
          (''Dirty:          '', K_bytes (global_page_state s NR_FILE_DIRTY)),
          (''Writeback:      '', K_bytes (global_page_state s NR_WRITEBACK)),
          (''AnonPages:      '', K_bytes (global_page_state s NR_ANON_PAGES)),
          (''Mapped:         '', K_bytes (global_page_state s NR_FILE_MAPPED)),
          (''Shmem:          '', K_bytes (global_page_state s NR_SHMEM)),
          (''Slab:           '', K_bytes (global_page_state s NR_SLAB_RECLAIMABLE + global_page_state s NR_SLAB_UNRECLAIMABLE)),
          (''SReclaimable:   '', K_bytes (global_page_state s NR_SLAB_RECLAIMABLE)),
          (''SUnreclaim:     '', K_bytes (global_page_state s NR_SLAB_UNRECLAIMABLE)),
          (''KernelStack:    '', global_page_state s NR_KERNEL_STACK * 8192 div 1024),
          (''PageTables:     '', K_bytes (global_page_state s NR_PAGETABLE)),
          (''NFS_Unstable:   '', K_bytes (global_page_state s NR_UNSTABLE_NFS)),
          (''Bounce:         '', K_bytes (global_page_state s NR_BOUNCE)),
          (''WritebackTmp:   '', K_bytes (global_page_state s NR_WRITEBACK_TEMP)),
          (''CommitLimit:    '', K_bytes allowed),
          (''Committed_AS:   '', K_bytes committed),
          (''VmallocTotal:   '', drop_bit 10 (vmalloc_total e)),
          (''VmallocUsed:    '', drop_bit 10 (vmi_used e)),
          (''VmallocChunk:   '', drop_bit 10 (vmi_largest_chunk e))])"

definition meminfo_proc_show :: "meminfo_env \<Rightarrow> 'w mm_state \<Rightarrow> string" where
  "meminfo_proc_show e s = concat (map line_kB (meminfo_lines e s))"


section \<open>The monitor\<close>

text \<open>
  \<^verbatim>\<open>fgets(s, 256, stdin)\<close>: the rest of the current line with its end, but at most 255 characters. At the end of
  the file the buffer stays as it is.
\<close>

definition fgets :: "string \<times> string \<Rightarrow> string \<times> string" where
  "fgets = (\<lambda>(buf, rest).
     if rest = [] then (buf, rest)
     else let line = takeWhile (\<lambda>c. c \<noteq> CHR 0x0A) rest;
              n = min 255 (length line + 1)
          in (take n rest, drop n rest))"

definition examine :: "string \<Rightarrow> string \<Rightarrow> string" where
  "examine s meminfo =
     (let st = fgets (s, meminfo); st = fgets st; st = fgets st; st = fgets st; st = fgets st;
          st = fgets st; out = fst st;
          st = fgets st
      in out @ fst st)"

text \<open>The contents of the file after \<open>i\<close> seconds are \<open>meminfo i\<close>.\<close>

definition monitor_main :: "string \<Rightarrow> (nat \<Rightarrow> string) \<Rightarrow> string" where
  "monitor_main s meminfo =
     concat (map (\<lambda>i. ''After '' @ decimal i @ '' second(s):'' @ [CHR 0x0A] @ examine s (meminfo i)) [0..<21])"


section \<open>What it shows\<close>

lemma decimal_no_newline: "CHR 0x0A \<notin> set (decimal n)"
proof (induction n rule: decimal.induct)
  case (1 n)
  have nl: False if "m < 10" "CHR 0x0A = char_of (48 + m)" for m :: nat
  proof -
    have "of_char (CHR 0x0A) = (of_char (char_of (48 + m) :: char) :: nat)" using that(2) by simp
    then show False using that(1) by simp
  qed
  then show ?case using 1 nl [of n] nl [of "n mod 10"] by (subst decimal.simps) auto
qed

lemma length_decimal: "n < 10 ^ k \<Longrightarrow> 0 < k \<Longrightarrow> length (decimal n) \<le> k"
proof (induction n arbitrary: k rule: decimal.induct)
  case (1 n)
  show ?case
  proof (cases "n < 10")
    case True
    then show ?thesis using 1(3) by (subst decimal.simps) simp
  next
    case False
    then obtain j where k: "k = Suc j" "0 < j" using 1(2,3) by (cases k; cases "k - 1") auto
    then have "length (decimal (n div 10)) \<le> j" using 1(1) [OF False, of j] 1(2) by simp
    then show ?thesis using False k by (subst decimal.simps) simp
  qed
qed

lemma fgets_line:
  assumes "CHR 0x0A \<notin> set line" "length line < 255"
  shows "fgets (buf, line @ CHR 0x0A # rest) = (line @ [CHR 0x0A], rest)"
proof -
  have "takeWhile (\<lambda>c. c \<noteq> CHR 0x0A) (line @ CHR 0x0A # rest) = line"
    using assms(1) by (simp add: takeWhile_append)
  then show ?thesis using assms(2) by (simp add: fgets_def Let_def)
qed


lemma line_kB_split:
  "line_kB (label, w) = (label @ fmt_8lu w @ '' kB'') @ [CHR 0x0A]"
  by (simp add: line_kB_def)

lemma line_body:
  assumes "CHR 0x0A \<notin> set label" "length label \<le> 16"
  shows "CHR 0x0A \<notin> set (label @ fmt_8lu w @ '' kB'')" "length (label @ fmt_8lu w @ '' kB'') < 255"
proof -
  have "unat w < 2 ^ 32" by (rule order_less_le_trans [OF unsigned_less]) simp
  then have "unat w < 10 ^ 10" by simp
  then have "length (decimal (unat w)) \<le> 10" by (rule length_decimal) simp
  then show "length (label @ fmt_8lu w @ '' kB'') < 255" using assms(2) by (simp add: fmt_8lu_def Let_def)
  show "CHR 0x0A \<notin> set (label @ fmt_8lu w @ '' kB'')"
    using assms(1) decimal_no_newline by (simp add: fmt_8lu_def Let_def)
qed

lemma fgets_kB:
  assumes "CHR 0x0A \<notin> set label" "length label \<le> 16"
  shows "fgets (buf, concat (map line_kB ((label, w) # ls))) = (line_kB (label, w), concat (map line_kB ls))"
  using fgets_line [OF line_body [OF assms], of buf w] by (simp add: line_kB_def)

text \<open>
  C39. Every second the monitor prints the amounts of active and inactive memory: the lines six and seven of
  the file, with the sums of the counters of the two active and of the two inactive lists in kilobytes.
\<close>

theorem monitor_prints_lru:
  "examine buf (meminfo_proc_show e s) =
     line_kB (''Active:         '', (global_page_state s NR_ACTIVE_ANON + global_page_state s NR_ACTIVE_FILE) * 4) @
     line_kB (''Inactive:       '', (global_page_state s NR_INACTIVE_ANON + global_page_state s NR_INACTIVE_FILE) * 4)"
  by (simp add: examine_def Let_def meminfo_proc_show_def meminfo_lines_def fgets_kB K_bytes_def push_bit_eq_mult
      del: list.map concat.simps)



section \<open>Occupying memory\<close>

text \<open>
  The program's effects in order. \<open>malloc k\<close> is the address of the \<open>k\<close>-th block, 0 for \<^verbatim>\<open>NULL\<close>; block 0 is the array of
  pointers. \<open>None\<close> is the segmentation fault of a write through \<^verbatim>\<open>NULL\<close>.
\<close>

datatype mem_op = Store ulong | Free ulong | Message string

definition touch_block :: "ulong \<Rightarrow> mem_op list" where
  "touch_block p = map (\<lambda>j. Store (p + 4 * push_bit 10 (of_nat j))) [0..<32]"

fun occupy_loop :: "(nat \<Rightarrow> ulong) \<Rightarrow> nat list \<Rightarrow> mem_op list option" where
  "occupy_loop malloc [] = Some []"
| "occupy_loop malloc (i # is) =
     (let p = malloc (i + 1) in
      if p = 0 then None
      else map_option (\<lambda>ops. touch_block p @ ops) (occupy_loop malloc is))"

definition occupy_main :: "(nat \<Rightarrow> ulong) \<Rightarrow> mem_op list option" where
  "occupy_main malloc =
     (if malloc 0 = 0 then Some [Message ''Start to occupy 1GB memory.'', Message ''Memory allocation failed.'']
      else case occupy_loop malloc [0..<2 ^ 13] of
             None \<Rightarrow> None
           | Some ops \<Rightarrow>
               Some ([Message ''Start to occupy 1GB memory.''] @ ops @ [Message ''Releasing after 1s.''] @
                 concat (map (\<lambda>i. if malloc (i + 1) \<noteq> 0 then [Free (malloc (i + 1))] else []) [0..<2 ^ 13]) @
                 [Free (malloc 0)]))"

lemma occupy_loop_iff:
  "occupy_loop malloc is =
     (if \<forall>i \<in> set is. malloc (i + 1) \<noteq> 0 then Some (concat (map (\<lambda>i. touch_block (malloc (i + 1))) is)) else None)"
  by (induction "is") (auto simp: Let_def)

text \<open>
  The program survives exactly when every block can be allocated: the results of \<^verbatim>\<open>malloc\<close> are used
  unchecked, only the release tests them. It then writes to every page of every block, frees each block once, and
  the array last.
\<close>

theorem occupy_needs_all_blocks:
  assumes "malloc 0 \<noteq> 0"
  shows "occupy_main malloc =
    (if \<forall>i < 2 ^ 13. malloc (i + 1) \<noteq> 0
     then Some ([Message ''Start to occupy 1GB memory.''] @
       concat (map (\<lambda>i. map (\<lambda>j. Store (malloc (i + 1) + of_nat j * 4096)) [0..<32]) [0..<2 ^ 13]) @
       [Message ''Releasing after 1s.''] @ map (\<lambda>i. Free (malloc (i + 1))) [0..<2 ^ 13] @ [Free (malloc 0)])
     else None)"
proof -
  have touch: "touch_block p = map (\<lambda>j. Store (p + of_nat j * 4096)) [0..<32]" for p
    unfolding touch_block_def by (rule map_cong [OF refl]) (simp add: push_bit_eq_mult)
  have free: "\<forall>i \<in> set is. malloc (i + 1) \<noteq> 0 \<Longrightarrow>
      concat (map (\<lambda>i. if malloc (i + 1) \<noteq> 0 then [Free (malloc (i + 1))] else []) is) = map (\<lambda>i. Free (malloc (i + 1))) is" for "is"
    by (induction "is") simp_all
  have all: "(\<forall>i \<in> set [0..<2 ^ 13]. malloc (i + 1) \<noteq> 0) \<longleftrightarrow> (\<forall>i < 2 ^ 13. malloc (i + 1) \<noteq> 0)" by auto
  show ?thesis
  proof (cases "\<forall>i < 2 ^ 13. malloc (i + 1) \<noteq> 0")
    case True
    show ?thesis using assms free [of "[0..<2 ^ 13]"] True
      unfolding occupy_main_def occupy_loop_iff all touch eqTrueI [OF True] by (simp only: simp_thms if_True if_False option.case)
  next
    case False
    then show ?thesis using assms unfolding occupy_main_def occupy_loop_iff all by (simp only: if_False simp_thms option.case)
  qed
qed

theorem occupy_needs_all_blocks_witness: "occupy_main (\<lambda>k. if k = 5 then 0 else 0x20000) = None"
proof -
  have "\<not> (\<forall>i < 2 ^ 13. (if i + 1 = (5 :: nat) then 0 else 0x20000 :: ulong) \<noteq> 0)"
    by (auto intro!: exI [of _ 4])
  with occupy_needs_all_blocks [of "\<lambda>k. if k = 5 then 0 else 0x20000"] show ?thesis by simp
qed

end
