(* ===== verification/Spec2Isabelle.thy ===== *)
theory Spec2Isabelle
  imports Linux_List_Spec Swap_Spec Pool_Spec Kswapd_Spec Burger_Spec Ptree_Spec Pagetable_Users Syscall_Table Meminfo
begin

text \<open>
  A verification development for a course repository on the Android kernel: a Linux 3.4 kernel for
  the goldfish emulator (\<^verbatim>\<open>Project 2/kernel/goldfish\<close>) whose page replacement was changed, two loadable
  modules with system calls, and the user programs that exercise them.

  \<^bold>\<open>The parts and how they interact.\<close> The changed kernel keeps in each page a counter that
  reclaim ages; \<^verbatim>\<open>mm/swap.c\<close> and \<^verbatim>\<open>mm/vmscan.c\<close> move pages between the active and the inactive lists by it, in direct reclaim and in the thread \<^verbatim>\<open>kswapd\<close>;
  \<^verbatim>\<open>memory_monitor.c\<close> shows the length of the lists and \<^verbatim>\<open>occupy_mem.c\<close> puts memory under pressure.
  \<^verbatim>\<open>ptreemodule.c\<close> installs a system call that copies the tree of tasks to user space, \<^verbatim>\<open>ptree.c\<close> prints it.
  \<^verbatim>\<open>pagetable.c\<close> installs system calls that remap the page tables of a process into the caller, walking
  them with \<^verbatim>\<open>pagewalk.c\<close>; \<^verbatim>\<open>VATranslate.c\<close> and \<^verbatim>\<open>vm_inspector.c\<close> read the tables there. Both modules overwrite
  entries of the system call table. \<^verbatim>\<open>BurgerBuddies.c\<close> is a program of its own,
  threads that synchronise over mutexes and semaphores.

  \<^bold>\<open>Conventions.\<close> A C structure is a record, an operation a function from state to state, an
  enumeration a datatype. A name \<^verbatim>\<open>__foo\<close> of the source is \<open>raw_foo\<close> here. Unsigned longs are 32-bit
  words, as in the configuration of the repository (\<^verbatim>\<open>.config\<close>: ARM, one processor, swap, no control groups,
  no compaction, no huge pages). \<open>None\<close>, or the left side of a sum, stands for what the code must not do:
  a \<^verbatim>\<open>BUG\<close>, a write outside an array, a call that does not return. Code outside the modelled files
  (reverse mapping, swap, file systems, the block layer, the scheduler) is a function of an environment
  record, an argument of the definitions that call it; \<open>env_ok\<close> states what is assumed about it.

  \<^bold>\<open>The theories.\<close>
  \<^item> \<open>Kernel_Prelude\<close>: machine types, generic lemmas on lists and words.
  \<^item> \<open>Linux_List\<close>: \<^verbatim>\<open>include/linux/list.h\<close> over an explicit heap of pointers; each operation refines an
    operation on lists. The locale \<open>linked_list\<close> is the interface, interpreted on the definitions.
    \<open>Linux_List_Spec\<close>: cutting a list and splicing it again.
  \<^item> \<open>Mm_Types\<close>, \<open>Mm_Lru\<close>, \<open>Mm_Swap\<close>: pages, zones, counters and pagevecs; \<^verbatim>\<open>mm_inline.h\<close>; \<^verbatim>\<open>mm/swap.c\<close>. The
    invariant \<open>mm_inv\<close> relates lists, page flags and counters, and every operation keeps it.
  \<^item> \<open>Swap_Spec\<close>: the properties of \<^verbatim>\<open>mm/swap.c\<close>.
  \<^item> \<open>Vmscan_Page\<close>, \<open>Vmscan_List\<close>, \<open>Vmscan_Zone\<close>: \<^verbatim>\<open>mm/vmscan.c\<close> from single pages over the scans of a list to
    direct reclaim and the slab shrinkers. \<open>Vmscan_Inv\<close>, \<open>Vmscan_Scan\<close> and \<open>Vmscan_Reclaim\<close> show that each of
    them keeps the invariant; isolation and the scan of the active list also never stop with a \<^verbatim>\<open>BUG\<close>.
    \<open>Vmscan_Spec\<close> states this for direct reclaim as a whole, and what the counter decides on each list, when a
    page may lose its mapping, and that the shrinkers return.
  \<^item> \<open>Vmscan_Kswapd\<close>, \<open>Kswapd_Spec\<close>: the thread \<^verbatim>\<open>kswapd\<close>, \<^verbatim>\<open>balance_pgdat\<close> with its passes and restarts, the wake-up and
    \<^verbatim>\<open>check_move_unevictable_pages\<close>; the invariant again, and when the thread goes to sleep.
  \<^item> \<open>Burger_Queue\<close>, \<open>Burger_Buddies\<close>, \<open>Burger_Inv\<close>, \<open>Burger_Spec\<close>: \<^verbatim>\<open>BurgerBuddies.c\<close>, its ring buffer as a refinement
    of a bounded queue (locale \<open>bounded_fifo\<close>), its threads as a step relation, with mutual exclusion,
    absence of deadlock and orderly closing, and the overflow of the rack.
  \<^item> \<open>Ptree_Module\<close>, \<open>Ptree_Display\<close>, \<open>Ptree_Spec\<close>: \<^verbatim>\<open>ptreemodule.c\<close> and \<^verbatim>\<open>ptree.c\<close>; the walk of the tasks with its
    buffer, the stack algorithm that finds the depths, and both together.
  \<^item> \<open>Page_Walk\<close>: \<^verbatim>\<open>find_vma\<close> and \<^verbatim>\<open>mm/pagewalk.c\<close>; termination, a reference for walks over the page directory
    (locale \<open>directory_walk\<close>), and how the walk can leave its range.
  \<^item> \<open>Page_Remap\<close>, \<open>Pagetable_Module\<close>, \<open>Pagetable_Spec\<close>: \<^verbatim>\<open>remap_pfn_range\<close> and the page table module; which tables the
    system call exposes, its return values, and the loss of the second of two tables.
  \<^item> \<open>Hex_Parse\<close>, \<open>Pagetable_Users\<close>: the number parser of the two programs as the inverse of printing, and the
    programs over the exposed tables: the translation agrees with the page tables of the target process.
  \<^item> \<open>Syscall_Table\<close>: loading and unloading of modules that save and restore an entry of the system call table
    (locale \<open>hooking_module\<close>, interpreted on both modules); nested unloading restores the table, crossed
    unloading leaves a dangling entry.
  \<^item> \<open>Meminfo\<close>: \<^verbatim>\<open>meminfo_proc_show\<close>, \<^verbatim>\<open>memory_monitor.c\<close> and \<^verbatim>\<open>occupy_mem.c\<close>.

  \<^bold>\<open>Fuel.\<close> Only the walk over the tasks has fuel, since child lists could be cyclic; on a tree of
  \<open>n\<close> tasks \<open>2 n\<close> is enough, which the theorems about it state. Loops that may not end are partial
  functions to options: that a result satisfies the invariant is then not a claim that there is one, and
  returning is stated on its own where it holds. \<^verbatim>\<open>balance_pgdat\<close> restarts until the node is balanced and
  \<^verbatim>\<open>kswapd\<close> runs until it is stopped, so neither has such a claim.

  \<^bold>\<open>Not modelled.\<close> The rest of the kernel (drivers, file systems, networking, the scheduler, the page
  allocator, reverse mapping, the swap files), which the modelled code only calls; the messages of \<^verbatim>\<open>printk\<close>; the creation of the \<^verbatim>\<open>kswapd\<close> thread; code the
  configuration leaves out (control groups, compaction, zone reclaim of several nodes, hibernation);
  \<^verbatim>\<open>ptreecall.c\<close>, which only creates a process.
\<close>

end
